(* ===== verification/Prelude.thy ===== *)
theory Prelude
  imports Main "HOL-Library.Word"
begin

text \<open>
  Shared material of the development: the names of the model's basic types, the
  \<^theory_text>\<open>named_theorems\<close> collections the component theories add to, and the
  generic facts on lists, maps and size arithmetic that several components use.
\<close>

section \<open>Basic types\<close>

text \<open>Octets on the RPC wire and in the socket buffers.\<close>

type_synonym byte = "8 word"

text \<open>A file descriptor is a C \<^verbatim>\<open>int\<close>; \<open>-1\<close> is \<^verbatim>\<open>ISocket::ERROR_SOCKET\<close>.\<close>

type_synonym fd = int

section \<open>Collections of facts\<close>

named_theorems resp_simps \<open>evaluation rules of the RESP parser on the shapes its encoder produces\<close>
named_theorems rpc_simps \<open>evaluation rules of the RPC frame parser, one per state\<close>
named_theorems loop_simps \<open>field updates of the event loop and its handlers\<close>
named_theorems inv_intros \<open>preservation of a component's invariant by its operations\<close>

section \<open>Size arithmetic\<close>

text \<open>\<^verbatim>\<open>std::size_t\<close> has 64 bits: sums and conversions from \<^verbatim>\<open>long long\<close> wrap.\<close>

definition size_t_mod :: nat where
  "size_t_mod = 2 ^ 64"

definition to_size_t :: "int \<Rightarrow> nat" where
  "to_size_t i = nat (i mod 2 ^ 64)"

definition add_size_t :: "nat \<Rightarrow> nat \<Rightarrow> nat" where
  "add_size_t a b = (a + b) mod size_t_mod"

lemma to_size_t_nonneg: "0 \<le> i \<Longrightarrow> i < 2 ^ 63 \<Longrightarrow> to_size_t i = nat i"
  by (simp add: to_size_t_def)

lemma add_size_t_small: "a + b < 2 ^ 64 \<Longrightarrow> add_size_t a b = a + b"
  by (simp add: add_size_t_def size_t_mod_def)

section \<open>Lists\<close>

lemma nth_append_offset [simp]: "n = length xs \<Longrightarrow> (xs @ y # ys) ! n = y"
  by simp

lemma take_append_exact: "n = length xs \<Longrightarrow> take n (xs @ ys) = xs"
  by simp

lemma drop_append_exact: "n = length xs \<Longrightarrow> drop n (xs @ ys) = ys"
  by simp

lemma nth_drop_Cons: "drop n xs = y # ys \<Longrightarrow> n < length xs \<and> xs ! n = y"
  by (metis drop_all list.distinct(1) linorder_not_le nth_via_drop)

lemma drop_Suc_Cons: "drop n xs = y # ys \<Longrightarrow> drop (Suc n) xs = ys"
  by (metis drop_Suc list.sel(3) tl_drop)

lemma drop_add_append: "drop n xs = ys @ zs \<Longrightarrow> drop (n + length ys) xs = zs"
  by (metis add.commute append_eq_conv_conj drop_drop)

text \<open>Two ways to cut the same list.\<close>

lemma append_split_le:
  assumes "xs @ ys = us @ vs" and "length xs \<le> length us"
  obtains c where "us = xs @ c" and "ys = c @ vs"
proof
  show "us = xs @ drop (length xs) us" and "ys = drop (length xs) us @ vs"
    using assms by (simp_all add: append_eq_append_conv_if) (metis append_take_drop_id)
qed

lemma append_split_less:
  assumes "xs @ ys = us @ vs" and "length us < length xs"
  obtains c where "xs = us @ c" and "c \<noteq> []" and "vs = c @ ys"
proof -
  from assms(1) have "us @ vs = xs @ ys" by simp
  then obtain c where "xs = us @ c" "vs = c @ ys"
    using assms(2) by (elim append_split_le) simp_all
  with assms(2) that show thesis by auto
qed

lemma dropWhile_Cons_length: "dropWhile P xs = y # ys \<Longrightarrow> length ys < length xs"
  using length_dropWhile_le [of P xs] by simp

lemma dropWhile_Cons_suffix: "dropWhile P xs = y # ys \<Longrightarrow> \<exists>zs. xs = zs @ ys"
  by (metis append.assoc append_Cons append_Nil takeWhile_dropWhile_id)

lemma dropWhile_append_Nil: "dropWhile P xs = [] \<Longrightarrow> dropWhile P (xs @ ys) = dropWhile P ys"
  by (simp add: dropWhile_append)

lemma dropWhile_append_Cons: "dropWhile P xs = y # zs \<Longrightarrow> dropWhile P (xs @ ys) = y # zs @ ys"
  by (induction xs) (auto split: if_splits)

text \<open>A sum over a list of which one element is replaced.\<close>

lemma sum_list_map_update:
  fixes w :: "'a \<Rightarrow> nat"
  shows "i < length xs \<Longrightarrow> sum_list (map w (xs[i := x])) + w (xs ! i) = sum_list (map w xs) + w x"
proof (induction xs arbitrary: i)
  case (Cons y ys)
  then show ?case by (cases i) auto
qed simp

section \<open>Maps\<close>

lemma map_upd_same_some [simp]: "m k = Some v \<Longrightarrow> m(k \<mapsto> v) = m"
  by (simp add: fun_upd_idem_iff)

end
