(* ===== verification/Queues.thy ===== *)
theory Queues
  imports Prelude
begin

text \<open>
  The three ring buffers of \<^verbatim>\<open>src/utils/thread_pool/queue/LockFreeQueue.h\<close> as
  sequential objects: what one call does when no other call overlaps it. A call that spins for
  ever is \<open>None\<close>. The locale states what a client of such a queue relies on; each ring
  interprets it.
\<close>

section \<open>Ring arithmetic\<close>

definition ring_next :: "nat \<Rightarrow> nat \<Rightarrow> nat" where
  "ring_next cap i = (i + 1) mod cap"

definition ring_count :: "nat \<Rightarrow> nat \<Rightarrow> nat \<Rightarrow> nat" where
  "ring_count cap h t = (if t \<le> h then h - t else h + cap - t)"

definition ring_index :: "nat \<Rightarrow> nat \<Rightarrow> nat \<Rightarrow> nat" where
  "ring_index cap t i = (if t + i < cap then t + i else t + i - cap)"

definition ring_indices :: "nat \<Rightarrow> nat \<Rightarrow> nat \<Rightarrow> nat list" where
  "ring_indices cap h t = map (ring_index cap t) [0..<ring_count cap h t]"

definition ring_ok :: "nat \<Rightarrow> nat \<Rightarrow> nat \<Rightarrow> bool" where
  "ring_ok cap h t \<longleftrightarrow> h < cap \<and> t < cap"

lemma ring_next_cases: "i < cap \<Longrightarrow> ring_next cap i = (if i + 1 = cap then 0 else i + 1)"
  by (auto simp: ring_next_def)

lemma ring_next_less: "ring_ok cap h t \<Longrightarrow> ring_next cap i < cap"
  by (simp add: ring_next_def ring_ok_def)

lemma ring_count_less: "ring_ok cap h t \<Longrightarrow> ring_count cap h t < cap"
  by (auto simp: ring_count_def ring_ok_def)

lemma ring_full_iff: "ring_ok cap h t \<Longrightarrow> ring_next cap h = t \<longleftrightarrow> ring_count cap h t + 1 = cap"
  by (auto simp: ring_next_cases ring_count_def ring_ok_def)

lemma ring_empty_iff: "ring_ok cap h t \<Longrightarrow> t = h \<longleftrightarrow> ring_count cap h t = 0"
  by (auto simp: ring_count_def ring_ok_def)

lemma ring_index_less: "ring_ok cap h t \<Longrightarrow> i < cap \<Longrightarrow> ring_index cap t i < cap"
  by (auto simp: ring_index_def ring_ok_def)

lemma ring_index_inj:
  "ring_ok cap h t \<Longrightarrow> i < cap \<Longrightarrow> j < cap \<Longrightarrow> ring_index cap t i = ring_index cap t j \<longleftrightarrow> i = j"
  by (auto simp: ring_index_def ring_ok_def split: if_splits)

lemma ring_index_head: "ring_ok cap h t \<Longrightarrow> ring_index cap t (ring_count cap h t) = h"
  by (auto simp: ring_index_def ring_count_def ring_ok_def)

lemma ring_indices_push:
  "ring_ok cap h t \<Longrightarrow> ring_next cap h \<noteq> t \<Longrightarrow>
   ring_indices cap (ring_next cap h) t = ring_indices cap h t @ [h]"
proof -
  assume ok: "ring_ok cap h t" and "ring_next cap h \<noteq> t"
  then have "ring_count cap (ring_next cap h) t = Suc (ring_count cap h t)"
    by (auto simp: ring_next_cases ring_count_def ring_ok_def)
  with ok show ?thesis by (simp add: ring_indices_def ring_index_head)
qed

lemma ring_indices_pop:
  "ring_ok cap h t \<Longrightarrow> t \<noteq> h \<Longrightarrow> ring_indices cap h t = t # ring_indices cap h (ring_next cap t)"
proof -
  assume ok: "ring_ok cap h t" and "t \<noteq> h"
  then have c: "ring_count cap h t = Suc (ring_count cap h (ring_next cap t))"
    by (auto simp: ring_next_cases ring_count_def ring_ok_def)
  have "ring_index cap t (Suc i) = ring_index cap (ring_next cap t) i"
    if "i < ring_count cap h (ring_next cap t)" for i
    using ok that by (auto simp: ring_next_cases ring_index_def ring_ok_def ring_count_def split: if_splits)
  then have "map (ring_index cap t) [Suc 0..<Suc (ring_count cap h (ring_next cap t))] =
      ring_indices cap h (ring_next cap t)"
    by (simp add: ring_indices_def map_Suc_upt [symmetric] del: upt_Suc)
  moreover have "ring_index cap t 0 = t" using ok by (simp add: ring_index_def ring_ok_def)
  ultimately show ?thesis by (simp add: ring_indices_def c upt_conv_Cons del: upt_Suc)
qed

lemma ring_head_fresh: "ring_ok cap h t \<Longrightarrow> h \<notin> set (ring_indices cap h t)"
  by (auto simp: ring_indices_def ring_index_def ring_count_def ring_ok_def split: if_splits)

lemma ring_tail_fresh:
  "ring_ok cap h t \<Longrightarrow> t \<noteq> h \<Longrightarrow> t \<notin> set (ring_indices cap h (ring_next cap t))"
  by (auto simp: ring_indices_def ring_index_def ring_count_def ring_ok_def ring_next_cases split: if_splits)

lemma ring_indices_less: "ring_ok cap h t \<Longrightarrow> i \<in> set (ring_indices cap h t) \<Longrightarrow> i < cap"
  by (auto simp: ring_indices_def intro!: ring_index_less dest: ring_count_less)

lemma length_ring_indices [simp]: "length (ring_indices cap h t) = ring_count cap h t"
  by (simp add: ring_indices_def)

section \<open>\<^verbatim>\<open>LockFreeQueue\<close>\<close>

record 'a lf_queue =
  lf_data :: "'a list"
  lf_head :: nat
  lf_tail :: nat

definition lf_new :: "nat \<Rightarrow> 'a \<Rightarrow> 'a lf_queue" where
  "lf_new cap x = \<lparr>lf_data = replicate cap x, lf_head = 0, lf_tail = 0\<rparr>"

definition lf_push :: "'a \<Rightarrow> 'a lf_queue \<Rightarrow> (bool \<times> 'a lf_queue) option" where
  "lf_push x q =
     (let head = lf_head q; head_next = ring_next (length (lf_data q)) head in
      if head_next = lf_tail q then Some (False, q)
      else Some (True, q\<lparr>lf_data := (lf_data q)[head := x], lf_head := head_next\<rparr>))"

definition lf_pop :: "'a lf_queue \<Rightarrow> ('a option \<times> 'a lf_queue) option" where
  "lf_pop q =
     (let tail = lf_tail q in
      if tail = lf_head q then Some (None, q)
      else Some (Some (lf_data q ! tail), q\<lparr>lf_tail := ring_next (length (lf_data q)) tail\<rparr>))"

definition lf_empty :: "'a lf_queue \<Rightarrow> bool" where
  "lf_empty q \<longleftrightarrow> lf_head q = lf_tail q"

definition lf_cap :: "'a lf_queue \<Rightarrow> nat" where
  "lf_cap q = length (lf_data q)"

definition lf_inv :: "'a lf_queue \<Rightarrow> bool" where
  "lf_inv q \<longleftrightarrow> ring_ok (lf_cap q) (lf_head q) (lf_tail q)"

definition lf_contents :: "'a lf_queue \<Rightarrow> 'a list" where
  "lf_contents q = map ((!) (lf_data q)) (ring_indices (lf_cap q) (lf_head q) (lf_tail q))"

section \<open>\<^verbatim>\<open>MPSCQueue\<close> and \<^verbatim>\<open>MPMCQueue\<close>\<close>

text \<open>Both keep a sequence number beside every item; it is invalid while the slot is free.\<close>

record 'a slot =
  seq :: nat
  item :: 'a

lemma slot_filled: "(r :: 'a slot)\<lparr>item := x, seq := h\<rparr> = \<lparr>seq = h, item = x\<rparr>"
  by (cases r) simp

record 'a mp_queue =
  mp_data :: "'a slot list"
  mp_head :: nat
  mp_tail :: nat

definition invalid_index :: "'a mp_queue \<Rightarrow> nat" where
  "invalid_index q = length (mp_data q) + 1"

definition mp_new :: "nat \<Rightarrow> 'a \<Rightarrow> 'a mp_queue" where
  "mp_new cap x = \<lparr>mp_data = replicate cap \<lparr>seq = cap + 1, item = x\<rparr>, mp_head = 0, mp_tail = 0\<rparr>"

definition mpsc_push :: "'a \<Rightarrow> 'a mp_queue \<Rightarrow> (bool \<times> 'a mp_queue) option" where
  "mpsc_push x q =
     (let head = mp_head q; head_next = ring_next (length (mp_data q)) head in
      if head_next = mp_tail q then Some (False, q)
      else Some (True, q\<lparr>mp_head := head_next, mp_data := (mp_data q)[head := \<lparr>seq = head, item = x\<rparr>]\<rparr>))"

definition mpsc_pop :: "'a mp_queue \<Rightarrow> ('a option \<times> 'a mp_queue) option" where
  "mpsc_pop q =
     (let tail = mp_tail q in
      if tail = mp_head q then Some (None, q)
      else let s = mp_data q ! tail in
        if seq s = invalid_index q then None
        else Some (Some (item s),
          q\<lparr>mp_data := (mp_data q)[tail := s\<lparr>seq := invalid_index q\<rparr>],
            mp_tail := ring_next (length (mp_data q)) tail\<rparr>))"

definition mpmc_push :: "'a \<Rightarrow> 'a mp_queue \<Rightarrow> (bool \<times> 'a mp_queue) option" where
  "mpmc_push x q =
     (let head = mp_head q; head_next = ring_next (length (mp_data q)) head in
      if head_next = mp_tail q then Some (False, q)
      else if seq (mp_data q ! head) \<noteq> invalid_index q then None
      else Some (True, q\<lparr>mp_head := head_next, mp_data := (mp_data q)[head := \<lparr>seq = head, item = x\<rparr>]\<rparr>))"

definition mpmc_pop :: "'a mp_queue \<Rightarrow> ('a option \<times> 'a mp_queue) option" where
  "mpmc_pop q =
     (let tail = mp_tail q in
      if tail = mp_head q then Some (None, q)
      else let s = mp_data q ! tail in
        if seq s \<noteq> tail then None
        else Some (Some (item s),
          q\<lparr>mp_tail := ring_next (length (mp_data q)) tail,
            mp_data := (mp_data q)[tail := s\<lparr>seq := invalid_index q\<rparr>]\<rparr>))"

definition mp_empty :: "'a mp_queue \<Rightarrow> bool" where
  "mp_empty q \<longleftrightarrow> mp_tail q = mp_head q"

definition mp_cap :: "'a mp_queue \<Rightarrow> nat" where
  "mp_cap q = length (mp_data q)"

definition mp_indices :: "'a mp_queue \<Rightarrow> nat list" where
  "mp_indices q = ring_indices (mp_cap q) (mp_head q) (mp_tail q)"

definition mp_contents :: "'a mp_queue \<Rightarrow> 'a list" where
  "mp_contents q = map (\<lambda>i. item (mp_data q ! i)) (mp_indices q)"

text \<open>A slot holds its own index while it is occupied, and the invalid index otherwise.\<close>

definition mp_inv :: "'a mp_queue \<Rightarrow> bool" where
  "mp_inv q \<longleftrightarrow> ring_ok (mp_cap q) (mp_head q) (mp_tail q) \<and>
     (\<forall>i < mp_cap q. seq (mp_data q ! i) = (if i \<in> set (mp_indices q) then i else invalid_index q))"

section \<open>Call sequences\<close>

datatype 'a qcall = Push 'a | Pop | Empty
datatype 'a qresult = Pushed bool | PoppedItem "'a option" | IsEmpty bool

text \<open>A sequence of calls on a queue, and on the list of at most \<open>n - 1\<close> items it stands for.\<close>

fun run_calls ::
  "('a \<Rightarrow> 'q \<Rightarrow> (bool \<times> 'q) option) \<Rightarrow> ('q \<Rightarrow> ('a option \<times> 'q) option) \<Rightarrow> ('q \<Rightarrow> bool) \<Rightarrow>
   'a qcall list \<Rightarrow> 'q \<Rightarrow> ('a qresult list \<times> 'q) option" where
  "run_calls psh pp emp [] q = Some ([], q)"
| "run_calls psh pp emp (c # cs) q =
     (case (case c of
              Push x \<Rightarrow> map_option (\<lambda>(r, q). (Pushed r, q)) (psh x q)
            | Pop \<Rightarrow> map_option (\<lambda>(r, q). (PoppedItem r, q)) (pp q)
            | Empty \<Rightarrow> Some (IsEmpty (emp q), q)) of
        None \<Rightarrow> None
      | Some (r, q) \<Rightarrow> map_option (\<lambda>(rs, q). (r # rs, q)) (run_calls psh pp emp cs q))"

fun list_calls :: "nat \<Rightarrow> 'a qcall list \<Rightarrow> 'a list \<Rightarrow> 'a qresult list \<times> 'a list" where
  "list_calls n [] xs = ([], xs)"
| "list_calls n (c # cs) xs =
     (case (case c of
              Push x \<Rightarrow> if length xs + 1 < n then (Pushed True, xs @ [x]) else (Pushed False, xs)
            | Pop \<Rightarrow> (case xs of [] \<Rightarrow> (PoppedItem None, []) | x # xs \<Rightarrow> (PoppedItem (Some x), xs))
            | Empty \<Rightarrow> (IsEmpty (xs = []), xs)) of
        (r, xs) \<Rightarrow> (case list_calls n cs xs of (rs, xs) \<Rightarrow> (r # rs, xs)))"

text \<open>\<^verbatim>\<open>while (queue.pop(item)) ...\<close>: the items it takes.\<close>

fun drain :: "('q \<Rightarrow> ('a option \<times> 'q) option) \<Rightarrow> nat \<Rightarrow> 'q \<Rightarrow> ('a list \<times> 'q) option" where
  "drain pp 0 q = None"
| "drain pp (Suc f) q =
     (case pp q of
        None \<Rightarrow> None
      | Some (None, q) \<Rightarrow> Some ([], q)
      | Some (Some x, q) \<Rightarrow> map_option (\<lambda>(xs, q). (x # xs, q)) (drain pp f q))"

section \<open>What a client relies on\<close>

locale bounded_queue =
  fixes push :: "'a \<Rightarrow> 'q \<Rightarrow> (bool \<times> 'q) option"
    and pop :: "'q \<Rightarrow> ('a option \<times> 'q) option"
    and is_empty :: "'q \<Rightarrow> bool"
    and ok :: "'q \<Rightarrow> bool"
    and contents :: "'q \<Rightarrow> 'a list"
    and places :: "'q \<Rightarrow> nat"
  assumes bound: "ok q \<Longrightarrow> length (contents q) < places q"
    and push_full: "ok q \<Longrightarrow> length (contents q) + 1 = places q \<Longrightarrow> push x q = Some (False, q)"
    and push_room: "ok q \<Longrightarrow> length (contents q) + 1 < places q \<Longrightarrow>
      \<exists>q'. push x q = Some (True, q') \<and> ok q' \<and> contents q' = contents q @ [x] \<and> places q' = places q"
    and pop_none: "ok q \<Longrightarrow> contents q = [] \<Longrightarrow> pop q = Some (None, q)"
    and pop_some: "ok q \<Longrightarrow> contents q = x # xs \<Longrightarrow>
      \<exists>q'. pop q = Some (Some x, q') \<and> ok q' \<and> contents q' = xs \<and> places q' = places q"
    and is_empty_iff: "ok q \<Longrightarrow> is_empty q \<longleftrightarrow> contents q = []"

begin

text \<open>One call refines the list.\<close>

lemma push_cases:
  assumes "ok q"
  obtains (full) "length (contents q) + 1 = places q" "push x q = Some (False, q)"
  | (room) q' where "length (contents q) + 1 < places q" "push x q = Some (True, q')" "ok q'"
      "contents q' = contents q @ [x]" "places q' = places q"
proof (cases "length (contents q) + 1 = places q")
  case True
  with assms show ?thesis by (intro full push_full)
next
  case False
  with bound [OF assms] have "length (contents q) + 1 < places q" by simp
  with push_room [OF assms this, of x] room show ?thesis by blast
qed

lemma run_calls_refines:
  assumes "ok q"
  shows "\<exists>q'. run_calls push pop is_empty cs q = Some (fst (list_calls (places q) cs (contents q)), q') \<and>
    ok q' \<and> contents q' = snd (list_calls (places q) cs (contents q)) \<and> places q' = places q"
  using assms
proof (induction cs arbitrary: q)
  case Nil
  then show ?case by simp
next
  case (Cons c cs)
  note IH = Cons.IH
  show ?case
  proof (cases c)
    case (Push x)
    from Cons.prems show ?thesis
    proof (cases rule: push_cases [where x = x])
      case full
      with IH [OF Cons.prems] Push show ?thesis by (auto split: prod.splits)
    next
      case (room q')
      with IH [OF room(3)] Push show ?thesis by (auto split: prod.splits)
    qed
  next
    case Pop
    show ?thesis
    proof (cases "contents q")
      case Nil
      with IH [OF Cons.prems] Pop pop_none [OF Cons.prems] show ?thesis by (auto split: prod.splits)
    next
      case (Cons x xs)
      from pop_some [OF Cons.prems Cons] obtain q' where
        q': "pop q = Some (Some x, q')" "ok q'" "contents q' = xs" "places q' = places q" by blast
      with IH [OF q'(2)] Pop Cons show ?thesis by (auto split: prod.splits)
    qed
  next
    case Empty
    with IH [OF Cons.prems] is_empty_iff [OF Cons.prems] show ?thesis by (auto split: prod.splits)
  qed
qed

text \<open>A loop that pops until it fails takes everything, in order.\<close>

lemma drain_all:
  "ok q \<Longrightarrow> length (contents q) < f \<Longrightarrow>
   \<exists>q'. drain pop f q = Some (contents q, q') \<and> ok q' \<and> contents q' = [] \<and> places q' = places q"
proof (induction f arbitrary: q)
  case 0
  then show ?case by simp
next
  case (Suc f)
  show ?case
  proof (cases "contents q")
    case Nil
    with pop_none [OF Suc.prems(1)] Suc.prems show ?thesis by simp
  next
    case (Cons x xs)
    from pop_some [OF Suc.prems(1) Cons] obtain q' where
      q': "pop q = Some (Some x, q')" "ok q'" "contents q' = xs" "places q' = places q" by blast
    with Suc.IH [OF q'(2)] Suc.prems(2) Cons show ?thesis by auto
  qed
qed

end

section \<open>The three rings keep the contract\<close>

lemma lf_contents_pop:
  "lf_inv q \<Longrightarrow> lf_head q \<noteq> lf_tail q \<Longrightarrow>
   lf_contents q = lf_data q ! lf_tail q #
     map ((!) (lf_data q)) (ring_indices (lf_cap q) (lf_head q) (ring_next (lf_cap q) (lf_tail q)))"
  by (simp add: lf_contents_def lf_inv_def ring_indices_pop)

lemma lf_contents_Nil: "lf_inv q \<Longrightarrow> lf_contents q = [] \<longleftrightarrow> lf_head q = lf_tail q"
  using ring_empty_iff [of "lf_cap q" "lf_head q" "lf_tail q"]
  by (auto simp: lf_contents_def lf_inv_def simp flip: length_0_conv)

lemma lf_full: "lf_inv q \<Longrightarrow> length (lf_contents q) + 1 = lf_cap q \<longleftrightarrow> ring_next (lf_cap q) (lf_head q) = lf_tail q"
  by (simp add: lf_contents_def lf_inv_def ring_full_iff)

lemma lf_push_room:
  assumes "lf_inv q" and "length (lf_contents q) + 1 < lf_cap q"
  shows "\<exists>q'. lf_push x q = Some (True, q') \<and> lf_inv q' \<and> lf_contents q' = lf_contents q @ [x] \<and>
    lf_cap q' = lf_cap q"
proof -
  let ?q = "q\<lparr>lf_data := (lf_data q)[lf_head q := x], lf_head := ring_next (lf_cap q) (lf_head q)\<rparr>"
  have ok: "ring_ok (lf_cap q) (lf_head q) (lf_tail q)" using assms(1) by (simp add: lf_inv_def)
  have nf: "ring_next (lf_cap q) (lf_head q) \<noteq> lf_tail q" using assms lf_full by fastforce
  have "lf_cap ?q = lf_cap q" "lf_inv ?q"
    using ok ring_next_less [OF ok] by (simp_all add: lf_cap_def lf_inv_def ring_ok_def)
  moreover have "lf_contents ?q = lf_contents q @ [x]"
    using ok ring_head_fresh [OF ok] ring_indices_push [OF ok nf]
    by (auto simp: lf_contents_def lf_cap_def ring_ok_def nth_list_update)
  moreover have "lf_push x q = Some (True, ?q)"
    using nf by (simp add: lf_push_def lf_cap_def Let_def)
  ultimately show ?thesis by blast
qed

lemma lf_pop_some:
  assumes "lf_inv q" and "lf_contents q = x # xs"
  shows "\<exists>q'. lf_pop q = Some (Some x, q') \<and> lf_inv q' \<and> lf_contents q' = xs \<and> lf_cap q' = lf_cap q"
proof -
  let ?q = "q\<lparr>lf_tail := ring_next (lf_cap q) (lf_tail q)\<rparr>"
  have ne: "lf_head q \<noteq> lf_tail q" using assms lf_contents_Nil by fastforce
  have "lf_cap ?q = lf_cap q" "lf_inv ?q"
    using assms(1) by (auto simp: lf_cap_def lf_inv_def ring_ok_def ring_next_def intro!: mod_less_divisor)
  moreover have "x = lf_data q ! lf_tail q" "lf_contents ?q = xs"
    using assms(2) lf_contents_pop [OF assms(1) ne] by (simp_all add: lf_contents_def lf_cap_def)
  moreover have "lf_pop q = Some (Some (lf_data q ! lf_tail q), ?q)"
    using ne by (simp add: lf_pop_def lf_cap_def Let_def)
  ultimately show ?thesis by blast
qed

interpretation lf: bounded_queue lf_push lf_pop lf_empty lf_inv lf_contents lf_cap
proof (unfold_locales, goal_cases)
  case (1 q)
  then show ?case by (simp add: lf_contents_def lf_inv_def ring_count_less)
next
  case (2 q x)
  then show ?case using lf_full [of q] by (simp add: lf_push_def lf_cap_def Let_def)
next
  case (3 q x)
  then show ?case by (rule lf_push_room)
next
  case (4 q)
  then show ?case using lf_contents_Nil by (fastforce simp: lf_pop_def)
next
  case (5 q x xs)
  then show ?case by (rule lf_pop_some)
next
  case (6 q)
  then show ?case using lf_contents_Nil by (auto simp: lf_empty_def)
qed

text \<open>The two rings with sequence numbers share their states.\<close>

lemma mp_contents_Nil: "mp_inv q \<Longrightarrow> mp_contents q = [] \<longleftrightarrow> mp_tail q = mp_head q"
  using ring_empty_iff [of "mp_cap q" "mp_head q" "mp_tail q"]
  by (auto simp: mp_contents_def mp_indices_def mp_inv_def simp flip: length_0_conv)

lemma mp_full: "mp_inv q \<Longrightarrow> length (mp_contents q) + 1 = mp_cap q \<longleftrightarrow> ring_next (mp_cap q) (mp_head q) = mp_tail q"
  by (simp add: mp_contents_def mp_indices_def mp_inv_def ring_full_iff)

definition mp_pushed :: "'a \<Rightarrow> 'a mp_queue \<Rightarrow> 'a mp_queue" where
  "mp_pushed x q =
     q\<lparr>mp_head := ring_next (mp_cap q) (mp_head q),
       mp_data := (mp_data q)[mp_head q := \<lparr>seq = mp_head q, item = x\<rparr>]\<rparr>"

definition mp_popped :: "'a mp_queue \<Rightarrow> 'a mp_queue" where
  "mp_popped q =
     q\<lparr>mp_data := (mp_data q)[mp_tail q := (mp_data q ! mp_tail q)\<lparr>seq := invalid_index q\<rparr>],
       mp_tail := ring_next (mp_cap q) (mp_tail q)\<rparr>"

lemma mp_pushed_contract:
  assumes "mp_inv q" and "length (mp_contents q) + 1 < mp_cap q"
  shows "mp_inv (mp_pushed x q)" and "mp_contents (mp_pushed x q) = mp_contents q @ [x]"
    and "mp_cap (mp_pushed x q) = mp_cap q" and "ring_next (mp_cap q) (mp_head q) \<noteq> mp_tail q"
    and "seq (mp_data q ! mp_head q) = invalid_index q"
proof -
  have ok: "ring_ok (mp_cap q) (mp_head q) (mp_tail q)" using assms(1) by (simp add: mp_inv_def)
  show nf: "ring_next (mp_cap q) (mp_head q) \<noteq> mp_tail q" using assms mp_full by fastforce
  show cap: "mp_cap (mp_pushed x q) = mp_cap q" by (simp add: mp_cap_def mp_pushed_def)
  have ind: "mp_indices (mp_pushed x q) = mp_indices q @ [mp_head q]"
    using ring_indices_push [OF ok nf] by (simp add: mp_indices_def cap) (simp add: mp_pushed_def)
  show "mp_contents (mp_pushed x q) = mp_contents q @ [x]"
    using ok ring_head_fresh [OF ok]
    by (auto simp: mp_contents_def ind) (auto simp: mp_pushed_def mp_indices_def mp_cap_def ring_ok_def nth_list_update)
  show "seq (mp_data q ! mp_head q) = invalid_index q"
    using assms(1) ok ring_head_fresh [OF ok] by (auto simp: mp_inv_def mp_indices_def ring_ok_def)
  have "ring_ok (mp_cap q) (mp_head (mp_pushed x q)) (mp_tail (mp_pushed x q))"
    using ok ring_next_less [OF ok] by (simp add: mp_pushed_def ring_ok_def)
  moreover have "seq (mp_data (mp_pushed x q) ! i) = (if i \<in> set (mp_indices q @ [mp_head q]) then i else invalid_index q)"
    if "i < mp_cap q" for i
    using assms(1) that ring_head_fresh [OF ok]
    by (cases "i = mp_head q") (auto simp: mp_inv_def mp_pushed_def mp_cap_def)
  moreover have "invalid_index (mp_pushed x q) = invalid_index q"
    by (simp add: invalid_index_def mp_pushed_def)
  ultimately show "mp_inv (mp_pushed x q)" by (simp add: mp_inv_def cap ind)
qed

lemma mp_popped_contract:
  assumes "mp_inv q" and "mp_contents q = x # xs"
  shows "mp_inv (mp_popped q)" and "mp_contents (mp_popped q) = xs" and "mp_cap (mp_popped q) = mp_cap q"
    and "mp_tail q \<noteq> mp_head q" and "item (mp_data q ! mp_tail q) = x" and "seq (mp_data q ! mp_tail q) = mp_tail q"
    and "mp_tail q < mp_cap q"
proof -
  have ok: "ring_ok (mp_cap q) (mp_head q) (mp_tail q)" using assms(1) by (simp add: mp_inv_def)
  show ne: "mp_tail q \<noteq> mp_head q" using assms mp_contents_Nil by fastforce
  show cap: "mp_cap (mp_popped q) = mp_cap q" by (simp add: mp_cap_def mp_popped_def)
  have ind: "mp_indices q = mp_tail q # mp_indices (mp_popped q)"
    using ring_indices_pop [OF ok ne] by (simp add: mp_indices_def cap) (simp add: mp_popped_def)
  have fresh: "mp_tail q \<notin> set (mp_indices (mp_popped q))"
    using ring_tail_fresh [OF ok ne] by (simp add: mp_indices_def cap) (simp add: mp_popped_def)
  show lt: "mp_tail q < mp_cap q" using ok by (simp add: ring_ok_def)
  then show "seq (mp_data q ! mp_tail q) = mp_tail q"
    using assms(1) by (auto simp: mp_inv_def ind)
  have "mp_contents q = item (mp_data q ! mp_tail q) # map (\<lambda>i. item (mp_data q ! i)) (mp_indices (mp_popped q))"
    by (simp add: mp_contents_def ind)
  then have eq: "item (mp_data q ! mp_tail q) = x"
    "xs = map (\<lambda>i. item (mp_data q ! i)) (mp_indices (mp_popped q))"
    using assms(2) by simp_all
  show "item (mp_data q ! mp_tail q) = x" by (rule eq)
  have "item (mp_data (mp_popped q) ! i) = item (mp_data q ! i)" if "i \<in> set (mp_indices (mp_popped q))" for i
  proof -
    have "i \<noteq> mp_tail q" using that fresh by blast
    then show ?thesis by (simp add: mp_popped_def)
  qed
  then show "mp_contents (mp_popped q) = xs"
    unfolding eq mp_contents_def by (intro map_cong) simp_all
  have "ring_ok (mp_cap q) (mp_head (mp_popped q)) (mp_tail (mp_popped q))"
    using ok by (auto simp: mp_popped_def ring_ok_def ring_next_def intro!: mod_less_divisor)
  moreover have "seq (mp_data (mp_popped q) ! i) = (if i \<in> set (mp_indices (mp_popped q)) then i else invalid_index q)"
    if "i < mp_cap q" for i
    using assms(1) that fresh lt by (auto simp: mp_inv_def ind) (auto simp: mp_popped_def mp_cap_def nth_list_update)
  moreover have "invalid_index (mp_popped q) = invalid_index q"
    by (simp add: invalid_index_def mp_popped_def)
  ultimately show "mp_inv (mp_popped q)" by (simp add: mp_inv_def cap)
qed

lemma mp_bound: "mp_inv q \<Longrightarrow> length (mp_contents q) < mp_cap q"
  by (simp add: mp_contents_def mp_indices_def mp_inv_def ring_count_less)

interpretation mpsc: bounded_queue mpsc_push mpsc_pop mp_empty mp_inv mp_contents mp_cap
proof (unfold_locales, goal_cases)
  case (1 q)
  then show ?case by (rule mp_bound)
next
  case (2 q x)
  then show ?case using mp_full [of q] by (simp add: mpsc_push_def mp_cap_def Let_def)
next
  case (3 q x)
  then have "mpsc_push x q = Some (True, mp_pushed x q)"
    using mp_pushed_contract(4) [OF 3] by (simp add: mpsc_push_def mp_pushed_def mp_cap_def Let_def)
  with mp_pushed_contract [OF 3] show ?case by blast
next
  case (4 q)
  then show ?case using mp_contents_Nil by (fastforce simp: mpsc_pop_def)
next
  case (5 q x xs)
  note c = mp_popped_contract [OF 5]
  have "mpsc_pop q = Some (Some x, mp_popped q)"
    using c(4-7) by (simp add: mpsc_pop_def mp_popped_def mp_cap_def Let_def invalid_index_def)
  with c show ?case by blast
next
  case (6 q)
  then show ?case using mp_contents_Nil by (auto simp: mp_empty_def)
qed

interpretation mpmc: bounded_queue mpmc_push mpmc_pop mp_empty mp_inv mp_contents mp_cap
proof (unfold_locales, goal_cases)
  case (1 q)
  then show ?case by (rule mp_bound)
next
  case (2 q x)
  then show ?case using mp_full [of q] by (simp add: mpmc_push_def mp_cap_def Let_def)
next
  case (3 q x)
  then have "mpmc_push x q = Some (True, mp_pushed x q)"
    using mp_pushed_contract(4,5) [OF 3] by (simp add: mpmc_push_def mp_pushed_def mp_cap_def Let_def)
  with mp_pushed_contract [OF 3] show ?case by blast
next
  case (4 q)
  then show ?case using mp_contents_Nil by (fastforce simp: mpmc_pop_def)
next
  case (5 q x xs)
  note c = mp_popped_contract [OF 5]
  have "mpmc_pop q = Some (Some x, mp_popped q)"
    using c(4-7) by (simp add: mpmc_pop_def mp_popped_def mp_cap_def Let_def)
  with c show ?case by blast
next
  case (6 q)
  then show ?case using mp_contents_Nil by (auto simp: mp_empty_def)
qed

lemma lf_inv_new: "0 < cap \<Longrightarrow> lf_inv (lf_new cap x) \<and> lf_contents (lf_new cap x) = [] \<and> lf_cap (lf_new cap x) = cap"
  by (simp add: lf_inv_def lf_new_def lf_contents_def lf_cap_def ring_ok_def ring_indices_def ring_count_def)

lemma mp_inv_new: "0 < cap \<Longrightarrow> mp_inv (mp_new cap x) \<and> mp_contents (mp_new cap x) = [] \<and> mp_cap (mp_new cap x) = cap"
  by (simp add: mp_inv_def mp_new_def mp_contents_def mp_indices_def mp_cap_def ring_ok_def ring_indices_def
      ring_count_def invalid_index_def)

end
