(* ===== verification/Blocking_Queues.thy ===== *)
theory Blocking_Queues
  imports Queues
begin

text \<open>
  The two blocking queues of \<^verbatim>\<open>BlockQueue.h\<close>, each operation as one step, and the contract
  they share as a locale. That the operations may be taken for one step each is the subject of
  \<open>Locked_Queue\<close>.
\<close>

section \<open>The two queues\<close>

text \<open>
  The queue with the condition variable: \<open>None\<close> is a caller that waits, and the item
  \<open>None\<close> is the value-initialised one.
\<close>

record 'a blocking_queue =
  bq_items :: "'a list"
  bq_stopped :: bool

definition bq_new :: "'a blocking_queue" where
  "bq_new = \<lparr>bq_items = [], bq_stopped = False\<rparr>"

definition bq_push :: "'a \<Rightarrow> 'a blocking_queue \<Rightarrow> 'a blocking_queue" where
  "bq_push x q = (if bq_stopped q then q else q\<lparr>bq_items := bq_items q @ [x]\<rparr>)"

definition bq_pop :: "'a blocking_queue \<Rightarrow> ('a option \<times> 'a blocking_queue) option" where
  "bq_pop q =
     (if bq_items q = [] \<and> \<not> bq_stopped q then None
      else if bq_stopped q \<and> bq_items q = [] then Some (None, q)
      else Some (Some (hd (bq_items q)), q\<lparr>bq_items := tl (bq_items q)\<rparr>))"

definition bq_shutdown :: "'a blocking_queue \<Rightarrow> 'a blocking_queue" where
  "bq_shutdown q = q\<lparr>bq_stopped := True\<rparr>"

definition bq_try_pop :: "'a blocking_queue \<Rightarrow> 'a option \<times> 'a blocking_queue" where
  "bq_try_pop q =
     (if bq_items q = [] then (None, q)
      else (Some (hd (bq_items q)), q\<lparr>bq_items := tl (bq_items q)\<rparr>))"

definition bq_empty :: "'a blocking_queue \<Rightarrow> bool" where
  "bq_empty q \<longleftrightarrow> bq_items q = []"

text \<open>The queue with the spin lock: a caller that finds nothing lets the lock go and tries again.\<close>

record 'a spin_queue =
  sq_items :: "'a list"
  sq_stopped :: bool

definition sq_new :: "'a spin_queue" where
  "sq_new = \<lparr>sq_items = [], sq_stopped = False\<rparr>"

definition sq_push :: "'a \<Rightarrow> 'a spin_queue \<Rightarrow> 'a spin_queue" where
  "sq_push x q = (if sq_stopped q then q else q\<lparr>sq_items := sq_items q @ [x]\<rparr>)"

definition sq_pop :: "'a spin_queue \<Rightarrow> ('a option \<times> 'a spin_queue) option" where
  "sq_pop q =
     (if sq_stopped q \<and> sq_items q = [] then Some (None, q)
      else if sq_items q \<noteq> [] then Some (Some (hd (sq_items q)), q\<lparr>sq_items := tl (sq_items q)\<rparr>)
      else None)"

definition sq_shutdown :: "'a spin_queue \<Rightarrow> 'a spin_queue" where
  "sq_shutdown q = q\<lparr>sq_stopped := True\<rparr>"

definition sq_try_pop :: "'a spin_queue \<Rightarrow> 'a option \<times> 'a spin_queue" where
  "sq_try_pop q =
     (if sq_items q = [] then (None, q)
      else (Some (hd (sq_items q)), q\<lparr>sq_items := tl (sq_items q)\<rparr>))"

definition sq_empty :: "'a spin_queue \<Rightarrow> bool" where
  "sq_empty q \<longleftrightarrow> sq_items q = []"

text \<open>The contract: a FIFO that drops what is pushed after it was shut down, and hands out what it holds
  before it reports the end.\<close>

locale closable_queue =
  fixes push :: "'a \<Rightarrow> 'q \<Rightarrow> 'q"
    and pop :: "'q \<Rightarrow> ('a option \<times> 'q) option"
    and try_pop :: "'q \<Rightarrow> 'a option \<times> 'q"
    and shutdown :: "'q \<Rightarrow> 'q"
    and is_empty :: "'q \<Rightarrow> bool"
    and contents :: "'q \<Rightarrow> 'a list"
    and closed :: "'q \<Rightarrow> bool"
  assumes push_law: "contents (push x q) = (if closed q then contents q else contents q @ [x])"
      "closed (push x q) = closed q"
    and shutdown_law: "contents (shutdown q) = contents q" "closed (shutdown q)"
    and pop_waits: "pop q = None \<longleftrightarrow> contents q = [] \<and> \<not> closed q"
    and pop_none: "pop q = Some (None, q') \<Longrightarrow> contents q = [] \<and> closed q \<and> q' = q"
    and pop_some: "pop q = Some (Some x, q') \<Longrightarrow> contents q = x # contents q' \<and> closed q' = closed q"
    and try_pop_law: "try_pop q = (r, q') \<Longrightarrow>
      contents q = (case r of None \<Rightarrow> contents q' | Some x \<Rightarrow> x # contents q') \<and> closed q' = closed q \<and> (r = None \<longleftrightarrow> contents q = [])"
    and is_empty_law: "is_empty q \<longleftrightarrow> contents q = []"

begin

text \<open>A closed queue never makes a caller wait, and popping until the end gives its items in order.\<close>

lemma closed_pop: "closed q \<Longrightarrow> \<exists>r q'. pop q = Some (r, q')"
  using pop_waits [of q] by (cases "pop q") auto

lemma closed_drain:
  "closed q \<Longrightarrow> length (contents q) < f \<Longrightarrow>
   \<exists>q'. drain pop f q = Some (contents q, q') \<and> contents q' = [] \<and> closed q'"
proof (induction f arbitrary: q)
  case 0
  then show ?case by simp
next
  case (Suc f)
  from closed_pop [OF Suc.prems(1)] obtain r q' where r: "pop q = Some (r, q')" by blast
  show ?case
  proof (cases r)
    case None
    with r pop_none [of q q'] Suc.prems(1) show ?thesis by auto
  next
    case (Some x)
    with r pop_some [of q x q'] have "contents q = x # contents q'" "closed q' = closed q" by simp_all
    with Suc.IH [of q'] Suc.prems r Some show ?thesis by auto
  qed
qed

end

interpretation bq: closable_queue bq_push bq_pop bq_try_pop bq_shutdown bq_empty bq_items bq_stopped
  by unfold_locales (auto simp: bq_push_def bq_pop_def bq_try_pop_def bq_shutdown_def bq_empty_def split: if_splits)

interpretation sq: closable_queue sq_push sq_pop sq_try_pop sq_shutdown sq_empty sq_items sq_stopped
  by unfold_locales (auto simp: sq_push_def sq_pop_def sq_try_pop_def sq_shutdown_def sq_empty_def split: if_splits)

end
