(* ===== verification/Spin_Lock.thy ===== *)
theory Spin_Lock
  imports Prelude
begin

text \<open>
  \<^verbatim>\<open>SpinLock\<close> of \<^verbatim>\<open>src/utils/thread_pool/lock\<close> for any number of threads, one
  atomic access per step: the relaxed look at the flag, the exchange, the pauses in between with
  their growing length, and the store of \<^verbatim>\<open>unlock\<close>.
\<close>

text \<open>Where a thread is: outside, in \<^verbatim>\<open>lock\<close> about to look, about to exchange, pausing, each with
  its backoff counter, or inside.\<close>

datatype locker = Outside | Looking nat | Trying nat | Pausing nat nat | Inside

record spin_lock =
  locked :: bool
  lockers :: "nat \<Rightarrow> locker"

definition pauses :: "nat \<Rightarrow> nat" where
  "pauses backoff = 2 ^ min backoff 8"

definition next_backoff :: "nat \<Rightarrow> nat" where
  "next_backoff backoff = (if backoff < 16 then backoff + 1 else backoff)"

definition set_locker :: "nat \<Rightarrow> locker \<Rightarrow> spin_lock \<Rightarrow> spin_lock" where
  "set_locker t st s = s\<lparr>lockers := (lockers s)(t := st)\<rparr>"

inductive spin_step :: "spin_lock \<Rightarrow> spin_lock \<Rightarrow> bool" where
  enter: "lockers s t = Outside \<Longrightarrow> spin_step s (set_locker t (Looking 0) s)"
| look_free: "lockers s t = Looking b \<Longrightarrow> \<not> locked s \<Longrightarrow> spin_step s (set_locker t (Trying b) s)"
| look_taken: "lockers s t = Looking b \<Longrightarrow> locked s \<Longrightarrow> spin_step s (set_locker t (Pausing b (pauses b)) s)"
| exchange_won: "lockers s t = Trying b \<Longrightarrow> \<not> locked s \<Longrightarrow>
    spin_step s ((set_locker t Inside s)\<lparr>locked := True\<rparr>)"
| exchange_lost: "lockers s t = Trying b \<Longrightarrow> locked s \<Longrightarrow>
    spin_step s (set_locker t (Pausing b (pauses b)) s)"
| pause: "lockers s t = Pausing b (Suc i) \<Longrightarrow> spin_step s (set_locker t (Pausing b i) s)"
| again: "lockers s t = Pausing b 0 \<Longrightarrow> spin_step s (set_locker t (Looking (next_backoff b)) s)"
| unlock: "lockers s t = Inside \<Longrightarrow> spin_step s ((set_locker t Outside s)\<lparr>locked := False\<rparr>)"

definition spin_init :: spin_lock where
  "spin_init = \<lparr>locked = False, lockers = (\<lambda>_. Outside)\<rparr>"

text \<open>The flag is up exactly while one thread is inside; the counters stay in their ranges.\<close>

definition holders :: "spin_lock \<Rightarrow> nat set" where
  "holders s = {t. lockers s t = Inside}"

fun locker_ok :: "locker \<Rightarrow> bool" where
  "locker_ok (Looking b) \<longleftrightarrow> b \<le> 16"
| "locker_ok (Trying b) \<longleftrightarrow> b \<le> 16"
| "locker_ok (Pausing b i) \<longleftrightarrow> b \<le> 16 \<and> i \<le> 256"
| "locker_ok _ \<longleftrightarrow> True"

definition spin_inv :: "spin_lock \<Rightarrow> bool" where
  "spin_inv s \<longleftrightarrow> (if locked s then \<exists>t. holders s = {t} else holders s = {}) \<and> (\<forall>t. locker_ok (lockers s t))"

lemma holders_set [simp]:
  "holders (set_locker t st s) = (if st = Inside then insert t (holders s) else holders s - {t})"
  "holders (s\<lparr>locked := b\<rparr>) = holders s" "locked (set_locker t st s) = locked s"
  "lockers (set_locker t st s) u = (if u = t then st else lockers s u)"
  by (auto simp: holders_def set_locker_def)

lemma holders_not [simp]: "lockers s t \<noteq> Inside \<Longrightarrow> holders s - {t} = holders s"
  by (auto simp: holders_def)

lemma pauses_le: "pauses b \<le> 256"
proof -
  have "(2 :: nat) ^ min b 8 \<le> 2 ^ 8" by (rule power_increasing) simp_all
  then show ?thesis by (simp add: pauses_def)
qed

lemma spin_inv_step: "spin_step s s' \<Longrightarrow> spin_inv s \<Longrightarrow> spin_inv s'"
proof (induction rule: spin_step.induct)
  case (unlock s t)
  then have "t \<in> holders s" by (simp add: holders_def)
  with unlock(2) have "holders s = {t}" by (auto simp: spin_inv_def split: if_splits)
  with unlock(2) show ?case by (simp add: spin_inv_def)
next
  case (pause s t b i)
  then have "locker_ok (Pausing b (Suc i))" by (metis spin_inv_def)
  with pause show ?case by (simp add: spin_inv_def)
next
  case (again s t b)
  then have "locker_ok (Pausing b 0)" by (metis spin_inv_def)
  with again show ?case by (simp add: spin_inv_def next_backoff_def)
next
  case (look_free s t b)
  then have "locker_ok (Looking b)" by (metis spin_inv_def)
  with look_free show ?case by (simp add: spin_inv_def)
next
  case (look_taken s t b)
  then have "locker_ok (Looking b)" by (metis spin_inv_def)
  with look_taken show ?case by (simp add: spin_inv_def pauses_le)
next
  case (exchange_lost s t b)
  then have "locker_ok (Trying b)" by (metis spin_inv_def)
  with exchange_lost show ?case by (simp add: spin_inv_def pauses_le)
qed (simp_all add: spin_inv_def)

lemma spin_inv_reachable: "spin_step\<^sup>*\<^sup>* spin_init s \<Longrightarrow> spin_inv s"
proof (induction rule: rtranclp_induct)
  case base
  then show ?case by (simp add: spin_inv_def spin_init_def holders_def)
next
  case (step s s')
  then show ?case using spin_inv_step by blast
qed

end
