(* ===== verification/Simulation.thy ===== *)
theory Simulation
  imports Prelude
begin

text \<open>
  Two interfaces for step relations. The first is between a detailed relation and a specification: every step from a state that
  satisfies the invariant is a step of the specification or leaves the abstract state as it is. Then runs
  refine runs, and what the specification keeps invariant holds of the abstraction of every reachable state.
\<close>

locale simulation =
  fixes cstep :: "'c \<Rightarrow> 'c \<Rightarrow> bool" and astep :: "'a \<Rightarrow> 'a \<Rightarrow> bool"
    and abs_state :: "'c \<Rightarrow> 'a" and inv :: "'c \<Rightarrow> bool"
  assumes keeps: "cstep s s' \<Longrightarrow> inv s \<Longrightarrow> inv s'"
    and simulates: "cstep s s' \<Longrightarrow> inv s \<Longrightarrow> abs_state s' = abs_state s \<or> astep (abs_state s) (abs_state s')"
begin

lemma reachable: "cstep\<^sup>*\<^sup>* s s' \<Longrightarrow> inv s \<Longrightarrow> inv s'"
  by (induction rule: rtranclp_induct) (simp_all add: keeps)

lemma refines: "cstep\<^sup>*\<^sup>* s s' \<Longrightarrow> inv s \<Longrightarrow> astep\<^sup>*\<^sup>* (abs_state s) (abs_state s')"
proof (induction rule: rtranclp_induct)
  case (step s' s'')
  from simulates [OF step.hyps(2) reachable [OF step.hyps(1) step.prems]] step show ?case
    by (auto intro: rtranclp.rtrancl_into_rtrancl)
qed simp

end

text \<open>
  The interface for possible progress: from every state that satisfies the invariant but is not yet a goal,
  some steps lead to a state with a smaller measure. Then a goal can always be reached.
\<close>

locale progress =
  fixes step :: "'s \<Rightarrow> 's \<Rightarrow> bool" and inv :: "'s \<Rightarrow> bool" and goal :: "'s \<Rightarrow> bool" and rank :: "'s \<Rightarrow> nat"
  assumes advances: "inv s \<Longrightarrow> \<not> goal s \<Longrightarrow> \<exists>s'. step\<^sup>*\<^sup>* s s' \<and> inv s' \<and> rank s' < rank s"
begin

lemma reaches_goal: "inv s \<Longrightarrow> \<exists>s'. step\<^sup>*\<^sup>* s s' \<and> inv s' \<and> goal s'"
proof (induction "rank s" arbitrary: s rule: less_induct)
  case less
  show ?case
  proof (cases "goal s")
    case True
    with less.prems show ?thesis by blast
  next
    case False
    with advances [OF less.prems] obtain s1 where s1: "step\<^sup>*\<^sup>* s s1" "inv s1" "rank s1 < rank s" by blast
    with less.hyps obtain s2 where "step\<^sup>*\<^sup>* s1 s2" "inv s2" "goal s2" by blast
    with s1(1) show ?thesis by (meson rtranclp_trans)
  qed
qed

end

text \<open>A run that ends where \<open>P\<close> holds has a first step to such a state.\<close>

lemma first_hit:
  assumes "r\<^sup>*\<^sup>* x z" and "P z" and "\<not> P x"
  shows "\<exists>y y'. (\<lambda>a b. r a b \<and> \<not> P b)\<^sup>*\<^sup>* x y \<and> r y y' \<and> P y'"
  using assms
proof (induction rule: converse_rtranclp_induct)
  case (step x y)
  show ?case
  proof (cases "P y")
    case True
    with step.hyps(1) show ?thesis by blast
  next
    case False
    with step.IH step.prems(1) obtain z z' where z: "(\<lambda>a b. r a b \<and> \<not> P b)\<^sup>*\<^sup>* y z" "r z z'" "P z'" by blast
    have "(\<lambda>a b. r a b \<and> \<not> P b)\<^sup>*\<^sup>* x z"
      using step.hyps(1) False z(1) by (simp add: converse_rtranclp_into_rtranclp)
    with z(2,3) show ?thesis by blast
  qed
qed simp

end
