(* ===== verification/Locked_Queue.thy ===== *)
theory Locked_Queue
  imports Blocking_Queues Spin_Lock Simulation
begin

text \<open>
  The blocking queues of \<^verbatim>\<open>BlockQueue.h\<close> under interleaving: the members of the classes, one
  step per statement, called by any number of threads, under a lock that is a parameter as in
  \<^verbatim>\<open>std::lock_guard\<close>. The interface of the lock and the interface of the critical sections are
  locales. In them the runs refine runs of whole operations, one at a time.
\<close>

section \<open>The lock\<close>

text \<open>
  What the queues need of a lock: \<open>lstep t\<close> is a step of thread \<open>t\<close> in
  \<^verbatim>\<open>lock\<close>, which changes nothing for the others, at most one thread holds it, and a free lock
  can be got.
\<close>

locale mutual_exclusion =
  fixes lstep :: "nat \<Rightarrow> 'l \<Rightarrow> 'l \<Rightarrow> bool" and holds :: "'l \<Rightarrow> nat \<Rightarrow> bool"
    and unlock :: "nat \<Rightarrow> 'l \<Rightarrow> 'l" and linv :: "'l \<Rightarrow> bool"
  assumes lock_inv: "lstep t l l' \<Longrightarrow> linv l \<Longrightarrow> linv l'"
    and lock_others: "lstep t l l' \<Longrightarrow> u \<noteq> t \<Longrightarrow> holds l' u = holds l u"
    and exclusive: "linv l \<Longrightarrow> holds l t \<Longrightarrow> holds l u \<Longrightarrow> t = u"
    and unlock_inv: "linv l \<Longrightarrow> holds l t \<Longrightarrow> linv (unlock t l)"
    and unlock_holds: "holds (unlock t l) u = (holds l u \<and> u \<noteq> t)"
    and available: "linv l \<Longrightarrow> \<forall>u. \<not> holds l u \<Longrightarrow> \<exists>l'. (lstep t)\<^sup>*\<^sup>* l l' \<and> holds l' t"

text \<open>The spin lock: the steps of thread \<open>t\<close> outside of its critical section.\<close>

definition spin_lock_step :: "nat \<Rightarrow> spin_lock \<Rightarrow> spin_lock \<Rightarrow> bool" where
  "spin_lock_step t l l' \<longleftrightarrow> spin_step l l' \<and> lockers l t \<noteq> Inside \<and> (\<forall>u. u \<noteq> t \<longrightarrow> lockers l' u = lockers l u)"

definition spin_holds :: "spin_lock \<Rightarrow> nat \<Rightarrow> bool" where
  "spin_holds l t \<longleftrightarrow> lockers l t = Inside"

definition spin_unlock :: "nat \<Rightarrow> spin_lock \<Rightarrow> spin_lock" where
  "spin_unlock t l = (set_locker t Outside l)\<lparr>locked := False\<rparr>"

lemma spin_inv_exclusive: "spin_inv l \<Longrightarrow> lockers l t = Inside \<Longrightarrow> lockers l u = Inside \<Longrightarrow> t = u"
proof -
  assume inv: "spin_inv l" and "lockers l t = Inside" "lockers l u = Inside"
  then have "{t, u} \<subseteq> holders l" by (simp add: holders_def)
  moreover have "if locked l then \<exists>t. holders l = {t} else holders l = {}" using inv by (simp add: spin_inv_def)
  ultimately show "t = u" by (cases "locked l") auto
qed

text \<open>With the lock free, a thread gets from anywhere in \<^verbatim>\<open>lock\<close> to its exchange and in.\<close>

lemma spin_pauses:
  "lockers l t = Pausing b i \<Longrightarrow> (spin_lock_step t)\<^sup>*\<^sup>* l (set_locker t (Pausing b 0) l)"
proof (induction i arbitrary: l)
  case 0
  then have "set_locker t (Pausing b 0) l = l" by (simp add: set_locker_def fun_upd_idem)
  then show ?case by simp
next
  case (Suc i)
  let ?l = "set_locker t (Pausing b i) l"
  have "spin_lock_step t l ?l" using spin_step.pause [OF Suc.prems] Suc.prems by (simp add: spin_lock_step_def)
  moreover have "(spin_lock_step t)\<^sup>*\<^sup>* ?l (set_locker t (Pausing b 0) ?l)" by (rule Suc.IH) simp
  moreover have "set_locker t (Pausing b 0) ?l = set_locker t (Pausing b 0) l" by (simp add: set_locker_def)
  ultimately show ?case by (simp add: converse_rtranclp_into_rtranclp)
qed

lemma spin_available:
  assumes inv: "spin_inv l" and free: "\<forall>u. \<not> spin_holds l u"
  shows "\<exists>l'. (spin_lock_step t)\<^sup>*\<^sup>* l l' \<and> spin_holds l' t"
proof -
  have open_lock: "\<not> locked l" using inv free by (auto simp: spin_inv_def spin_holds_def holders_def split: if_splits)
  let ?goal = "\<lambda>l. \<exists>l'. (spin_lock_step t)\<^sup>*\<^sup>* l l' \<and> spin_holds l' t"
  have more: "?goal l" if "(spin_lock_step t)\<^sup>*\<^sup>* l m" "?goal m" for l m
    using that by (meson rtranclp_trans)
  have trying: "?goal l" if "lockers l t = Trying b" "\<not> locked l" for l b
    using exchange_won [OF that] that
    by (intro exI [of _ "(set_locker t Inside l)\<lparr>locked := True\<rparr>"] conjI r_into_rtranclp)
      (auto simp: spin_lock_step_def spin_holds_def set_locker_def)
  have looking: "?goal l" if "lockers l t = Looking b" "\<not> locked l" for l b
  proof -
    have "spin_lock_step t l (set_locker t (Trying b) l)"
      using look_free [OF that] that by (simp add: spin_lock_step_def)
    with more [OF r_into_rtranclp] trying [of "set_locker t (Trying b) l" b] that(2) show ?thesis by simp
  qed
  show ?thesis
  proof (cases "lockers l t")
    case Outside
    have "spin_lock_step t l (set_locker t (Looking 0) l)"
      using enter [OF Outside] Outside by (simp add: spin_lock_step_def)
    with more [OF r_into_rtranclp] looking [of "set_locker t (Looking 0) l" 0] open_lock show ?thesis by simp
  next
    case (Pausing b i)
    let ?k = "set_locker t (Pausing b 0) l"
    have "spin_lock_step t ?k (set_locker t (Looking (next_backoff b)) ?k)"
      using again [of ?k t b] by (simp add: spin_lock_step_def)
    with spin_pauses [OF Pausing] have "(spin_lock_step t)\<^sup>*\<^sup>* l (set_locker t (Looking (next_backoff b)) ?k)"
      by (rule rtranclp.rtrancl_into_rtrancl)
    from more [OF this] looking [of "set_locker t (Looking (next_backoff b)) ?k" "next_backoff b"] open_lock
    show ?thesis by simp
  qed (use trying looking open_lock free in \<open>auto simp: spin_holds_def\<close>)
qed

interpretation spin: mutual_exclusion spin_lock_step spin_holds spin_unlock spin_inv
proof
  fix l l' t assume "spin_lock_step t l l'" "spin_inv l"
  then show "spin_inv l'" using spin_inv_step by (auto simp: spin_lock_step_def)
next
  fix l t assume "spin_inv l" "spin_holds l t"
  then show "spin_inv (spin_unlock t l)"
    using spin_inv_step [OF spin_step.unlock [of l t]] by (simp add: spin_holds_def spin_unlock_def)
next
  fix l t assume "spin_inv l" "\<forall>u. \<not> spin_holds l u"
  then show "\<exists>l'. (spin_lock_step t)\<^sup>*\<^sup>* l l' \<and> spin_holds l' t"
    by (rule spin_available)
qed (auto simp: spin_inv_exclusive spin_holds_def spin_unlock_def spin_lock_step_def)

text \<open>\<^verbatim>\<open>std::mutex\<close>: the thread that owns it, if any.\<close>

type_synonym mutex = "nat option"

definition mutex_step :: "nat \<Rightarrow> mutex \<Rightarrow> mutex \<Rightarrow> bool" where
  "mutex_step t l l' \<longleftrightarrow> l = None \<and> l' = Some t"

definition mutex_holds :: "mutex \<Rightarrow> nat \<Rightarrow> bool" where
  "mutex_holds l t \<longleftrightarrow> l = Some t"

definition mutex_unlock :: "nat \<Rightarrow> mutex \<Rightarrow> mutex" where
  "mutex_unlock t l = (if l = Some t then None else l)"

interpretation mutex: mutual_exclusion mutex_step mutex_holds mutex_unlock "\<lambda>_. True"
  by unfold_locales (auto simp: mutex_step_def mutex_holds_def mutex_unlock_def)

section \<open>The members\<close>

datatype 'a queue_call = CallPush 'a | CallPop | CallTryPop | CallShutdown | CallEmpty
datatype 'a queue_answer = NoAnswer | TheItem "'a option" | Truth bool
datatype notice = Nobody | OneWaiter | AllWaiters

text \<open>
  Where a thread is: outside, in \<^verbatim>\<open>lock\<close>, at the first or the second test under the lock, before
  \<^verbatim>\<open>front\<close>, before \<^verbatim>\<open>pop\<close> of the container with the item in hand, before
  \<^verbatim>\<open>emplace\<close>, about to unlock and loop, about to unlock and wait, about to unlock and return,
  waiting for the condition variable, or about to notify.
\<close>

datatype 'a frame =
    Free | Locking "'a queue_call" | Testing "'a queue_call" | Retesting "'a queue_call"
  | Fronting "'a queue_call" | Popping "'a queue_call" 'a | Adding 'a
  | Retrying | Waiting | Leaving "'a queue_call" "'a queue_answer" notice
  | Sleeping | NotifyingOne | NotifyingAll

text \<open>The statements of \<^verbatim>\<open>SpinBlockingQueue\<close> under the lock; \<^verbatim>\<open>front\<close> of an empty
  container is undefined.\<close>

fun spin_section :: "'a frame \<Rightarrow> 'a spin_queue \<Rightarrow> ('a frame \<times> 'a spin_queue) option" where
  "spin_section (Testing (CallPush x)) q =
     Some (if sq_stopped q then Leaving (CallPush x) NoAnswer Nobody else Adding x, q)"
| "spin_section (Adding x) q =
     Some (Leaving (CallPush x) NoAnswer Nobody, q\<lparr>sq_items := sq_items q @ [x]\<rparr>)"
| "spin_section (Testing CallPop) q =
     Some (if sq_stopped q \<and> sq_items q = [] then Leaving CallPop (TheItem None) Nobody else Retesting CallPop, q)"
| "spin_section (Retesting CallPop) q =
     Some (if sq_items q \<noteq> [] then Fronting CallPop else Retrying, q)"
| "spin_section (Fronting c) q = (case sq_items q of [] \<Rightarrow> None | x # _ \<Rightarrow> Some (Popping c x, q))"
| "spin_section (Popping c x) q =
     (case sq_items q of [] \<Rightarrow> None
      | _ # ys \<Rightarrow> Some (Leaving c (TheItem (Some x)) Nobody, q\<lparr>sq_items := ys\<rparr>))"
| "spin_section (Testing CallShutdown) q =
     Some (Leaving CallShutdown NoAnswer Nobody, q\<lparr>sq_stopped := True\<rparr>)"
| "spin_section (Testing CallTryPop) q =
     Some (if sq_items q = [] then Leaving CallTryPop (TheItem None) Nobody else Fronting CallTryPop, q)"
| "spin_section (Testing CallEmpty) q = Some (Leaving CallEmpty (Truth (sq_items q = [])) Nobody, q)"
| "spin_section _ q = None"

text \<open>The statements of \<^verbatim>\<open>BlockingQueue\<close>: \<^verbatim>\<open>pop\<close> waits while its predicate is false, and
  \<^verbatim>\<open>push\<close> and \<^verbatim>\<open>shutdown\<close> notify after they have unlocked.\<close>

fun cond_section :: "'a frame \<Rightarrow> 'a blocking_queue \<Rightarrow> ('a frame \<times> 'a blocking_queue) option" where
  "cond_section (Testing (CallPush x)) q =
     Some (if bq_stopped q then Leaving (CallPush x) NoAnswer Nobody else Adding x, q)"
| "cond_section (Adding x) q =
     Some (Leaving (CallPush x) NoAnswer OneWaiter, q\<lparr>bq_items := bq_items q @ [x]\<rparr>)"
| "cond_section (Testing CallPop) q =
     Some (if bq_items q \<noteq> [] \<or> bq_stopped q then Retesting CallPop else Waiting, q)"
| "cond_section (Retesting CallPop) q =
     Some (if bq_stopped q \<and> bq_items q = [] then Leaving CallPop (TheItem None) Nobody else Fronting CallPop, q)"
| "cond_section (Fronting c) q = (case bq_items q of [] \<Rightarrow> None | x # _ \<Rightarrow> Some (Popping c x, q))"
| "cond_section (Popping c x) q =
     (case bq_items q of [] \<Rightarrow> None
      | _ # ys \<Rightarrow> Some (Leaving c (TheItem (Some x)) Nobody, q\<lparr>bq_items := ys\<rparr>))"
| "cond_section (Testing CallShutdown) q =
     Some (Leaving CallShutdown NoAnswer AllWaiters, q\<lparr>bq_stopped := True\<rparr>)"
| "cond_section (Testing CallTryPop) q =
     Some (if bq_items q = [] then Leaving CallTryPop (TheItem None) Nobody else Fronting CallTryPop, q)"
| "cond_section (Testing CallEmpty) q = Some (Leaving CallEmpty (Truth (bq_items q = [])) Nobody, q)"
| "cond_section _ q = None"

section \<open>Threads\<close>

record ('l, 'q, 'a) locked_queue =
  queue_lock :: 'l
  shared :: 'q
  frames :: "'a frame list"
  calls :: "(nat \<times> 'a queue_call \<times> 'a queue_answer) list"

definition set_frame :: "nat \<Rightarrow> 'a frame \<Rightarrow> ('l, 'q, 'a) locked_queue \<Rightarrow> ('l, 'q, 'a) locked_queue" where
  "set_frame t f s = s\<lparr>frames := (frames s)[t := f]\<rparr>"

text \<open>A call is recorded when its thread has done what it came for and only has to unlock.\<close>

fun entry :: "nat \<Rightarrow> 'a frame \<Rightarrow> (nat \<times> 'a queue_call \<times> 'a queue_answer) list" where
  "entry t (Leaving c r n) = [(t, c, r)]"
| "entry t _ = []"

fun returned :: "notice \<Rightarrow> 'a frame" where
  "returned Nobody = Free"
| "returned OneWaiter = NotifyingOne"
| "returned AllWaiters = NotifyingAll"

fun wake :: "'a frame \<Rightarrow> 'a frame" where
  "wake Sleeping = Locking CallPop"
| "wake f = f"

text \<open>
  The condition variable follows its documentation: waiting unlocks and sleeps in one step, a thread that
  is woken locks again and tests again. It may also be woken for no reason, which is not a
  step of the program: whether that may happen is the argument \<open>sp\<close>.
\<close>

inductive queue_step ::
  "(nat \<Rightarrow> 'l \<Rightarrow> 'l \<Rightarrow> bool) \<Rightarrow> ('l \<Rightarrow> nat \<Rightarrow> bool) \<Rightarrow> (nat \<Rightarrow> 'l \<Rightarrow> 'l) \<Rightarrow>
   ('a frame \<Rightarrow> 'q \<Rightarrow> ('a frame \<times> 'q) option) \<Rightarrow> bool \<Rightarrow> ('l, 'q, 'a) locked_queue \<Rightarrow> ('l, 'q, 'a) locked_queue \<Rightarrow> bool"
  for lstep holds unlock body sp where
  start: "t < length (frames s) \<Longrightarrow> frames s ! t = Free \<Longrightarrow>
    queue_step lstep holds unlock body sp s (set_frame t (Locking c) s)"
| lock: "t < length (frames s) \<Longrightarrow> frames s ! t = Locking c \<Longrightarrow> lstep t (queue_lock s) l \<Longrightarrow>
    queue_step lstep holds unlock body sp s
      ((set_frame t (if holds l t then Testing c else Locking c) s)\<lparr>queue_lock := l\<rparr>)"
| statement: "t < length (frames s) \<Longrightarrow> body (frames s ! t) (shared s) = Some (f, q) \<Longrightarrow>
    queue_step lstep holds unlock body sp s ((set_frame t f s)\<lparr>shared := q, calls := calls s @ entry t f\<rparr>)"
| leave: "t < length (frames s) \<Longrightarrow> frames s ! t = Leaving c r n \<Longrightarrow>
    queue_step lstep holds unlock body sp s ((set_frame t (returned n) s)\<lparr>queue_lock := unlock t (queue_lock s)\<rparr>)"
| retry: "t < length (frames s) \<Longrightarrow> frames s ! t = Retrying \<Longrightarrow>
    queue_step lstep holds unlock body sp s ((set_frame t (Locking CallPop) s)\<lparr>queue_lock := unlock t (queue_lock s)\<rparr>)"
| sleep: "t < length (frames s) \<Longrightarrow> frames s ! t = Waiting \<Longrightarrow>
    queue_step lstep holds unlock body sp s ((set_frame t Sleeping s)\<lparr>queue_lock := unlock t (queue_lock s)\<rparr>)"
| notify_nobody: "t < length (frames s) \<Longrightarrow> frames s ! t = NotifyingOne \<Longrightarrow> Sleeping \<notin> set (frames s) \<Longrightarrow>
    queue_step lstep holds unlock body sp s (set_frame t Free s)"
| notify_one: "t < length (frames s) \<Longrightarrow> frames s ! t = NotifyingOne \<Longrightarrow>
    u < length (frames s) \<Longrightarrow> frames s ! u = Sleeping \<Longrightarrow>
    queue_step lstep holds unlock body sp s (set_frame u (Locking CallPop) (set_frame t Free s))"
| notify_all: "t < length (frames s) \<Longrightarrow> frames s ! t = NotifyingAll \<Longrightarrow>
    queue_step lstep holds unlock body sp s (s\<lparr>frames := (map wake (frames s))[t := Free]\<rparr>)"
| spurious: "sp \<Longrightarrow> u < length (frames s) \<Longrightarrow> frames s ! u = Sleeping \<Longrightarrow>
    queue_step lstep holds unlock body sp s (set_frame u (Locking CallPop) s)"

definition queue_init :: "'l \<Rightarrow> 'q \<Rightarrow> nat \<Rightarrow> ('l, 'q, 'a) locked_queue" where
  "queue_init l q n = \<lparr>queue_lock = l, shared = q, frames = replicate n Free, calls = []\<rparr>"

abbreviation spin_queue_step ::
  "(spin_lock, 'a spin_queue, 'a) locked_queue \<Rightarrow> (spin_lock, 'a spin_queue, 'a) locked_queue \<Rightarrow> bool" where
  "spin_queue_step \<equiv> queue_step spin_lock_step spin_holds spin_unlock spin_section True"

abbreviation cond_queue_step ::
  "(mutex, 'a blocking_queue, 'a) locked_queue \<Rightarrow> (mutex, 'a blocking_queue, 'a) locked_queue \<Rightarrow> bool" where
  "cond_queue_step \<equiv> queue_step mutex_step mutex_holds mutex_unlock cond_section True"

text \<open>The steps of the program itself, in which only notifications wake.\<close>

abbreviation cond_own_step ::
  "(mutex, 'a blocking_queue, 'a) locked_queue \<Rightarrow> (mutex, 'a blocking_queue, 'a) locked_queue \<Rightarrow> bool" where
  "cond_own_step \<equiv> queue_step mutex_step mutex_holds mutex_unlock cond_section False"

abbreviation spin_own_step ::
  "(spin_lock, 'a spin_queue, 'a) locked_queue \<Rightarrow> (spin_lock, 'a spin_queue, 'a) locked_queue \<Rightarrow> bool" where
  "spin_own_step \<equiv> queue_step spin_lock_step spin_holds spin_unlock spin_section False"

lemma own_step: "queue_step lstep holds unlock body False s s' \<Longrightarrow> queue_step lstep holds unlock body True s s'"
  by (induction rule: queue_step.induct) (blast intro: queue_step.intros)+

text \<open>The specification: whole operations, one at a time.\<close>

fun whole_call ::
  "('a \<Rightarrow> 'q \<Rightarrow> 'q) \<Rightarrow> ('q \<Rightarrow> ('a option \<times> 'q) option) \<Rightarrow> ('q \<Rightarrow> 'a option \<times> 'q) \<Rightarrow> ('q \<Rightarrow> 'q) \<Rightarrow> ('q \<Rightarrow> bool) \<Rightarrow>
   'a queue_call \<Rightarrow> 'q \<Rightarrow> ('a queue_answer \<times> 'q) option" where
  "whole_call push pop try_pop shutdown is_empty (CallPush x) q = Some (NoAnswer, push x q)"
| "whole_call push pop try_pop shutdown is_empty CallPop q = map_option (\<lambda>(r, q). (TheItem r, q)) (pop q)"
| "whole_call push pop try_pop shutdown is_empty CallTryPop q = Some (case try_pop q of (r, q) \<Rightarrow> (TheItem r, q))"
| "whole_call push pop try_pop shutdown is_empty CallShutdown q = Some (NoAnswer, shutdown q)"
| "whole_call push pop try_pop shutdown is_empty CallEmpty q = Some (Truth (is_empty q), q)"

inductive atomic_step ::
  "('a queue_call \<Rightarrow> 'q \<Rightarrow> ('a queue_answer \<times> 'q) option) \<Rightarrow>
   'q \<times> (nat \<times> 'a queue_call \<times> 'a queue_answer) list \<Rightarrow> 'q \<times> (nat \<times> 'a queue_call \<times> 'a queue_answer) list \<Rightarrow> bool"
  for operation where
  "operation c q = Some (r, q') \<Longrightarrow> atomic_step operation (q, es) (q', es @ [(t, c, r)])"

definition spin_call :: "'a queue_call \<Rightarrow> 'a spin_queue \<Rightarrow> ('a queue_answer \<times> 'a spin_queue) option" where
  "spin_call = whole_call sq_push sq_pop sq_try_pop sq_shutdown sq_empty"

definition cond_call :: "'a queue_call \<Rightarrow> 'a blocking_queue \<Rightarrow> ('a queue_answer \<times> 'a blocking_queue) option" where
  "cond_call = whole_call bq_push bq_pop bq_try_pop bq_shutdown bq_empty"

section \<open>The critical sections\<close>

fun in_section :: "'a frame \<Rightarrow> bool" where
  "in_section Free = False"
| "in_section (Locking c) = False"
| "in_section Sleeping = False"
| "in_section NotifyingOne = False"
| "in_section NotifyingAll = False"
| "in_section _ = True"

fun at_unlock :: "'a frame \<Rightarrow> bool" where
  "at_unlock Retrying = True"
| "at_unlock Waiting = True"
| "at_unlock (Leaving c r n) = True"
| "at_unlock _ = False"

lemma outside_simps [simp]: "\<not> in_section (returned n)" "in_section (wake f) = in_section f"
  by (cases n; simp) (cases f; simp)

text \<open>What a thread knows of the queue while it is inside.\<close>

fun frame_ok :: "('q \<Rightarrow> 'a list) \<Rightarrow> ('q \<Rightarrow> bool) \<Rightarrow> ('q \<Rightarrow> bool) \<Rightarrow> 'a frame \<Rightarrow> 'q \<Rightarrow> bool" where
  "frame_ok contents closed tested (Retesting c) q = (tested q \<and> c = CallPop)"
| "frame_ok contents closed tested (Fronting c) q = (contents q \<noteq> [] \<and> c \<in> {CallPop, CallTryPop})"
| "frame_ok contents closed tested (Popping c x) q = ((\<exists>ys. contents q = x # ys) \<and> c \<in> {CallPop, CallTryPop})"
| "frame_ok contents closed tested (Adding x) q = (\<not> closed q)"
| "frame_ok contents closed tested Retrying q = (contents q = [] \<and> \<not> closed q)"
| "frame_ok contents closed tested Waiting q = (contents q = [] \<and> \<not> closed q)"
| "frame_ok contents closed tested _ q = True"

lemma frame_ok_outside: "\<not> in_section f \<Longrightarrow> frame_ok contents closed tested f q"
  by (cases f) simp_all

locale locked_sections = mutual_exclusion lstep holds unlock linv +
    closable_queue push pop try_pop shutdown is_empty contents closed
  for lstep :: "nat \<Rightarrow> 'l \<Rightarrow> 'l \<Rightarrow> bool" and holds :: "'l \<Rightarrow> nat \<Rightarrow> bool" and unlock linv
    and push :: "'a \<Rightarrow> 'q \<Rightarrow> 'q" and pop try_pop shutdown is_empty contents closed +
  fixes body :: "'a frame \<Rightarrow> 'q \<Rightarrow> ('a frame \<times> 'q) option" and tested :: "'q \<Rightarrow> bool"
  assumes body_inside: "body f q = Some (f', q') \<Longrightarrow> in_section f \<and> in_section f' \<and> \<not> at_unlock f"
    and body_runs: "frame_ok contents closed tested f q \<Longrightarrow> in_section f \<Longrightarrow> \<not> at_unlock f \<Longrightarrow> body f q \<noteq> None"
    and body_ok: "frame_ok contents closed tested f q \<Longrightarrow> body f q = Some (f', q') \<Longrightarrow>
      frame_ok contents closed tested f' q'"
    and body_call: "frame_ok contents closed tested f q \<Longrightarrow> body f q = Some (f', q') \<Longrightarrow>
      (case f' of Leaving c r n \<Rightarrow> whole_call push pop try_pop shutdown is_empty c q = Some (r, q') | _ \<Rightarrow> q' = q)"
begin

definition lq_inv :: "('l, 'q, 'a) locked_queue \<Rightarrow> bool" where
  "lq_inv s \<longleftrightarrow> linv (queue_lock s) \<and>
     (\<forall>t. holds (queue_lock s) t \<longleftrightarrow> t < length (frames s) \<and> in_section (frames s ! t)) \<and>
     (\<forall>t < length (frames s). frame_ok contents closed tested (frames s ! t) (shared s)) \<and>
     (\<forall>t < length (frames s). \<forall>c r n. frames s ! t = Leaving c r n \<longrightarrow>
        (\<exists>es. filter (\<lambda>e. fst e = t) (calls s) = es @ [(t, c, r)]))"

lemma lq_invD:
  assumes "lq_inv s"
  shows "linv (queue_lock s)" and "holds (queue_lock s) t \<longleftrightarrow> t < length (frames s) \<and> in_section (frames s ! t)"
    and "t < length (frames s) \<Longrightarrow> frame_ok contents closed tested (frames s ! t) (shared s)"
    and "t < length (frames s) \<Longrightarrow> frames s ! t = Leaving c r n \<Longrightarrow>
      \<exists>es. filter (\<lambda>e. fst e = t) (calls s) = es @ [(t, c, r)]"
  using assms by (auto simp: lq_inv_def)

lemma lq_invI:
  assumes "linv (queue_lock s)"
    and "\<And>t. holds (queue_lock s) t \<longleftrightarrow> t < length (frames s) \<and> in_section (frames s ! t)"
    and "\<And>t. t < length (frames s) \<Longrightarrow> frame_ok contents closed tested (frames s ! t) (shared s)"
    and "\<And>t c r n. t < length (frames s) \<Longrightarrow> frames s ! t = Leaving c r n \<Longrightarrow>
      \<exists>es. filter (\<lambda>e. fst e = t) (calls s) = es @ [(t, c, r)]"
  shows "lq_inv s"
  using assms by (simp add: lq_inv_def)

text \<open>At most one thread is inside.\<close>

lemma one_inside:
  "lq_inv s \<Longrightarrow> t < length (frames s) \<Longrightarrow> in_section (frames s ! t) \<Longrightarrow>
   u < length (frames s) \<Longrightarrow> in_section (frames s ! u) \<Longrightarrow> t = u"
  using exclusive [of "queue_lock s" t u] lq_invD(1) [of s] lq_invD(2) [of s t] lq_invD(2) [of s u] by simp

lemma inv_outside:
  assumes "lq_inv s" and "\<not> in_section (frames s ! t)" and "\<not> in_section f"
  shows "lq_inv (set_frame t f s)"
proof (cases "t < length (frames s)")
  case True
  with assms show ?thesis
    unfolding lq_inv_def set_frame_def by (auto simp: nth_list_update frame_ok_outside)
next
  case False
  then have "set_frame t f s = s" by (simp add: set_frame_def list_update_beyond)
  with assms(1) show ?thesis by simp
qed

lemma inv_unlock:
  assumes inv: "lq_inv s" and t: "t < length (frames s)" "in_section (frames s ! t)" and f: "\<not> in_section f"
  shows "lq_inv ((set_frame t f s)\<lparr>queue_lock := unlock t (queue_lock s)\<rparr>)"
proof -
  have h: "holds (queue_lock s) t" using lq_invD(2) [OF inv, of t] t by simp
  have "linv (unlock t (queue_lock s))" using unlock_inv [OF lq_invD(1) [OF inv] h] .
  moreover have "holds (unlock t (queue_lock s)) u \<longleftrightarrow>
      u < length (frames s) \<and> in_section ((frames s)[t := f] ! u)" for u
    using lq_invD(2) [OF inv, of u] f t(1) by (cases "u = t") (auto simp: unlock_holds)
  ultimately show ?thesis
    using inv t f unfolding lq_inv_def set_frame_def by (auto simp: nth_list_update frame_ok_outside)
qed

lemma inv_statement:
  assumes inv: "lq_inv s" and t: "t < length (frames s)" and b: "body (frames s ! t) (shared s) = Some (f, q)"
  shows "lq_inv ((set_frame t f s)\<lparr>shared := q, calls := calls s @ entry t f\<rparr>)"
proof -
  have ins: "in_section (frames s ! t)" "in_section f" using body_inside [OF b] by simp_all
  have ok: "frame_ok contents closed tested f q" by (rule body_ok [OF lq_invD(3) [OF inv t] b])
  have others: "\<not> in_section (frames s ! u)" if "u < length (frames s)" "u \<noteq> t" for u
    using one_inside [OF inv t ins(1) that(1)] that(2) by blast
  have "frame_ok contents closed tested ((frames s)[t := f] ! u) q" if "u < length (frames s)" for u
    using that ok others [OF that] t by (cases "u = t") (simp_all add: frame_ok_outside)
  moreover have "\<exists>es. filter (\<lambda>e. fst e = u) (calls s @ entry t f) = es @ [(u, c, r)]"
    if "u < length (frames s)" "(frames s)[t := f] ! u = Leaving c r n" for u c r n
  proof (cases "u = t")
    case True
    with that t have "f = Leaving c r n" by simp
    with True show ?thesis by simp
  next
    case False
    with that others [OF that(1)] show ?thesis by simp
  qed
  moreover have "holds (queue_lock s) u \<longleftrightarrow> u < length (frames s) \<and> in_section ((frames s)[t := f] ! u)" for u
    using lq_invD(2) [OF inv, of u] ins t by (cases "u = t") auto
  ultimately show ?thesis using lq_invD(1) [OF inv] by (intro lq_invI) (simp_all add: set_frame_def)
qed

lemma inv_lock:
  assumes inv: "lq_inv s" and t: "t < length (frames s)" and f: "frames s ! t = Locking c"
    and l: "lstep t (queue_lock s) l"
  shows "lq_inv ((set_frame t (if holds l t then Testing c else Locking c) s)\<lparr>queue_lock := l\<rparr>)"
proof -
  let ?f = "if holds l t then Testing c else Locking c"
  let ?s = "(set_frame t ?f s)\<lparr>queue_lock := l\<rparr>"
  have fields: "frames ?s = (frames s)[t := ?f]" "queue_lock ?s = l" "shared ?s = shared s" "calls ?s = calls s"
    by (simp_all add: set_frame_def)
  have ok: "frame_ok contents closed tested ((frames s)[t := ?f] ! u) (shared s)" if "u < length (frames s)" for u
    using that lq_invD(3) [OF inv that] t by (cases "u = t") simp_all
  have h: "holds l u \<longleftrightarrow> u < length (frames s) \<and> in_section ((frames s)[t := ?f] ! u)" for u
    using lq_invD(2) [OF inv, of u] lock_others [OF l, of u] t f by (cases "u = t") auto
  have li: "linv l" by (rule lock_inv [OF l lq_invD(1) [OF inv]])
  have e: "\<exists>es. filter (\<lambda>e. fst e = u) (calls s) = es @ [(u, d, r)]"
    if "u < length (frames s)" "(frames s)[t := ?f] ! u = Leaving d r n" for u d r n
  proof (cases "u = t")
    case True
    with that t show ?thesis by (simp split: if_splits)
  next
    case False
    with that have "frames s ! u = Leaving d r n" by simp
    from lq_invD(4) [OF inv that(1) this] show ?thesis .
  qed
  show ?thesis by (rule lq_invI; unfold fields length_list_update) (rule li, rule h, erule ok, erule (1) e)
qed

lemma inv_notify_all:
  assumes inv: "lq_inv s" and t: "t < length (frames s)" "frames s ! t = NotifyingAll"
  shows "lq_inv (s\<lparr>frames := (map wake (frames s))[t := Free]\<rparr>)"
proof -
  have w: "wake f = Leaving c r m \<longleftrightarrow> f = Leaving c r m" for f :: "'a frame" and c r m by (cases f) simp_all
  have ok: "frame_ok contents closed tested f q \<Longrightarrow> frame_ok contents closed tested (wake f) q" for f q
    by (cases f) simp_all
  have "in_section ((map wake (frames s))[t := Free] ! u) = in_section (frames s ! u)" if "u < length (frames s)" for u
    using that t by (cases "u = t") simp_all
  moreover have "frame_ok contents closed tested ((map wake (frames s))[t := Free] ! u) (shared s)"
    if "u < length (frames s)" for u
    using that ok [OF lq_invD(3) [OF inv that]] t by (cases "u = t") simp_all
  moreover have "frames s ! u = Leaving c r m"
    if "u < length (frames s)" "(map wake (frames s))[t := Free] ! u = Leaving c r m" for u c r m
    using that w t by (cases "u = t") simp_all
  ultimately show ?thesis using lq_invD [OF inv] by (intro lq_invI) auto
qed

lemma lq_inv_step: "queue_step lstep holds unlock body sp s s' \<Longrightarrow> lq_inv s \<Longrightarrow> lq_inv s'"
proof (induction rule: queue_step.induct)
  case (notify_one t s u)
  have ne: "u \<noteq> t" using notify_one by auto
  then have "\<not> in_section (frames (set_frame t Free s) ! u)"
    using notify_one by (simp add: set_frame_def)
  moreover have "lq_inv (set_frame t Free s)" using inv_outside [OF notify_one(5)] notify_one(2) by simp
  ultimately show ?case using inv_outside [of "set_frame t Free s" u] by simp
qed (simp_all add: inv_outside inv_unlock inv_statement inv_lock inv_notify_all)

text \<open>What the threads do to the shared queue is a sequence of whole operations.\<close>

definition lq_abs :: "('l, 'q, 'a) locked_queue \<Rightarrow> 'q \<times> (nat \<times> 'a queue_call \<times> 'a queue_answer) list" where
  "lq_abs s = (shared s, calls s)"

lemma statement_call:
  assumes "lq_inv s" and "t < length (frames s)" and "body (frames s ! t) (shared s) = Some (f, q)"
  shows "(q, calls s @ entry t f) = (shared s, calls s) \<or>
    atomic_step (whole_call push pop try_pop shutdown is_empty) (shared s, calls s) (q, calls s @ entry t f)"
  using body_call [OF lq_invD(3) [OF assms(1,2)] assms(3)]
  by (cases f) (auto intro: atomic_step.intros)

sublocale locked: simulation "queue_step lstep holds unlock body True"
  "atomic_step (whole_call push pop try_pop shutdown is_empty)" lq_abs lq_inv
proof
  fix s s' :: "('l, 'q, 'a) locked_queue"
  assume "queue_step lstep holds unlock body True s s'" and "lq_inv s"
  then show "lq_inv s'" by (rule lq_inv_step)
next
  fix s s' :: "('l, 'q, 'a) locked_queue"
  assume "queue_step lstep holds unlock body True s s'" and "lq_inv s"
  then show "lq_abs s' = lq_abs s \<or> atomic_step (whole_call push pop try_pop shutdown is_empty) (lq_abs s) (lq_abs s')"
  proof (induction rule: queue_step.induct)
    case (statement t s f q)
    from statement_call [OF statement(3,1,2)] show ?case by (simp add: lq_abs_def set_frame_def)
  qed (simp_all add: lq_abs_def set_frame_def)
qed

lemma lq_inv_init: "linv l \<Longrightarrow> \<forall>t. \<not> holds l t \<Longrightarrow> lq_inv (queue_init l q n)"
  by (simp add: lq_inv_def queue_init_def)

end

definition bq_ready :: "'a blocking_queue \<Rightarrow> bool" where
  "bq_ready q \<longleftrightarrow> bq_items q \<noteq> [] \<or> bq_stopped q"

definition sq_ready :: "'a spin_queue \<Rightarrow> bool" where
  "sq_ready q \<longleftrightarrow> sq_items q \<noteq> [] \<or> \<not> sq_stopped q"

interpretation spin_queue: locked_sections spin_lock_step spin_holds spin_unlock spin_inv
  sq_push sq_pop sq_try_pop sq_shutdown sq_empty sq_items sq_stopped spin_section sq_ready
proof unfold_locales
  fix f :: "'a frame" and q f' q'
  assume "spin_section f q = Some (f', q')"
  then show "in_section f \<and> in_section f' \<and> \<not> at_unlock f"
    by (cases "(f, q)" rule: spin_section.cases) (auto split: if_splits list.splits)
next
  fix f :: "'a frame" and q
  assume "frame_ok sq_items sq_stopped sq_ready f q" "in_section f" "\<not> at_unlock f"
  then show "spin_section f q \<noteq> None"
    by (cases "(f, q)" rule: spin_section.cases) (auto simp: neq_Nil_conv)
next
  fix f :: "'a frame" and q f' q'
  assume "frame_ok sq_items sq_stopped sq_ready f q" "spin_section f q = Some (f', q')"
  then show "frame_ok sq_items sq_stopped sq_ready f' q'"
    by (cases "(f, q)" rule: spin_section.cases) (auto simp: sq_ready_def split: if_splits list.splits)
next
  fix f :: "'a frame" and q f' q'
  assume "frame_ok sq_items sq_stopped sq_ready f q" "spin_section f q = Some (f', q')"
  then show "case f' of Leaving c r n \<Rightarrow> whole_call sq_push sq_pop sq_try_pop sq_shutdown sq_empty c q = Some (r, q') | _ \<Rightarrow> q' = q"
    by (cases "(f, q)" rule: spin_section.cases)
      (auto simp: sq_push_def sq_pop_def sq_try_pop_def sq_shutdown_def sq_empty_def split: if_splits list.splits)
qed

interpretation cond_queue: locked_sections mutex_step mutex_holds mutex_unlock "\<lambda>_. True"
  bq_push bq_pop bq_try_pop bq_shutdown bq_empty bq_items bq_stopped cond_section bq_ready
proof unfold_locales
  fix f :: "'a frame" and q f' q'
  assume "cond_section f q = Some (f', q')"
  then show "in_section f \<and> in_section f' \<and> \<not> at_unlock f"
    by (cases "(f, q)" rule: cond_section.cases) (auto split: if_splits list.splits)
next
  fix f :: "'a frame" and q
  assume "frame_ok bq_items bq_stopped bq_ready f q" "in_section f" "\<not> at_unlock f"
  then show "cond_section f q \<noteq> None"
    by (cases "(f, q)" rule: cond_section.cases) (auto simp: neq_Nil_conv)
next
  fix f :: "'a frame" and q f' q'
  assume "frame_ok bq_items bq_stopped bq_ready f q" "cond_section f q = Some (f', q')"
  then show "frame_ok bq_items bq_stopped bq_ready f' q'"
    by (cases "(f, q)" rule: cond_section.cases) (auto simp: bq_ready_def split: if_splits list.splits)
next
  fix f :: "'a frame" and q f' q'
  assume "frame_ok bq_items bq_stopped bq_ready f q" "cond_section f q = Some (f', q')"
  then show "case f' of Leaving c r n \<Rightarrow> whole_call bq_push bq_pop bq_try_pop bq_shutdown bq_empty c q = Some (r, q') | _ \<Rightarrow> q' = q"
    by (cases "(f, q)" rule: cond_section.cases)
      (auto simp: bq_push_def bq_pop_def bq_try_pop_def bq_shutdown_def bq_empty_def split: if_splits list.splits)
qed

section \<open>What the calls see\<close>

text \<open>The items pushed before the first \<^verbatim>\<open>shutdown\<close>, and the items handed out.\<close>

fun pushed_log :: "(nat \<times> 'a queue_call \<times> 'a queue_answer) list \<Rightarrow> 'a list" where
  "pushed_log [] = []"
| "pushed_log ((t, CallPush x, r) # es) = x # pushed_log es"
| "pushed_log ((t, CallShutdown, r) # es) = []"
| "pushed_log ((t, c, r) # es) = pushed_log es"

fun taken_log :: "(nat \<times> 'a queue_call \<times> 'a queue_answer) list \<Rightarrow> 'a list" where
  "taken_log [] = []"
| "taken_log ((t, c, TheItem (Some x)) # es) = x # taken_log es"
| "taken_log (e # es) = taken_log es"

definition shut_log :: "(nat \<times> 'a queue_call \<times> 'a queue_answer) list \<Rightarrow> bool" where
  "shut_log es \<longleftrightarrow> CallShutdown \<in> fst ` snd ` set es"

lemma shut_log_append [simp]: "shut_log (es @ [(t, c, r)]) \<longleftrightarrow> shut_log es \<or> c = CallShutdown"
  by (auto simp: shut_log_def)

lemma pushed_log_append:
  "pushed_log (es @ [(t, c, r)]) =
     pushed_log es @ (if shut_log es then [] else case c of CallPush x \<Rightarrow> [x] | _ \<Rightarrow> [])"
  by (induction es rule: pushed_log.induct) (auto simp: shut_log_def split: queue_call.splits)

lemma taken_log_append:
  "taken_log (es @ [(t, c, r)]) = taken_log es @ (case r of TheItem (Some x) \<Rightarrow> [x] | _ \<Rightarrow> [])"
  by (induction es rule: taken_log.induct) (auto split: queue_answer.splits option.splits)

context closable_queue
begin

lemma whole_calls:
  assumes "(atomic_step (whole_call push pop try_pop shutdown is_empty))\<^sup>*\<^sup>* (q0, []) (q, es)"
    and "contents q0 = []" and "\<not> closed q0"
  shows "pushed_log es = taken_log es @ contents q \<and> (closed q \<longleftrightarrow> shut_log es)"
  using assms(1)
proof (induction "(q, es)" arbitrary: q es rule: rtranclp_induct)
  case base
  with assms(2,3) show ?case by (simp add: shut_log_def)
next
  case (step st)
  obtain q1 es1 where st: "st = (q1, es1)" by (cases st)
  with step.hyps(2) obtain t c r where e: "es = es1 @ [(t, c, r)]"
    and w: "whole_call push pop try_pop shutdown is_empty c q1 = Some (r, q)" by (auto elim: atomic_step.cases)
  have ih: "pushed_log es1 = taken_log es1 @ contents q1" "closed q1 \<longleftrightarrow> shut_log es1"
    using step.hyps(3) [OF st] by simp_all
  note logs = e pushed_log_append taken_log_append ih
  show ?case
  proof (cases c)
    case (CallPush x)
    with w push_law [of x q1] show ?thesis by (auto simp: logs)
  next
    case CallPop
    with w obtain y where y: "pop q1 = Some (y, q)" "r = TheItem y" by auto
    with pop_none [of q1 q] pop_some [of q1 _ q] CallPop show ?thesis by (cases y) (auto simp: logs)
  next
    case CallTryPop
    with w obtain y where y: "try_pop q1 = (y, q)" "r = TheItem y" by (auto split: prod.splits)
    with try_pop_law [OF y(1)] CallTryPop show ?thesis by (cases y) (auto simp: logs)
  next
    case CallShutdown
    with w shutdown_law [of q1] show ?thesis by (auto simp: logs)
  next
    case CallEmpty
    with w have "q = q1" "r = Truth (is_empty q1)" by auto
    with CallEmpty show ?thesis by (auto simp: logs)
  qed
qed

end

end
