(* ===== verification/Locked_Progress.thy ===== *)
theory Locked_Progress
  imports Locked_Queue
begin

text \<open>
  The calls of the blocking queues return: a call can always be completed, except a \<^verbatim>\<open>pop\<close> while
  the queue is empty and open; and the notifications of \<^verbatim>\<open>BlockingQueue\<close> reach the threads that
  wait.
\<close>

section \<open>A measure\<close>

text \<open>
  What a call costs at most from where it stands, for \<open>n\<close> threads: a push can make \<open>n\<close> pops
  possible, a notification can wake as many threads. A \<^verbatim>\<open>pop\<close> that cannot return costs nothing
  to repeat.
\<close>

fun call_cost :: "nat \<Rightarrow> 'a queue_call \<Rightarrow> nat" where
  "call_cost n (CallPush x) = 20 + 10 * n"
| "call_cost n CallShutdown = 20 + 30 * n"
| "call_cost n _ = 0"

fun frame_cost :: "nat \<Rightarrow> bool \<Rightarrow> 'a frame \<Rightarrow> nat" where
  "frame_cost n b Free = 0"
| "frame_cost n b Sleeping = 1"
| "frame_cost n b (Locking CallPop) = (if b then 12 else 2)"
| "frame_cost n b (Locking c) = 12 + call_cost n c"
| "frame_cost n b (Testing c) = 11 + call_cost n c"
| "frame_cost n b (Retesting c) = 10"
| "frame_cost n b (Fronting c) = 9"
| "frame_cost n b (Popping c x) = 8"
| "frame_cost n b (Adding x) = 28 + 10 * n"
| "frame_cost n b Retrying = 6"
| "frame_cost n b Waiting = 5"
| "frame_cost n b (Leaving c r Nobody) = 7"
| "frame_cost n b (Leaving c r OneWaiter) = 27"
| "frame_cost n b (Leaving c r AllWaiters) = 27 + 20 * n"
| "frame_cost n b NotifyingOne = 20"
| "frame_cost n b NotifyingAll = 20 + 20 * n"

lemma frame_kinds:
  "in_section f \<or> f = Free \<or> f = Sleeping \<or> f = NotifyingOne \<or> f = NotifyingAll \<or> (\<exists>c. f = Locking c)"
  by (cases f) simp_all

lemma cost_flip: "frame_cost n b' f \<le> frame_cost n b f + (if b' \<and> \<not> b then 10 else 0)"
  by (cases "(n, b, f)" rule: frame_cost.cases) simp_all

lemma cost_wake: "frame_cost n b (wake f) \<le> frame_cost n b f + 11"
  by (cases f) simp_all

lemma cost_locking: "frame_cost n b (Locking c) \<le> 12 + call_cost n c"
  by (cases c) simp_all

lemma cost_inside: "in_section f \<Longrightarrow> frame_cost n b f = frame_cost n b' f"
  by (cases "(n, b, f)" rule: frame_cost.cases) simp_all

definition total_cost :: "nat \<Rightarrow> bool \<Rightarrow> 'a frame list \<Rightarrow> nat" where
  "total_cost n b fs = sum_list (map (frame_cost n b) fs)"

lemma total_update:
  "t < length fs \<Longrightarrow> total_cost n b (fs[t := f]) + frame_cost n b (fs ! t) = total_cost n b fs + frame_cost n b f"
  unfolding total_cost_def by (rule sum_list_map_update)

lemma total_flip: "total_cost n b' fs \<le> total_cost n b fs + (if b' \<and> \<not> b then 10 * length fs else 0)"
proof (induction fs)
  case (Cons f fs)
  with cost_flip [of n b' f b] show ?case by (auto simp: total_cost_def split: if_splits)
qed (simp add: total_cost_def)

lemma total_wake: "total_cost n b (map wake fs) \<le> total_cost n b fs + 11 * length fs"
proof (induction fs)
  case (Cons f fs)
  with cost_wake [of n b f] show ?case by (simp add: total_cost_def)
qed (simp add: total_cost_def)

section \<open>Completing the calls\<close>

text \<open>A step of a call that is in progress: no thread that is outside starts another. With steps of the program
  itself, a thread that sleeps goes on only when another one notifies it.\<close>

definition finishing ::
  "(('l, 'q, 'a) locked_queue \<Rightarrow> ('l, 'q, 'a) locked_queue \<Rightarrow> bool) \<Rightarrow>
   ('l, 'q, 'a) locked_queue \<Rightarrow> ('l, 'q, 'a) locked_queue \<Rightarrow> bool" where
  "finishing step s s' \<longleftrightarrow> step s s' \<and>
     (\<forall>t < length (frames s). frames s ! t = Free \<longrightarrow> frames s' ! t = Free)"

lemma finishing_run: "(finishing step)\<^sup>*\<^sup>* s s' \<Longrightarrow> step\<^sup>*\<^sup>* s s'"
  by (rule rtranclp_mono [THEN predicate2D]) (auto simp: finishing_def)

text \<open>All that is still in progress are pops of an empty queue that is open.\<close>

definition calls_done :: "bool \<Rightarrow> 'a frame list \<Rightarrow> bool" where
  "calls_done b fs \<longleftrightarrow> (\<forall>f \<in> set fs. f = Free \<or> (f = Sleeping \<or> f = Locking CallPop) \<and> \<not> b)"

text \<open>
  What is needed for that, besides the laws of \<open>locked_sections\<close>: each statement is progress, and no
  thread sleeps on a queue that is not empty or is closed unless another one is about to act.
\<close>

locale live_sections = locked_sections lstep holds unlock linv push pop try_pop shutdown is_empty contents closed body tested
  for lstep :: "nat \<Rightarrow> 'l \<Rightarrow> 'l \<Rightarrow> bool" and holds :: "'l \<Rightarrow> nat \<Rightarrow> bool" and unlock linv
    and push :: "'a \<Rightarrow> 'q \<Rightarrow> 'q" and pop try_pop shutdown is_empty contents closed
    and body :: "'a frame \<Rightarrow> 'q \<Rightarrow> ('a frame \<times> 'q) option" and tested +
  fixes extra :: "('l, 'q, 'a) locked_queue \<Rightarrow> bool"
  assumes body_cost: "frame_ok contents closed tested f q \<Longrightarrow> body f q = Some (f', q') \<Longrightarrow>
      frame_cost n True f' + (if (contents q' \<noteq> [] \<or> closed q') \<and> contents q = [] \<and> \<not> closed q then 10 * n else 0)
      < frame_cost n True f"
    and extra_step: "queue_step lstep holds unlock body True s s' \<Longrightarrow> lq_inv s \<Longrightarrow> extra s \<Longrightarrow> extra s'"
    and extra_wakes: "lq_inv s \<Longrightarrow> extra s \<Longrightarrow> Sleeping \<in> set (frames s) \<Longrightarrow> contents (shared s) \<noteq> [] \<or> closed (shared s) \<Longrightarrow>
      \<exists>f \<in> set (frames s). f \<noteq> Free \<and> f \<noteq> Sleeping"
begin

abbreviation ready :: "'q \<Rightarrow> bool" where
  "ready q \<equiv> contents q \<noteq> [] \<or> closed q"

definition queue_rank :: "('l, 'q, 'a) locked_queue \<Rightarrow> nat" where
  "queue_rank s = total_cost (length (frames s)) (ready (shared s)) (frames s)"

abbreviation step :: "('l, 'q, 'a) locked_queue \<Rightarrow> ('l, 'q, 'a) locked_queue \<Rightarrow> bool" where
  "step \<equiv> queue_step lstep holds unlock body False"

abbreviation resting :: "('l, 'q, 'a) locked_queue \<Rightarrow> bool" where
  "resting s \<equiv> calls_done (ready (shared s)) (frames s)"

text \<open>A step that only replaces the frame of a busy thread by a cheaper one.\<close>

lemma cheaper:
  assumes "t < length (frames s)" and "frames s ! t \<noteq> Free" and "frames s' = (frames s)[t := f]" and "shared s' = shared s"
    and "frame_cost (length (frames s)) (ready (shared s)) f < frame_cost (length (frames s)) (ready (shared s)) (frames s ! t)"
    and "step s s'"
  shows "finishing step s s' \<and> queue_rank s' < queue_rank s"
proof -
  let ?n = "length (frames s)" and ?b = "ready (shared s)"
  have "frames s' ! u = Free" if "u < ?n" "frames s ! u = Free" for u
    using that assms(2,3) by (cases "u = t") simp_all
  then have "finishing step s s'" using assms(6) by (simp add: finishing_def)
  moreover have "queue_rank s' < queue_rank s"
    using total_update [OF assms(1), of ?n ?b f] assms(3-5) by (simp add: queue_rank_def)
  ultimately show ?thesis ..
qed

lemma rank_statement:
  assumes inv: "lq_inv s" and t: "t < length (frames s)" and b: "body (frames s ! t) (shared s) = Some (f, q)"
  shows "\<exists>s'. finishing step s s' \<and> queue_rank s' < queue_rank s"
proof -
  let ?n = "length (frames s)"
  let ?s = "(set_frame t f s)\<lparr>shared := q, calls := calls s @ entry t f\<rparr>"
  note ins = body_inside [OF b]
  have fields: "frames ?s = (frames s)[t := f]" "shared ?s = q" by (simp_all add: set_frame_def)
  have cost: "frame_cost ?n True f + (if ready q \<and> \<not> ready (shared s) then 10 * ?n else 0) < frame_cost ?n True (frames s ! t)"
    using body_cost [OF lq_invD(3) [OF inv t] b, of ?n] by (simp split: if_splits)
  have same: "frame_cost ?n (ready (shared s)) f = frame_cost ?n True f"
      "frame_cost ?n (ready (shared s)) (frames s ! t) = frame_cost ?n True (frames s ! t)"
    using ins cost_inside by blast+
  have "total_cost ?n (ready q) ((frames s)[t := f]) \<le> total_cost ?n (ready (shared s)) ((frames s)[t := f]) +
      (if ready q \<and> \<not> ready (shared s) then 10 * ?n else 0)"
    using total_flip [of ?n "ready q" "(frames s)[t := f]" "ready (shared s)"] by (simp only: length_list_update)
  with total_update [OF t, of ?n "ready (shared s)" f, unfolded same] cost
  have "queue_rank ?s < queue_rank s" unfolding queue_rank_def fields length_list_update by linarith
  moreover have "step s ?s" using t b by (rule statement)
  moreover have "frames ?s ! u = Free" if "u < ?n" "frames s ! u = Free" for u
    using that ins unfolding fields by (cases "u = t") auto
  ultimately show ?thesis by (auto simp: finishing_def)
qed

lemma rank_inside:
  assumes inv: "lq_inv s" and t: "t < length (frames s)" "in_section (frames s ! t)"
  shows "\<exists>s'. finishing step s s' \<and> queue_rank s' < queue_rank s"
proof (cases "at_unlock (frames s ! t)")
  case False
  from body_runs [OF lq_invD(3) [OF inv t(1)] t(2) False] obtain f q where "body (frames s ! t) (shared s) = Some (f, q)"
    by (auto simp: not_None_eq)
  then show ?thesis by (rule rank_statement [OF inv t(1)])
next
  case True
  have ok: "frame_ok contents closed tested (frames s ! t) (shared s)" by (rule lq_invD(3) [OF inv t(1)])
  show ?thesis
  proof (cases "frames s ! t")
    case (Leaving c r m)
    let ?s = "(set_frame t (returned m) s)\<lparr>queue_lock := unlock t (queue_lock s)\<rparr>"
    have "frame_cost (length (frames s)) (ready (shared s)) (returned m) <
        frame_cost (length (frames s)) (ready (shared s)) (frames s ! t)" unfolding Leaving by (cases m) simp_all
    from cheaper [OF t(1) _ _ _ this leave [OF t(1) Leaving]] Leaving show ?thesis
      by (intro exI [of _ ?s]) (simp add: set_frame_def)
  next
    case Retrying
    let ?s = "(set_frame t (Locking CallPop) s)\<lparr>queue_lock := unlock t (queue_lock s)\<rparr>"
    from Retrying ok cheaper [where f = "Locking CallPop", OF t(1) _ _ _ _ retry [OF t(1) Retrying]] show ?thesis
      by (intro exI [of _ ?s]) (simp add: set_frame_def)
  next
    case Waiting
    let ?s = "(set_frame t Sleeping s)\<lparr>queue_lock := unlock t (queue_lock s)\<rparr>"
    from Waiting cheaper [where f = Sleeping, OF t(1) _ _ _ _ sleep [OF t(1) Waiting]] show ?thesis
      by (intro exI [of _ ?s]) (simp add: set_frame_def)
  qed (use True in simp_all)
qed

lemma rank_notify_one:
  assumes t: "t < length (frames s)" "frames s ! t = NotifyingOne"
  shows "\<exists>s'. finishing step s s' \<and> queue_rank s' < queue_rank s"
proof (cases "Sleeping \<in> set (frames s)")
  case False
  show ?thesis
    by (rule exI, rule cheaper [OF t(1) _ _ _ _ notify_nobody [OF t False], where f = Free])
      (use t(2) in \<open>simp_all add: set_frame_def\<close>)
next
  case True
  then obtain u where u: "u < length (frames s)" "frames s ! u = Sleeping" by (auto simp: in_set_conv_nth)
  let ?n = "length (frames s)" and ?b = "ready (shared s)"
  let ?s = "set_frame u (Locking CallPop) (set_frame t Free s)"
  have ne: "u \<noteq> t" using t u by auto
  have "total_cost ?n ?b ((frames s)[t := Free]) + 20 = total_cost ?n ?b (frames s)"
    using total_update [OF t(1), of ?n ?b Free] t(2) by simp
  moreover have "total_cost ?n ?b ((frames s)[t := Free, u := Locking CallPop]) + 1 \<le>
      total_cost ?n ?b ((frames s)[t := Free]) + 12"
    using total_update [of u "(frames s)[t := Free]" ?n ?b "Locking CallPop"] u ne by simp
  ultimately have "queue_rank ?s < queue_rank s" by (simp add: queue_rank_def set_frame_def)
  moreover have "step s ?s" by (rule notify_one [OF t u])
  moreover have "frames ?s ! v = Free" if "v < ?n" "frames s ! v = Free" for v
    using that t(1) u ne by (cases "v = t"; cases "v = u") (simp_all add: set_frame_def)
  ultimately show ?thesis by (auto simp: finishing_def)
qed

lemma rank_notify_all:
  assumes t: "t < length (frames s)" "frames s ! t = NotifyingAll"
  shows "\<exists>s'. finishing step s s' \<and> queue_rank s' < queue_rank s"
proof -
  let ?n = "length (frames s)" and ?b = "ready (shared s)"
  let ?s = "s\<lparr>frames := (map wake (frames s))[t := Free]\<rparr>"
  have "total_cost ?n ?b ((map wake (frames s))[t := Free]) + (20 + 20 * ?n) = total_cost ?n ?b (map wake (frames s))"
    using total_update [of t "map wake (frames s)" ?n ?b Free] t by simp
  with total_wake [of ?n ?b "frames s"] have "queue_rank ?s < queue_rank s" by (simp add: queue_rank_def)
  moreover have "step s ?s" by (rule notify_all [OF t])
  moreover have "frames ?s ! v = Free" if "v < ?n" "frames s ! v = Free" for v
    using that t by (cases "v = t") simp_all
  ultimately show ?thesis by (auto simp: finishing_def)
qed

text \<open>With nobody inside, a thread in \<^verbatim>\<open>lock\<close> gets in.\<close>

lemma lock_run:
  assumes "(\<lambda>a b. lstep t a b \<and> \<not> holds b t)\<^sup>*\<^sup>* (queue_lock s) l" and "t < length (frames s)" and "frames s ! t = Locking c"
  shows "(finishing step)\<^sup>*\<^sup>* s (s\<lparr>queue_lock := l\<rparr>)"
  using assms(1)
proof (induction rule: rtranclp_induct)
  case (step a b)
  have same: "(frames s)[t := Locking c] = frames s" using list_update_id [of "frames s" t] assms(3) by simp
  have "set_frame t (Locking c) (s\<lparr>queue_lock := a\<rparr>)\<lparr>queue_lock := b\<rparr> = s\<lparr>queue_lock := b\<rparr>"
    by (simp add: set_frame_def same)
  with lock [of t "s\<lparr>queue_lock := a\<rparr>" c lstep b holds unlock body False] step.hyps(2) assms(2,3)
  have "finishing step (s\<lparr>queue_lock := a\<rparr>) (s\<lparr>queue_lock := b\<rparr>)"
    by (simp add: finishing_def)
  with step.IH show ?case by (rule rtranclp.rtrancl_into_rtrancl)
qed simp

lemma rank_lock:
  assumes inv: "lq_inv s" and out: "\<forall>f \<in> set (frames s). \<not> in_section f"
    and t: "t < length (frames s)" "frames s ! t = Locking c" and c: "c \<noteq> CallPop \<or> ready (shared s)"
  shows "\<exists>s'. (finishing step)\<^sup>*\<^sup>* s s' \<and> queue_rank s' < queue_rank s"
proof -
  have nobody: "\<forall>u. \<not> holds (queue_lock s) u" using lq_invD(2) [OF inv] out by simp
  from available [OF lq_invD(1) [OF inv] nobody] obtain l where "(lstep t)\<^sup>*\<^sup>* (queue_lock s) l" "holds l t" by blast
  with first_hit [of "lstep t" _ _ "\<lambda>l. holds l t"] nobody obtain k k' where
    k: "(\<lambda>a b. lstep t a b \<and> \<not> holds b t)\<^sup>*\<^sup>* (queue_lock s) k" "lstep t k k'" "holds k' t" by blast
  let ?s = "s\<lparr>queue_lock := k\<rparr>"
  have run: "(finishing step)\<^sup>*\<^sup>* s ?s" by (rule lock_run [OF k(1) t])
  have "step ?s ((set_frame t (Testing c) ?s)\<lparr>queue_lock := k'\<rparr>)"
    using lock [of t ?s c lstep k' holds unlock body False] t k(2,3) by simp
  from cheaper [OF _ _ _ _ _ this, of t "Testing c"] t c
  have "finishing step ?s ((set_frame t (Testing c) ?s)\<lparr>queue_lock := k'\<rparr>) \<and>
      queue_rank ((set_frame t (Testing c) ?s)\<lparr>queue_lock := k'\<rparr>) < queue_rank ?s"
    by (cases c) (simp_all add: set_frame_def)
  moreover have "queue_rank ?s = queue_rank s" by (simp add: queue_rank_def)
  ultimately show ?thesis using rtranclp.rtrancl_into_rtrancl [OF run] by auto
qed

lemma queue_advances:
  assumes inv: "lq_inv s" "extra s" and busy: "\<not> resting s"
  shows "\<exists>s'. (finishing step)\<^sup>*\<^sup>* s s' \<and> queue_rank s' < queue_rank s"
proof -
  have one: ?thesis if "\<exists>s'. finishing step s s' \<and> queue_rank s' < queue_rank s"
    using that by (meson r_into_rtranclp)
  consider (inside) "\<exists>f \<in> set (frames s). in_section f"
    | (one) "NotifyingOne \<in> set (frames s)" | (all) "NotifyingAll \<in> set (frames s)"
    | (locking) c where "Locking c \<in> set (frames s)" "c \<noteq> CallPop \<or> ready (shared s)"
        "\<forall>f \<in> set (frames s). \<not> in_section f"
    | (stuck) "\<forall>f \<in> set (frames s). f = Free \<or> f = Sleeping \<or> f = Locking CallPop \<and> \<not> ready (shared s)"
    using frame_kinds by metis
  then show ?thesis
  proof cases
    case (locking c)
    then obtain t where "t < length (frames s)" "frames s ! t = Locking c" by (metis in_set_conv_nth)
    then show ?thesis using rank_lock [OF inv(1) locking(3)] locking(2) by blast
  next
    case stuck
    have "Sleeping \<in> set (frames s) \<and> ready (shared s)" using busy stuck by (auto simp: calls_done_def)
    with extra_wakes [OF inv] obtain f where "f \<in> set (frames s)" "f \<noteq> Free" "f \<noteq> Sleeping" by blast
    with stuck \<open>Sleeping \<in> set (frames s) \<and> ready (shared s)\<close> show ?thesis by blast
  qed (use one rank_inside [OF inv(1)] rank_notify_one rank_notify_all in \<open>auto simp: in_set_conv_nth\<close>)
qed

lemma finishing_inv: "(finishing step)\<^sup>*\<^sup>* s s' \<Longrightarrow> lq_inv s \<and> extra s \<Longrightarrow> lq_inv s' \<and> extra s'"
  by (induction rule: rtranclp_induct) (auto simp: finishing_def intro: lq_inv_step extra_step own_step)

sublocale completing: progress "finishing step" "\<lambda>s. lq_inv s \<and> extra s" resting queue_rank
proof
  fix s assume inv: "lq_inv s \<and> extra s" and "\<not> resting s"
  with queue_advances obtain s' where "(finishing step)\<^sup>*\<^sup>* s s'" "queue_rank s' < queue_rank s" by blast
  with finishing_inv inv show "\<exists>s'. (finishing step)\<^sup>*\<^sup>* s s' \<and> (lq_inv s' \<and> extra s') \<and> queue_rank s' < queue_rank s" by blast
qed

end

section \<open>Both queues\<close>

text \<open>In the queue with the spin lock nobody ever waits.\<close>

definition none_waits :: "('l, 'q, 'a) locked_queue \<Rightarrow> bool" where
  "none_waits s \<longleftrightarrow> Sleeping \<notin> set (frames s) \<and> Waiting \<notin> set (frames s)"

lemma returned_not [simp]: "returned n \<noteq> Sleeping" "returned n \<noteq> Waiting"
  by (cases n; simp)+

lemma wake_image [simp]: "Sleeping \<notin> wake ` A" "Waiting \<in> wake ` A \<longleftrightarrow> Waiting \<in> A"
proof -
  have "wake f \<noteq> Sleeping" "wake f = Waiting \<longleftrightarrow> f = Waiting" for f :: "'a frame" by (cases f; simp)+
  then show "Sleeping \<notin> wake ` A" "Waiting \<in> wake ` A \<longleftrightarrow> Waiting \<in> A" by (metis imageE, metis imageE imageI)
qed

lemma not_in_update: "x \<notin> set xs \<Longrightarrow> y \<noteq> x \<Longrightarrow> x \<notin> set (xs[t := y])"
  using set_update_subset_insert [of xs t y] by auto

lemma none_waits_set: "none_waits s \<Longrightarrow> f \<noteq> Sleeping \<Longrightarrow> f \<noteq> Waiting \<Longrightarrow> none_waits (set_frame t f s)"
  by (simp add: none_waits_def set_frame_def not_in_update)

lemma none_waits_step: "spin_queue_step s s' \<Longrightarrow> none_waits s \<Longrightarrow> none_waits s'"
proof (induction rule: queue_step.induct)
  case (statement t s f q)
  have "f \<noteq> Sleeping \<and> f \<noteq> Waiting" using statement(2)
    by (cases "(frames s ! t, shared s)" rule: spin_section.cases) (auto split: if_splits list.splits)
  with none_waits_set [OF statement(3), of f t] show ?case by (simp add: none_waits_def)
next
  case (leave t s c r n)
  from none_waits_set [OF leave(3), of "returned n" t] show ?case by (simp add: none_waits_def)
next
  case (sleep t s)
  then show ?case using nth_mem [of t "frames s"] by (simp add: none_waits_def)
next
  case (notify_all t s)
  then show ?case by (simp add: none_waits_def not_in_update)
qed (simp_all add: none_waits_set none_waits_def set_frame_def not_in_update)

interpretation spin_calls: live_sections spin_lock_step spin_holds spin_unlock spin_inv
  sq_push sq_pop sq_try_pop sq_shutdown sq_empty sq_items sq_stopped spin_section sq_ready none_waits
proof unfold_locales
  fix f :: "'a frame" and q f' q' and n :: nat
  assume "frame_ok sq_items sq_stopped sq_ready f q" "spin_section f q = Some (f', q')"
  then show "frame_cost n True f' + (if (sq_items q' \<noteq> [] \<or> sq_stopped q') \<and> sq_items q = [] \<and> \<not> sq_stopped q then 10 * n else 0)
      < frame_cost n True f"
    by (cases "(f, q)" rule: spin_section.cases) (auto split: if_splits list.splits)
next
  fix s s' :: "(spin_lock, 'a spin_queue, 'a) locked_queue"
  assume "spin_queue_step s s'" "none_waits s"
  then show "none_waits s'" by (rule none_waits_step)
qed (simp add: none_waits_def)

text \<open>
  In the queue with the condition variable, as long as anybody sleeps, there is for each item a thread
  that will take one or that will notify, and after \<^verbatim>\<open>shutdown\<close> one that will notify all.
\<close>

fun helps :: "'a frame \<Rightarrow> nat" where
  "helps (Locking CallPop) = 1"
| "helps (Testing CallPop) = 1"
| "helps (Retesting CallPop) = 1"
| "helps (Fronting CallPop) = 1"
| "helps (Popping CallPop x) = 1"
| "helps (Leaving c r OneWaiter) = 1"
| "helps NotifyingOne = 1"
| "helps _ = 0"

fun rouses :: "'a frame \<Rightarrow> bool" where
  "rouses (Leaving c r AllWaiters) = True"
| "rouses NotifyingAll = True"
| "rouses _ = False"

definition helpers :: "'a frame list \<Rightarrow> nat" where
  "helpers fs = sum_list (map helps fs)"

definition waiters_ok :: "('l, 'a blocking_queue, 'a) locked_queue \<Rightarrow> bool" where
  "waiters_ok s \<longleftrightarrow> (Sleeping \<in> set (frames s) \<longrightarrow>
     length (bq_items (shared s)) \<le> helpers (frames s) \<and> (bq_stopped (shared s) \<longrightarrow> (\<exists>f \<in> set (frames s). rouses f)))"

lemma helpers_update:
  "t < length fs \<Longrightarrow> helpers (fs[t := f]) + helps (fs ! t) = helpers fs + helps f"
  unfolding helpers_def by (rule sum_list_map_update)

lemma rouses_update: "t < length fs \<Longrightarrow> \<exists>f \<in> set fs. rouses f \<Longrightarrow> \<not> rouses (fs ! t) \<or> rouses g \<Longrightarrow> \<exists>f \<in> set (fs[t := g]). rouses f"
  by (metis in_set_conv_nth length_list_update nth_list_update_eq nth_list_update_neq)

lemma waiters_okD:
  assumes "waiters_ok s" and "Sleeping \<in> set (frames s)"
  shows "length (bq_items (shared s)) \<le> helpers (frames s)"
    and "bq_stopped (shared s) \<Longrightarrow> \<exists>f \<in> set (frames s). rouses f"
  using assms by (auto simp: waiters_ok_def)

text \<open>Replacing a frame by one that helps and rouses no less, and that does not sleep.\<close>

lemma waiters_set:
  assumes ok: "waiters_ok s" and t: "t < length (frames s)" and f: "f \<noteq> Sleeping"
    and "frames s' = (frames s)[t := f]" and "length (bq_items (shared s')) + helps (frames s ! t) \<le> length (bq_items (shared s)) + helps f
      \<or> bq_items (shared s') = []"
    and "bq_stopped (shared s') \<Longrightarrow> rouses f \<or> bq_stopped (shared s) \<and> \<not> rouses (frames s ! t)"
  shows "waiters_ok s'"
proof (cases "Sleeping \<in> set (frames s)")
  case True
  note D = waiters_okD [OF ok True]
  have "length (bq_items (shared s')) \<le> helpers ((frames s)[t := f])"
    using helpers_update [OF t, of f] D(1) assms(5) by auto
  moreover have "\<exists>g \<in> set ((frames s)[t := f]). rouses g" if "bq_stopped (shared s')"
    using assms(6) [OF that] rouses_update [OF t D(2), of f] set_update_memI [OF t, of f] by blast
  ultimately show ?thesis by (simp add: waiters_ok_def assms(4))
next
  case False
  then show ?thesis using f assms(4) by (simp add: waiters_ok_def not_in_update)
qed

lemma waiters_statement:
  assumes ok: "waiters_ok s" and t: "t < length (frames s)"
    and "frame_ok bq_items bq_stopped bq_ready (frames s ! t) (shared s)"
    and b: "cond_section (frames s ! t) (shared s) = Some (f, q)"
  shows "waiters_ok ((set_frame t f s)\<lparr>shared := q, calls := calls s @ entry t f\<rparr>)"
proof (rule waiters_set [OF ok t, of f])
  show "f \<noteq> Sleeping" using b by (cases "(frames s ! t, shared s)" rule: cond_section.cases) (auto split: if_splits list.splits)
  show "length (bq_items (shared ((set_frame t f s)\<lparr>shared := q, calls := calls s @ entry t f\<rparr>))) + helps (frames s ! t) \<le>
      length (bq_items (shared s)) + helps f
    \<or> bq_items (shared ((set_frame t f s)\<lparr>shared := q, calls := calls s @ entry t f\<rparr>)) = []"
    using assms(3) b by (cases "(frames s ! t, shared s)" rule: cond_section.cases) (auto split: if_splits list.splits)
  show "bq_stopped (shared ((set_frame t f s)\<lparr>shared := q, calls := calls s @ entry t f\<rparr>)) \<Longrightarrow>
      rouses f \<or> bq_stopped (shared s) \<and> \<not> rouses (frames s ! t)"
    using assms(3) b by (cases "(frames s ! t, shared s)" rule: cond_section.cases) (auto split: if_splits list.splits)
qed (simp add: set_frame_def)

lemma waiters_step:
  assumes "cond_queue_step s s'" and inv: "cond_queue.lq_inv s" and ok: "waiters_ok s"
  shows "waiters_ok s'"
  using assms(1)
proof cases
  case (start t c)
  show ?thesis by (rule waiters_set [OF ok start(2), of "Locking c"]) (simp_all add: start set_frame_def)
next
  case (lock t c l)
  have f: "helps (Testing c) = helps (Locking c)" "\<not> rouses (Testing c)" by (cases c; simp)+
  show ?thesis
    by (rule waiters_set [OF ok lock(2), of "if mutex_holds l t then Testing c else Locking c"])
      (simp_all add: lock(1,3) f set_frame_def)
next
  case (statement t f q)
  then show ?thesis using waiters_statement [OF ok] cond_queue.lq_invD(3) [OF inv] by simp
next
  case (leave t c r n)
  have f: "helps (returned n :: 'a frame) = helps (Leaving c r n)" "rouses (returned n :: 'a frame) = rouses (Leaving c r n)"
    by (cases n; simp)+
  show ?thesis by (rule waiters_set [OF ok leave(2), of "returned n"]) (auto simp: leave(1,3) f set_frame_def)
next
  case (retry t)
  show ?thesis by (rule waiters_set [OF ok retry(2), of "Locking CallPop"]) (simp_all add: retry set_frame_def)
next
  case (sleep t)
  with cond_queue.lq_invD(3) [OF inv, of t] show ?thesis by (simp add: waiters_ok_def set_frame_def)
next
  case (notify_nobody t)
  then show ?thesis by (simp add: waiters_ok_def set_frame_def not_in_update)
next
  case (notify_one t u)
  have ne: "u \<noteq> t" using notify_one by auto
  have sl: "Sleeping \<in> set (frames s)" using notify_one nth_mem [of u "frames s"] by simp
  note D = waiters_okD [OF ok sl]
  let ?fs = "(frames s)[t := Free, u := Locking CallPop]"
  have "helpers ?fs = helpers (frames s)"
    using helpers_update [of t "frames s" Free] helpers_update [of u "(frames s)[t := Free]" "Locking CallPop"] notify_one ne
    by simp
  moreover have "\<exists>f \<in> set ?fs. rouses f" if "bq_stopped (shared s)"
  proof -
    have "\<exists>f \<in> set ((frames s)[t := Free]). rouses f"
      by (rule rouses_update [OF notify_one(2) D(2) [OF that]]) (simp add: notify_one(3))
    then show ?thesis
      by (intro rouses_update [of u "(frames s)[t := Free]"]) (simp_all add: notify_one ne ne [symmetric])
  qed
  ultimately show ?thesis using notify_one D by (simp add: waiters_ok_def set_frame_def)
next
  case (notify_all t)
  then have "Sleeping \<notin> set ((map wake (frames s))[t := Free])" by (intro not_in_update) simp_all
  with notify_all show ?thesis by (simp add: waiters_ok_def)
next
  case (spurious u)
  show ?thesis by (rule waiters_set [OF ok spurious(3), of "Locking CallPop"]) (simp_all add: spurious set_frame_def)
qed

lemma helpers_pos: "0 < helpers fs \<Longrightarrow> \<exists>f \<in> set fs. f \<noteq> Free \<and> f \<noteq> Sleeping"
  by (induction fs) (auto simp: helpers_def intro: ccontr)

interpretation cond_calls: live_sections mutex_step mutex_holds mutex_unlock "\<lambda>_. True"
  bq_push bq_pop bq_try_pop bq_shutdown bq_empty bq_items bq_stopped cond_section bq_ready waiters_ok
proof unfold_locales
  fix f :: "'a frame" and q f' q' and n :: nat
  assume "frame_ok bq_items bq_stopped bq_ready f q" "cond_section f q = Some (f', q')"
  then show "frame_cost n True f' + (if (bq_items q' \<noteq> [] \<or> bq_stopped q') \<and> bq_items q = [] \<and> \<not> bq_stopped q then 10 * n else 0)
      < frame_cost n True f"
    by (cases "(f, q)" rule: cond_section.cases) (auto split: if_splits list.splits)
next
  fix s s' :: "(mutex, 'a blocking_queue, 'a) locked_queue"
  assume "cond_queue_step s s'" "cond_queue.lq_inv s" "waiters_ok s"
  then show "waiters_ok s'" by (rule waiters_step)
next
  fix s :: "(mutex, 'a blocking_queue, 'a) locked_queue"
  assume "waiters_ok s" and sl: "Sleeping \<in> set (frames s)" and "bq_items (shared s) \<noteq> [] \<or> bq_stopped (shared s)"
  with waiters_okD [OF _ sl] have "0 < helpers (frames s) \<or> (\<exists>f \<in> set (frames s). rouses f)" by fastforce
  moreover have "rouses f \<Longrightarrow> f \<noteq> Free \<and> f \<noteq> Sleeping" for f :: "'a frame" by (cases f) simp_all
  ultimately show "\<exists>f \<in> set (frames s). f \<noteq> Free \<and> f \<noteq> Sleeping" using helpers_pos by blast
qed

end
