(* ===== verification/Locked_Properties.thy ===== *)
theory Locked_Properties
  imports Locked_Progress
begin

text \<open>
  What the blocking queues promise to any number of threads: every run of the members, statement by
  statement, is a run of whole operations, and the calls return.
\<close>

definition spin_queue_init :: "nat \<Rightarrow> (spin_lock, 'a spin_queue, 'a) locked_queue" where
  "spin_queue_init n = queue_init spin_init sq_new n"

definition cond_queue_init :: "nat \<Rightarrow> (mutex, 'a blocking_queue, 'a) locked_queue" where
  "cond_queue_init n = queue_init None bq_new n"

lemma spin_inv_init: "spin_inv spin_init"
  using spin_inv_reachable by blast

lemma spin_queue_inv: "spin_queue_step\<^sup>*\<^sup>* (spin_queue_init n) s \<Longrightarrow> spin_queue.lq_inv s"
  using spin_queue.locked.reachable spin_queue.lq_inv_init [OF spin_inv_init, of sq_new n]
  by (simp add: spin_queue_init_def spin_holds_def spin_init_def)

lemma cond_queue_inv: "cond_queue_step\<^sup>*\<^sup>* (cond_queue_init n) s \<Longrightarrow> cond_queue.lq_inv s"
  using cond_queue.locked.reachable cond_queue.lq_inv_init [of None bq_new n]
  by (simp add: cond_queue_init_def mutex_holds_def)

lemma spin_queue_extra: "spin_queue_step\<^sup>*\<^sup>* (spin_queue_init n) s \<Longrightarrow> none_waits s"
proof (induction rule: rtranclp_induct)
  case base
  then show ?case by (simp add: none_waits_def spin_queue_init_def queue_init_def)
next
  case (step s s')
  then show ?case using none_waits_step by blast
qed

lemma cond_queue_extra: "cond_queue_step\<^sup>*\<^sup>* (cond_queue_init n) s \<Longrightarrow> waiters_ok s"
proof (induction rule: rtranclp_induct)
  case base
  then show ?case by (simp add: waiters_ok_def cond_queue_init_def queue_init_def)
next
  case (step s s')
  then show ?case using waiters_step cond_queue_inv by blast
qed

lemma spin_stopped_step: "queue_step spin_lock_step spin_holds spin_unlock spin_section sp s s' \<Longrightarrow> sq_stopped (shared s) \<Longrightarrow> sq_stopped (shared s')"
proof (induction rule: queue_step.induct)
  case (statement t s f q)
  then show ?case
    by (cases "(frames s ! t, shared s)" rule: spin_section.cases) (auto split: if_splits list.splits)
qed (simp_all add: set_frame_def)

lemma cond_stopped_step: "queue_step mutex_step mutex_holds mutex_unlock cond_section sp s s' \<Longrightarrow> bq_stopped (shared s) \<Longrightarrow> bq_stopped (shared s')"
proof (induction rule: queue_step.induct)
  case (statement t s f q)
  then show ?case
    by (cases "(frames s ! t, shared s)" rule: cond_section.cases) (auto split: if_splits list.splits)
qed (simp_all add: set_frame_def)

lemma stays: "(\<And>s s'. step s s' \<Longrightarrow> P s \<Longrightarrow> P s') \<Longrightarrow> (finishing step)\<^sup>*\<^sup>* s s' \<Longrightarrow> P s \<Longrightarrow> P s'"
  by (rotate_tac, induction rule: rtranclp_induct) (auto simp: finishing_def)

text \<open>C26: the queue of the thread pool under its spin lock, called by any number of threads, with one step
  per access to the lock and per statement under it. Every run is a run of whole operations, one at a
  time; what a thread is about to return is what its operation yields there. The items pushed before the
  first \<^verbatim>\<open>shutdown\<close> are the items handed out so far followed by those in the queue, in order,
  at most one thread is inside at a time, and \<^verbatim>\<open>front\<close> is never called on an empty container.\<close>

theorem spin_queue_atomic:
  assumes "spin_queue_step\<^sup>*\<^sup>* (spin_queue_init n) s"
  shows "(atomic_step spin_call)\<^sup>*\<^sup>* (sq_new, []) (shared s, calls s) \<and>
    (\<forall>t < length (frames s). \<forall>c r m. frames s ! t = Leaving c r m \<longrightarrow>
       (\<exists>es. filter (\<lambda>e. fst e = t) (calls s) = es @ [(t, c, r)])) \<and>
    pushed_log (calls s) = taken_log (calls s) @ sq_items (shared s) \<and>
    (\<forall>t < length (frames s). \<forall>u < length (frames s). in_section (frames s ! t) \<and> in_section (frames s ! u) \<longrightarrow> t = u) \<and>
    (\<forall>c. Fronting c \<in> set (frames s) \<longrightarrow> sq_items (shared s) \<noteq> [])"
proof (intro conjI)
  note inv = spin_queue_inv [OF assms]
  show atomic: "(atomic_step spin_call)\<^sup>*\<^sup>* (sq_new, []) (shared s, calls s)"
    using spin_queue.locked.refines [OF assms spin_queue_inv [OF rtranclp.rtrancl_refl]]
    by (simp add: spin_queue.lq_abs_def spin_queue_init_def queue_init_def spin_call_def)
  show "\<forall>t < length (frames s). \<forall>c r m. frames s ! t = Leaving c r m \<longrightarrow>
       (\<exists>es. filter (\<lambda>e. fst e = t) (calls s) = es @ [(t, c, r)])"
    using spin_queue.lq_invD(4) [OF inv] by blast
  show "pushed_log (calls s) = taken_log (calls s) @ sq_items (shared s)"
    using sq.whole_calls [OF atomic [unfolded spin_call_def]] by (simp add: sq_new_def)
  show "\<forall>t < length (frames s). \<forall>u < length (frames s). in_section (frames s ! t) \<and> in_section (frames s ! u) \<longrightarrow> t = u"
    using spin_queue.one_inside [OF inv] by blast
  show "\<forall>c. Fronting c \<in> set (frames s) \<longrightarrow> sq_items (shared s) \<noteq> []"
    using spin_queue.lq_invD(3) [OF inv] by (metis frame_ok.simps(2) in_set_conv_nth)
qed

theorem cond_queue_atomic:
  assumes "cond_queue_step\<^sup>*\<^sup>* (cond_queue_init n) s"
  shows "(atomic_step cond_call)\<^sup>*\<^sup>* (bq_new, []) (shared s, calls s) \<and>
    (\<forall>t < length (frames s). \<forall>c r m. frames s ! t = Leaving c r m \<longrightarrow>
       (\<exists>es. filter (\<lambda>e. fst e = t) (calls s) = es @ [(t, c, r)])) \<and>
    pushed_log (calls s) = taken_log (calls s) @ bq_items (shared s) \<and>
    (\<forall>c. Fronting c \<in> set (frames s) \<longrightarrow> bq_items (shared s) \<noteq> [])"
proof (intro conjI)
  note inv = cond_queue_inv [OF assms]
  show atomic: "(atomic_step cond_call)\<^sup>*\<^sup>* (bq_new, []) (shared s, calls s)"
    using cond_queue.locked.refines [OF assms cond_queue_inv [OF rtranclp.rtrancl_refl]]
    by (simp add: cond_queue.lq_abs_def cond_queue_init_def queue_init_def cond_call_def)
  show "\<forall>t < length (frames s). \<forall>c r m. frames s ! t = Leaving c r m \<longrightarrow>
       (\<exists>es. filter (\<lambda>e. fst e = t) (calls s) = es @ [(t, c, r)])"
    using cond_queue.lq_invD(4) [OF inv] by blast
  show "pushed_log (calls s) = taken_log (calls s) @ bq_items (shared s)"
    using bq.whole_calls [OF atomic [unfolded cond_call_def]] by (simp add: bq_new_def)
  show "\<forall>c. Fronting c \<in> set (frames s) \<longrightarrow> bq_items (shared s) \<noteq> []"
    using cond_queue.lq_invD(3) [OF inv] by (metis frame_ok.simps(2) in_set_conv_nth)
qed

theorem spin_queue_calls_return:
  assumes "spin_queue_step\<^sup>*\<^sup>* (spin_queue_init n) s"
  shows "\<exists>s'. (finishing spin_own_step)\<^sup>*\<^sup>* s s' \<and>
    (\<forall>f \<in> set (frames s'). f = Free \<or> f = Locking CallPop \<and> sq_items (shared s') = [] \<and> \<not> sq_stopped (shared s))"
proof -
  have inv: "spin_queue.lq_inv s \<and> none_waits s" using spin_queue_inv [OF assms] spin_queue_extra [OF assms] by blast
  from spin_calls.completing.reaches_goal [OF inv] obtain s' where
    s': "(finishing spin_own_step)\<^sup>*\<^sup>* s s'" "none_waits s'" "calls_done (sq_items (shared s') \<noteq> [] \<or> sq_stopped (shared s')) (frames s')" by blast
  have "sq_stopped (shared s) \<Longrightarrow> sq_stopped (shared s')"
    by (rule stays [OF spin_stopped_step s'(1)])
  with s' show ?thesis by (intro exI [of _ s']) (auto simp: calls_done_def none_waits_def)
qed

text \<open>C31: the calls of the queue with the condition variable return. Wherever any number of threads have
  got to, with threads woken for no reason on the way, all the calls in progress can be completed
  without anybody starting another and without any thread waking by itself, except that a
  \<^verbatim>\<open>pop\<close> may stay when the queue is empty and was not shut down: the notifications of \<^verbatim>\<open>push\<close> and
  \<^verbatim>\<open>shutdown\<close> alone get every thread out that has something to return.\<close>

theorem cond_queue_calls_return:
  assumes "cond_queue_step\<^sup>*\<^sup>* (cond_queue_init n) s"
  shows "\<exists>s'. (finishing cond_own_step)\<^sup>*\<^sup>* s s' \<and>
    (\<forall>f \<in> set (frames s'). f = Free \<or>
       (f = Sleeping \<or> f = Locking CallPop) \<and> bq_items (shared s') = [] \<and> \<not> bq_stopped (shared s))"
proof -
  have inv: "cond_queue.lq_inv s \<and> waiters_ok s" using cond_queue_inv [OF assms] cond_queue_extra [OF assms] by blast
  from cond_calls.completing.reaches_goal [OF inv] obtain s' where
    s': "(finishing cond_own_step)\<^sup>*\<^sup>* s s'" "calls_done (bq_items (shared s') \<noteq> [] \<or> bq_stopped (shared s')) (frames s')" by blast
  have "bq_stopped (shared s) \<Longrightarrow> bq_stopped (shared s')"
    by (rule stays [OF cond_stopped_step s'(1)])
  with s' show ?thesis by (intro exI [of _ s']) (auto simp: calls_done_def)
qed

section \<open>Runs\<close>

text \<open>One push, up to its unlocking; a push that finds a thread asleep in \<^verbatim>\<open>pop\<close>.\<close>

definition spin_pushed :: "(spin_lock, nat spin_queue, nat) locked_queue" where
  "spin_pushed = \<lparr>queue_lock = (set_locker 0 Inside spin_init)\<lparr>locked := True\<rparr>,
     shared = sq_push 7 sq_new, frames = [Leaving (CallPush 7) NoAnswer Nobody], calls = [(0, CallPush 7, NoAnswer)]\<rparr>"

definition pop_sleeps :: "(mutex, nat blocking_queue, nat) locked_queue" where
  "pop_sleeps = \<lparr>queue_lock = None, shared = bq_new, frames = [Sleeping, Free], calls = []\<rparr>"

definition push_leaves :: "(mutex, nat blocking_queue, nat) locked_queue" where
  "push_leaves = \<lparr>queue_lock = Some 1, shared = bq_push 7 bq_new,
     frames = [Sleeping, Leaving (CallPush 7) NoAnswer OneWaiter], calls = [(1, CallPush 7, NoAnswer)]\<rparr>"

lemma spin_pushed_reachable: "spin_queue_step\<^sup>*\<^sup>* (spin_queue_init 1) spin_pushed"
proof -
  let ?c = "CallPush (7 :: nat)"
  let ?s = "\<lambda>l f q es. \<lparr>queue_lock = l, shared = q, frames = [f], calls = es\<rparr>"
  let ?l1 = "set_locker 0 (Looking 0) spin_init" and ?l2 = "set_locker 0 (Trying 0) spin_init"
  let ?l3 = "(set_locker 0 Inside spin_init)\<lparr>locked := True\<rparr>"
  have l1: "spin_lock_step 0 spin_init ?l1"
    using enter [of spin_init 0] by (simp add: spin_lock_step_def spin_init_def)
  have l2: "spin_lock_step 0 ?l1 ?l2"
    using look_free [of ?l1 0 0] by (simp add: spin_lock_step_def spin_init_def set_locker_def)
  have l3: "spin_lock_step 0 ?l2 ?l3"
    using exchange_won [of ?l2 0 0] by (simp add: spin_lock_step_def spin_init_def set_locker_def)
  have "spin_queue_step (spin_queue_init 1) (?s spin_init (Locking ?c) sq_new [])"
    using start [of 0 "spin_queue_init 1" _ _ _ _ _ ?c] by (simp add: spin_queue_init_def queue_init_def set_frame_def)
  moreover have "spin_queue_step (?s spin_init (Locking ?c) sq_new []) (?s ?l1 (Locking ?c) sq_new [])"
    using lock [of 0 "?s spin_init (Locking ?c) sq_new []" ?c spin_lock_step ?l1 spin_holds] l1
    by (simp add: set_frame_def spin_holds_def)
  moreover have "spin_queue_step (?s ?l1 (Locking ?c) sq_new []) (?s ?l2 (Locking ?c) sq_new [])"
    using lock [of 0 "?s ?l1 (Locking ?c) sq_new []" ?c spin_lock_step ?l2 spin_holds] l2
    by (simp add: set_frame_def spin_holds_def)
  moreover have "spin_queue_step (?s ?l2 (Locking ?c) sq_new []) (?s ?l3 (Testing ?c) sq_new [])"
    using lock [of 0 "?s ?l2 (Locking ?c) sq_new []" ?c spin_lock_step ?l3 spin_holds] l3
    by (simp add: set_frame_def spin_holds_def)
  moreover have "spin_queue_step (?s ?l3 (Testing ?c) sq_new []) (?s ?l3 (Adding 7) sq_new [])"
    using statement [of 0 "?s ?l3 (Testing ?c) sq_new []" spin_section "Adding 7" sq_new] by (simp add: set_frame_def sq_new_def)
  moreover have "spin_queue_step (?s ?l3 (Adding 7) sq_new []) spin_pushed"
    using statement [of 0 "?s ?l3 (Adding 7) sq_new []" spin_section "Leaving ?c NoAnswer Nobody" "sq_push 7 sq_new"]
    by (simp add: set_frame_def sq_new_def sq_push_def spin_pushed_def)
  ultimately show ?thesis by (meson converse_rtranclp_into_rtranclp rtranclp.rtrancl_refl)
qed

lemma pop_sleeps_reachable: "cond_queue_step\<^sup>*\<^sup>* (cond_queue_init 2) pop_sleeps"
proof -
  let ?s = "\<lambda>l f. \<lparr>queue_lock = l, shared = bq_new, frames = [f, Free], calls = []\<rparr>
    :: (mutex, nat blocking_queue, nat) locked_queue"
  have "cond_queue_step (cond_queue_init 2) (?s None (Locking CallPop))"
    using start [of 0 "cond_queue_init 2" _ _ _ _ _ CallPop]
    by (simp add: cond_queue_init_def queue_init_def set_frame_def numeral_2_eq_2)
  moreover have "cond_queue_step (?s None (Locking CallPop)) (?s (Some 0) (Testing CallPop))"
    using lock [of 0 "?s None (Locking CallPop)" CallPop mutex_step "Some 0" mutex_holds]
    by (simp add: set_frame_def mutex_holds_def mutex_step_def)
  moreover have "cond_queue_step (?s (Some 0) (Testing CallPop)) (?s (Some 0) Waiting)"
    using statement [of 0 "?s (Some 0) (Testing CallPop)" cond_section Waiting bq_new] by (simp add: set_frame_def bq_new_def)
  moreover have "cond_queue_step (?s (Some 0) Waiting) pop_sleeps"
    using sleep [of 0 "?s (Some 0) Waiting" _ _ mutex_unlock]
    by (simp add: set_frame_def pop_sleeps_def mutex_unlock_def)
  ultimately show ?thesis by (meson converse_rtranclp_into_rtranclp rtranclp.rtrancl_refl)
qed

lemma push_leaves_reachable: "cond_queue_step\<^sup>*\<^sup>* (cond_queue_init 2) push_leaves"
proof -
  let ?c = "CallPush (7 :: nat)"
  let ?s = "\<lambda>l f. \<lparr>queue_lock = l, shared = bq_new, frames = [Sleeping, f], calls = []\<rparr>"
  have "cond_queue_step pop_sleeps (?s None (Locking ?c))"
    using start [of 1 pop_sleeps _ _ _ _ _ ?c] by (simp add: pop_sleeps_def set_frame_def)
  moreover have "cond_queue_step (?s None (Locking ?c)) (?s (Some (Suc 0)) (Testing ?c))"
    using lock [of 1 "?s None (Locking ?c)" ?c mutex_step "Some (Suc 0)" mutex_holds]
    by (simp add: set_frame_def mutex_holds_def mutex_step_def)
  moreover have "cond_queue_step (?s (Some (Suc 0)) (Testing ?c)) (?s (Some (Suc 0)) (Adding 7))"
    using statement [of 1 "?s (Some (Suc 0)) (Testing ?c)" cond_section "Adding 7" bq_new] by (simp add: set_frame_def bq_new_def)
  moreover have "cond_queue_step (?s (Some (Suc 0)) (Adding 7)) push_leaves"
    using statement [of 1 "?s (Some (Suc 0)) (Adding 7)" cond_section "Leaving ?c NoAnswer OneWaiter" "bq_push 7 bq_new"]
    by (simp add: set_frame_def bq_new_def bq_push_def push_leaves_def)
  ultimately have "cond_queue_step\<^sup>*\<^sup>* pop_sleeps push_leaves"
    by (meson converse_rtranclp_into_rtranclp rtranclp.rtrancl_refl)
  with pop_sleeps_reachable show ?thesis by (rule rtranclp_trans)
qed

theorem spin_queue_atomic_witness:
  "(atomic_step spin_call)\<^sup>*\<^sup>* (sq_new, []) (sq_push 7 sq_new, [(0, CallPush (7 :: nat), NoAnswer)])"
  using spin_queue_atomic [OF spin_pushed_reachable] by (simp add: spin_pushed_def)

theorem cond_queue_atomic_witness:
  "(atomic_step cond_call)\<^sup>*\<^sup>* (bq_new, []) (bq_push 7 bq_new, [(1, CallPush (7 :: nat), NoAnswer)])"
  using cond_queue_atomic [OF push_leaves_reachable] by (simp add: push_leaves_def)

theorem spin_queue_calls_return_witness:
  "\<exists>s'. spin_own_step\<^sup>*\<^sup>* spin_pushed s' \<and>
    (\<forall>f \<in> set (frames s'). f = Free \<or> f = Locking CallPop \<and> sq_items (shared s') = [])"
  using spin_queue_calls_return [OF spin_pushed_reachable] finishing_run by blast

theorem cond_queue_calls_return_witness:
  "\<exists>s'. cond_own_step\<^sup>*\<^sup>* push_leaves s' \<and>
    (\<forall>f \<in> set (frames s'). f = Free \<or> (f = Sleeping \<or> f = Locking CallPop) \<and> bq_items (shared s') = [])"
  using cond_queue_calls_return [OF push_leaves_reachable] finishing_run by blast

end
