(* ===== verification/Wakeup.thy ===== *)
theory Wakeup
  imports Prelude
begin

text \<open>
  The wake-up protocol between the threads that post tasks and the loop thread of
  \<^verbatim>\<open>EpollContext.cpp\<close>, one atomic access per step: the flag \<^verbatim>\<open>awake\<close>, the
  counter of the wake-up descriptor, and the number of tasks in the queue.

  \<^verbatim>\<open>drainTasks\<close> clears the flag with a release store and then loads the queue's indices.
  Neither the C++ memory model nor an x86 processor orders a store before a later load: the store may
  stay in the store buffer of the loop thread until after the load. The relation has both readings;
  its first argument says whether there is a store buffer.
\<close>

section \<open>Threads and steps\<close>

text \<open>
  A posting thread: outside, after a push (of which \<^verbatim>\<open>postTaskBatch\<close> does several in a row), and
  after it has turned the flag on.
\<close>

datatype poster = WIdle | WPushed | WMustWake

text \<open>The loop thread: in \<^verbatim>\<open>epoll_wait\<close>, woken, draining, about to clear the flag, past
  it, with an item seen, about to write to the wake-up descriptor itself.\<close>

datatype looper = LSleep | LRead | LDrain | LClear | LStored | LSawItem | LMustWake

record wake_state =
  pending_tasks :: nat
  flag :: bool
  buffered :: bool
  eventfd :: nat
  posters :: "nat \<Rightarrow> poster"
  looper_at :: looper

inductive wake_step :: "bool \<Rightarrow> wake_state \<Rightarrow> wake_state \<Rightarrow> bool" for tso :: bool where
  push: "posters s p \<in> {WIdle, WPushed} \<Longrightarrow>
    wake_step tso s (s\<lparr>posters := (posters s)(p := WPushed), pending_tasks := pending_tasks s + 1\<rparr>)"
| post_seen: "posters s p = WPushed \<Longrightarrow> flag s \<Longrightarrow>
    wake_step tso s (s\<lparr>posters := (posters s)(p := WIdle)\<rparr>)"
| post_set: "posters s p = WPushed \<Longrightarrow> \<not> flag s \<Longrightarrow>
    wake_step tso s (s\<lparr>posters := (posters s)(p := WMustWake), flag := True\<rparr>)"
| post_write: "posters s p = WMustWake \<Longrightarrow>
    wake_step tso s (s\<lparr>posters := (posters s)(p := WIdle), eventfd := eventfd s + 1\<rparr>)"
| wait_return: "looper_at s = LSleep \<Longrightarrow> 0 < eventfd s \<Longrightarrow> wake_step tso s (s\<lparr>looper_at := LRead\<rparr>)"
| read_eventfd: "looper_at s = LRead \<Longrightarrow> wake_step tso s (s\<lparr>eventfd := 0, looper_at := LDrain\<rparr>)"
| pop_task: "looper_at s = LDrain \<Longrightarrow> 0 < pending_tasks s \<Longrightarrow>
    wake_step tso s (s\<lparr>pending_tasks := pending_tasks s - 1\<rparr>)"
| pop_fails: "looper_at s = LDrain \<Longrightarrow> pending_tasks s = 0 \<Longrightarrow> wake_step tso s (s\<lparr>looper_at := LClear\<rparr>)"
| store: "looper_at s = LClear \<Longrightarrow> wake_step tso s (s\<lparr>looper_at := LStored, flag := False\<rparr>)"
| store_buffered: "looper_at s = LClear \<Longrightarrow> tso \<Longrightarrow> wake_step tso s (s\<lparr>looper_at := LStored, buffered := True\<rparr>)"
| flush: "buffered s \<Longrightarrow> wake_step tso s (s\<lparr>flag := False, buffered := False\<rparr>)"
| look_empty: "looper_at s = LStored \<Longrightarrow> pending_tasks s = 0 \<Longrightarrow> wake_step tso s (s\<lparr>looper_at := LSleep\<rparr>)"
| look_item: "looper_at s = LStored \<Longrightarrow> 0 < pending_tasks s \<Longrightarrow> wake_step tso s (s\<lparr>looper_at := LSawItem\<rparr>)"
| loop_seen: "looper_at s = LSawItem \<Longrightarrow> \<not> buffered s \<Longrightarrow> flag s \<Longrightarrow> wake_step tso s (s\<lparr>looper_at := LSleep\<rparr>)"
| loop_set: "looper_at s = LSawItem \<Longrightarrow> \<not> buffered s \<Longrightarrow> \<not> flag s \<Longrightarrow>
    wake_step tso s (s\<lparr>looper_at := LMustWake, flag := True\<rparr>)"
| loop_write: "looper_at s = LMustWake \<Longrightarrow>
    wake_step tso s (s\<lparr>looper_at := LSleep, eventfd := eventfd s + 1\<rparr>)"

definition wake_init :: wake_state where
  "wake_init = \<lparr>pending_tasks = 0, flag = False, buffered = False, eventfd = 0, posters = (\<lambda>_. WIdle), looper_at = LSleep\<rparr>"

section \<open>Without a store buffer nothing is lost\<close>

text \<open>A raised flag means that a wake-up is under way or that the loop has yet to look; tasks in the
  queue of a sleeping loop have a wake-up or a poster behind them.\<close>

definition waking :: "wake_state \<Rightarrow> bool" where
  "waking s \<longleftrightarrow> 0 < eventfd s \<or> (\<exists>p. posters s p = WMustWake)"

definition wake_inv :: "wake_state \<Rightarrow> bool" where
  "wake_inv s \<longleftrightarrow> \<not> buffered s \<and>
     (flag s \<longrightarrow> waking s \<or> looper_at s \<in> {LRead, LDrain, LClear, LMustWake}) \<and>
     (0 < pending_tasks s \<and> looper_at s = LSleep \<longrightarrow> waking s \<or> (\<exists>p. posters s p = WPushed))"

lemma waking_upd:
  assumes "waking s" and "posters s p \<noteq> WMustWake" and "posters s' = (posters s)(p := w)" and "eventfd s' = eventfd s"
  shows "waking s'"
proof (cases "0 < eventfd s")
  case False
  with assms(1) obtain q where "posters s q = WMustWake" by (auto simp: waking_def)
  with assms(2,3) show ?thesis by (auto simp: waking_def intro!: exI [of _ q])
qed (simp add: waking_def assms(4))

lemma wake_inv_step: "wake_step False s s' \<Longrightarrow> wake_inv s \<Longrightarrow> wake_inv s'"
proof (induction rule: wake_step.induct)
  case (push s p)
  let ?s = "s\<lparr>posters := (posters s)(p := WPushed), pending_tasks := pending_tasks s + 1\<rparr>"
  have "waking ?s" if "waking s" using push(1) by (intro waking_upd [OF that, of p]) auto
  with push(2) show ?case by (auto simp: wake_inv_def)
next
  case (post_seen s p)
  have "waking (s\<lparr>posters := (posters s)(p := WIdle)\<rparr>)" if "waking s"
    using post_seen(1) by (intro waking_upd [OF that, of p]) simp_all
  with post_seen show ?case by (auto simp: wake_inv_def)
qed (auto simp: wake_inv_def waking_def)

lemma wake_inv_reachable: "(wake_step False)\<^sup>*\<^sup>* wake_init s \<Longrightarrow> wake_inv s"
proof (induction rule: rtranclp_induct)
  case base
  then show ?case by (simp add: wake_inv_def wake_init_def)
next
  case (step s s')
  then show ?case using wake_inv_step by blast
qed

section \<open>One round of posting and draining\<close>

text \<open>The wake-up states of the loop are reachable: one task is posted, run, and the flag cleared.\<close>

definition woken :: wake_state where
  "woken = wake_init\<lparr>flag := True, looper_at := LClear\<rparr>"

lemma woken_reachable: "(wake_step tso)\<^sup>*\<^sup>* wake_init woken"
proof -
  let ?s0 = wake_init
  let ?s1 = "?s0\<lparr>posters := (posters ?s0)(0 := WPushed), pending_tasks := 1\<rparr>"
  let ?s2 = "?s1\<lparr>posters := (posters ?s1)(0 := WMustWake), flag := True\<rparr>"
  let ?s3 = "?s2\<lparr>posters := (posters ?s2)(0 := WIdle), eventfd := 1\<rparr>"
  let ?s4 = "?s3\<lparr>looper_at := LRead\<rparr>"
  let ?s5 = "?s4\<lparr>eventfd := 0, looper_at := LDrain\<rparr>"
  let ?s6 = "?s5\<lparr>pending_tasks := 0\<rparr>"
  have "wake_step tso ?s0 ?s1" using push [of ?s0 0 tso] by (simp add: wake_init_def)
  moreover have "wake_step tso ?s1 ?s2" using post_set [of ?s1 0 tso] by (simp add: wake_init_def)
  moreover have "wake_step tso ?s2 ?s3" using post_write [of ?s2 0 tso] by (simp add: wake_init_def)
  moreover have "wake_step tso ?s3 ?s4" using wait_return [of ?s3 tso] by (simp add: wake_init_def)
  moreover have "wake_step tso ?s4 ?s5" using read_eventfd [of ?s4 tso] by simp
  moreover have "wake_step tso ?s5 ?s6" using pop_task [of ?s5 tso] by simp
  moreover have "wake_step tso ?s6 woken"
    using pop_fails [of ?s6 tso] by (simp add: woken_def wake_init_def fun_upd_idem)
  ultimately show ?thesis
    by (meson converse_rtranclp_into_rtranclp rtranclp.rtrancl_refl)
qed

end
