(* ===== verification/Loop_Life.thy ===== *)
theory Loop_Life
  imports Wakeup Simulation "HOL-Library.Sublist"
begin

text \<open>
  The life of an event loop thread, \<^verbatim>\<open>start\<close>, \<^verbatim>\<open>stop\<close>, \<^verbatim>\<open>join\<close> and
  \<^verbatim>\<open>run\<close> of \<^verbatim>\<open>EventLoopThread\<close>, with the threads that post tasks and the threads that stop or
  join it, one access to the shared members per step. A push or pop of the queue is one step, and the flag is
  cleared in program order, as in \<open>Wakeup\<close>. Tasks and callbacks return.
\<close>

section \<open>Threads and steps\<close>

text \<open>
  The loop thread: not started, between two events of a batch or before the test of \<^verbatim>\<open>running_\<close>
  (\<open>Heading\<close>), in \<^verbatim>\<open>epoll_wait\<close> or handling a wake-up (\<open>Within\<close>), in a callback of a socket,
  running what is left after the loop, ended. An error of \<^verbatim>\<open>epoll_wait\<close> other than an interrupt,
  which its documentation rules out for valid descriptors, is not a step.
\<close>

datatype life_pc = Unborn | Heading | Within looper | Callback | Closing | Gone

text \<open>
  A thread that calls: outside, in \<^verbatim>\<open>stop\<close> after its exchange and after its write, in
  \<^verbatim>\<open>std::thread::join\<close>, or left with an exception of it. Thread 0 is the loop thread itself.
\<close>

datatype caller = Outside | Stopped | Written | Joining | Raised

record 'a life =
  l_running :: bool
  l_joinable :: bool
  l_flag :: bool
  l_eventfd :: nat
  l_queue :: "'a list"
  l_posters :: "nat \<Rightarrow> poster"
  l_callers :: "nat \<Rightarrow> caller"
  l_pc :: life_pc
  l_posted :: "'a list"
  l_ran :: "'a list"
  l_before :: "'a list"

definition at_poster :: "nat \<Rightarrow> poster \<Rightarrow> 'a life \<Rightarrow> 'a life" where
  "at_poster p w s = s\<lparr>l_posters := (l_posters s)(p := w)\<rparr>"

definition at_caller :: "nat \<Rightarrow> caller \<Rightarrow> 'a life \<Rightarrow> 'a life" where
  "at_caller c w s = s\<lparr>l_callers := (l_callers s)(c := w)\<rparr>"

text \<open>
  The first argument says whether the program blocks in \<^verbatim>\<open>run(true)\<close>. A thread that joins itself, or
  that joins what another thread has joined, gets an exception. A loop can be started again when its thread
  has been joined; while the thread is joinable, \<^verbatim>\<open>start\<close> assigns to a joinable \<^verbatim>\<open>std::thread\<close>, which
  ends the program, and is not a step. \<^verbatim>\<open>start\<close> is one step: nobody stops a loop while another thread
  is starting it.
\<close>

inductive life_step :: "bool \<Rightarrow> 'a life \<Rightarrow> 'a life \<Rightarrow> bool" for blocking :: bool where
  post: "l_posters s p = WIdle \<Longrightarrow> length (l_queue s) + 1 < 512 \<Longrightarrow> life_step blocking s
    ((at_poster p WPushed s)\<lparr>l_queue := l_queue s @ [x], l_posted := l_posted s @ [x]\<rparr>)"
| post_awake: "l_posters s p = WPushed \<Longrightarrow> l_flag s \<Longrightarrow> life_step blocking s (at_poster p WIdle s)"
| post_asleep: "l_posters s p = WPushed \<Longrightarrow> \<not> l_flag s \<Longrightarrow>
    life_step blocking s ((at_poster p WMustWake s)\<lparr>l_flag := True\<rparr>)"
| post_wakes: "l_posters s p = WMustWake \<Longrightarrow>
    life_step blocking s ((at_poster p WIdle s)\<lparr>l_eventfd := l_eventfd s + 1\<rparr>)"
| start: "\<not> l_running s \<Longrightarrow> \<not> l_joinable s \<Longrightarrow> life_step blocking s (s\<lparr>l_pc := Heading, l_running := True, l_joinable := True\<rparr>)"
| goes_on: "l_pc s = Heading \<Longrightarrow> l_running s \<Longrightarrow> life_step blocking s (s\<lparr>l_pc := Within LSleep\<rparr>)"
| leaves: "l_pc s = Heading \<Longrightarrow> \<not> l_running s \<Longrightarrow> life_step blocking s (s\<lparr>l_pc := Closing\<rparr>)"
| event: "l_pc s = Within LSleep \<Longrightarrow> life_step blocking s (s\<lparr>l_pc := Callback\<rparr>)"
| next_event: "l_pc s = Heading \<Longrightarrow> life_step blocking s (s\<lparr>l_pc := Callback\<rparr>)"
| next_wakes: "l_pc s = Heading \<Longrightarrow> 0 < l_eventfd s \<Longrightarrow> life_step blocking s (s\<lparr>l_pc := Within LRead\<rparr>)"
| handled: "l_pc s = Callback \<Longrightarrow> l_callers s 0 = Outside \<Longrightarrow> life_step blocking s (s\<lparr>l_pc := Heading\<rparr>)"
| wakes: "l_pc s = Within LSleep \<Longrightarrow> 0 < l_eventfd s \<Longrightarrow> life_step blocking s (s\<lparr>l_pc := Within LRead\<rparr>)"
| reads: "l_pc s = Within LRead \<Longrightarrow> life_step blocking s (s\<lparr>l_pc := Within LDrain, l_eventfd := 0\<rparr>)"
| runs: "l_pc s = Within LDrain \<Longrightarrow> l_callers s 0 = Outside \<Longrightarrow> l_queue s = x # q \<Longrightarrow>
    life_step blocking s (s\<lparr>l_queue := q, l_ran := l_ran s @ [x]\<rparr>)"
| drained: "l_pc s = Within LDrain \<Longrightarrow> l_callers s 0 = Outside \<Longrightarrow> l_queue s = [] \<Longrightarrow>
    life_step blocking s (s\<lparr>l_pc := Within LClear\<rparr>)"
| clears: "l_pc s = Within LClear \<Longrightarrow> life_step blocking s (s\<lparr>l_pc := Within LStored, l_flag := False\<rparr>)"
| sees_none: "l_pc s = Within LStored \<Longrightarrow> l_queue s = [] \<Longrightarrow> life_step blocking s (s\<lparr>l_pc := Heading\<rparr>)"
| sees_item: "l_pc s = Within LStored \<Longrightarrow> l_queue s \<noteq> [] \<Longrightarrow> life_step blocking s (s\<lparr>l_pc := Within LSawItem\<rparr>)"
| finds_awake: "l_pc s = Within LSawItem \<Longrightarrow> l_flag s \<Longrightarrow> life_step blocking s (s\<lparr>l_pc := Heading\<rparr>)"
| finds_asleep: "l_pc s = Within LSawItem \<Longrightarrow> \<not> l_flag s \<Longrightarrow>
    life_step blocking s (s\<lparr>l_pc := Within LMustWake, l_flag := True\<rparr>)"
| wakes_itself: "l_pc s = Within LMustWake \<Longrightarrow>
    life_step blocking s (s\<lparr>l_pc := Heading, l_eventfd := l_eventfd s + 1\<rparr>)"
| runs_left: "l_pc s = Closing \<Longrightarrow> l_callers s 0 = Outside \<Longrightarrow> l_queue s = x # q \<Longrightarrow>
    life_step blocking s (s\<lparr>l_queue := q, l_ran := l_ran s @ [x]\<rparr>)"
| ends: "l_pc s = Closing \<Longrightarrow> l_callers s 0 = Outside \<Longrightarrow> l_queue s = [] \<Longrightarrow> life_step blocking s (s\<lparr>l_pc := Gone\<rparr>)"
| stop: "l_callers s c = Outside \<Longrightarrow> l_running s \<Longrightarrow> (c = 0 \<Longrightarrow> l_pc s \<in> {Within LDrain, Callback}) \<Longrightarrow>
    life_step blocking s ((at_caller c Stopped s)\<lparr>l_running := False, l_before := l_posted s\<rparr>)"
| stop_writes: "l_callers s c = Stopped \<Longrightarrow>
    life_step blocking s ((at_caller c Written s)\<lparr>l_eventfd := l_eventfd s + 1\<rparr>)"
| stop_joins: "l_callers s c = Written \<Longrightarrow> l_joinable s \<Longrightarrow>
    life_step blocking s (at_caller c (if c = 0 then Raised else Joining) s)"
| stop_done: "l_callers s c = Written \<Longrightarrow> \<not> l_joinable s \<Longrightarrow> life_step blocking s (at_caller c Outside s)"
| run_joins: "blocking \<Longrightarrow> l_callers s c = Outside \<Longrightarrow> c \<noteq> 0 \<Longrightarrow> l_pc s \<noteq> Unborn \<Longrightarrow>
    life_step blocking s (at_caller c (if l_joinable s then Joining else Raised) s)"
| joined: "l_callers s c = Joining \<Longrightarrow> l_pc s = Gone \<Longrightarrow>
    life_step blocking s ((at_caller c (if l_joinable s then Outside else Raised) s)\<lparr>l_joinable := False\<rparr>)"

definition life_init :: "'a life" where
  "life_init = \<lparr>l_running = False, l_joinable = False, l_flag = False, l_eventfd = 0, l_queue = [],
     l_posters = (\<lambda>_. WIdle), l_callers = (\<lambda>_. Outside), l_pc = Unborn, l_posted = [], l_ran = [], l_before = []\<rparr>"

lemma at_simps [simp]:
  "l_running (at_poster p w s) = l_running s" "l_joinable (at_poster p w s) = l_joinable s"
  "l_eventfd (at_poster p w s) = l_eventfd s" "l_queue (at_poster p w s) = l_queue s" "l_callers (at_poster p w s) = l_callers s"
  "l_pc (at_poster p w s) = l_pc s" "l_posted (at_poster p w s) = l_posted s" "l_ran (at_poster p w s) = l_ran s"
  "l_before (at_poster p w s) = l_before s"
  "l_running (at_caller c v s) = l_running s" "l_joinable (at_caller c v s) = l_joinable s"
  "l_eventfd (at_caller c v s) = l_eventfd s" "l_queue (at_caller c v s) = l_queue s"
  "l_callers (at_caller c v s) = (l_callers s)(c := v)"
  "l_pc (at_caller c v s) = l_pc s" "l_posted (at_caller c v s) = l_posted s" "l_ran (at_caller c v s) = l_ran s"
  "l_before (at_caller c v s) = l_before s"
  by (simp_all add: at_poster_def at_caller_def)

section \<open>Invariants\<close>

text \<open>The tasks: run in the order in which they were posted; a thread that has ended has run all that were
  posted before it was told to stop.\<close>

definition tasks_inv :: "'a life \<Rightarrow> bool" where
  "tasks_inv s \<longleftrightarrow> l_posted s = l_ran s @ l_queue s \<and> prefix (l_before s) (l_posted s) \<and>
     (l_pc s = Gone \<longrightarrow> prefix (l_before s) (l_ran s))"

definition pc_inv :: "'a life \<Rightarrow> bool" where
  "pc_inv s \<longleftrightarrow> (l_pc s \<in> {Unborn, Closing, Gone} \<longrightarrow> \<not> l_running s) \<and>
     (l_joinable s \<longrightarrow> l_pc s \<noteq> Unborn) \<and> (l_pc s \<notin> {Unborn, Gone} \<longrightarrow> l_joinable s)"

lemma pc_inv_step: "life_step blocking s s' \<Longrightarrow> pc_inv s \<Longrightarrow> pc_inv s'"
  by (induction rule: life_step.induct) (auto simp: pc_inv_def)

lemma tasks_inv_step: "life_step blocking s s' \<Longrightarrow> pc_inv s \<Longrightarrow> tasks_inv s \<Longrightarrow> tasks_inv s'"
proof (induction rule: life_step.induct)
  case (post s p x)
  then show ?case using prefix_prefix [of "l_before s" "l_posted s" "[x]"] by (auto simp: tasks_inv_def)
next
  case (stop s c)
  then show ?case by (auto simp: tasks_inv_def pc_inv_def)
qed (auto simp: tasks_inv_def pc_inv_def)

text \<open>The callers: nobody calls before the loop is started; the loop thread calls from inside a task or a
  callback; a sleeping loop that was told to stop has been or will be woken.\<close>

definition callers_inv :: "'a life \<Rightarrow> bool" where
  "callers_inv s \<longleftrightarrow>
     (l_pc s = Unborn \<longrightarrow> (\<forall>c. l_callers s c = Outside)) \<and>
     (l_callers s 0 \<noteq> Outside \<longrightarrow> l_pc s \<in> {Within LDrain, Callback}) \<and> l_callers s 0 \<noteq> Joining"

lemma callers_inv_step: "life_step blocking s s' \<Longrightarrow> pc_inv s \<Longrightarrow> callers_inv s \<Longrightarrow> callers_inv s'"
proof (induction rule: life_step.induct)
  case (joined s c)
  then have "c \<noteq> 0" unfolding callers_inv_def by metis
  with joined show ?case by (auto simp: callers_inv_def)
qed (auto simp: callers_inv_def pc_inv_def split: if_splits)

definition stopping :: "(nat \<Rightarrow> caller) \<Rightarrow> bool" where
  "stopping f \<longleftrightarrow> Stopped \<in> range f"

definition sleep_inv :: "'a life \<Rightarrow> bool" where
  "sleep_inv s \<longleftrightarrow>
     (l_pc s = Within LSleep \<and> \<not> l_running s \<longrightarrow> 0 < l_eventfd s \<or> stopping (l_callers s))"

lemma stopping_update: "stopping f \<Longrightarrow> f c \<noteq> Stopped \<Longrightarrow> stopping (f(c := w))" "stopping (f(c := Stopped))"
  unfolding stopping_def by (metis fun_upd_other rangeE rangeI, metis fun_upd_same rangeI)

lemma sleep_inv_step: "life_step blocking s s' \<Longrightarrow> sleep_inv s \<Longrightarrow> sleep_inv s'"
  by (induction rule: life_step.induct) (auto simp: sleep_inv_def stopping_update)

text \<open>Where nobody blocks in \<^verbatim>\<open>run(true)\<close> one thread at most is in \<^verbatim>\<open>stop\<close>, and only the loop
  thread itself gets an exception.\<close>

definition active :: "caller \<Rightarrow> bool" where
  "active w \<longleftrightarrow> w \<in> {Stopped, Written, Joining}"

definition actives :: "'a life \<Rightarrow> nat set" where
  "actives s = {c. active (l_callers s c)}"

lemma actives_simps [simp]:
  "actives (at_caller c w s) = (if active w then insert c (actives s) else actives s - {c})"
  "actives (at_poster p v s) = actives s"
  by (auto simp: actives_def at_caller_def at_poster_def)

lemma actives_cong: "l_callers s' = l_callers s \<Longrightarrow> actives s' = actives s"
  by (simp add: actives_def)

definition single_inv :: "'a life \<Rightarrow> bool" where
  "single_inv s \<longleftrightarrow> (actives s = {} \<or> (\<exists>c. actives s = {c}) \<and> l_joinable s \<and> \<not> l_running s \<and> l_pc s \<noteq> Unborn) \<and>
     (\<forall>c. l_callers s c = Raised \<longrightarrow> c = 0)"

lemma active_single: "single_inv s \<Longrightarrow> active (l_callers s c) \<Longrightarrow>
    actives s = {c} \<and> l_joinable s \<and> \<not> l_running s \<and> l_pc s \<noteq> Unborn"
proof -
  assume inv: "single_inv s" and "active (l_callers s c)"
  then have "c \<in> actives s" by (simp add: actives_def)
  with inv show ?thesis unfolding single_inv_def by (metis empty_iff singletonD)
qed

lemma single_frame:
  assumes "single_inv s" and "l_callers s' = l_callers s"
    and "l_joinable s \<Longrightarrow> \<not> l_running s \<Longrightarrow> l_pc s \<noteq> Unborn \<Longrightarrow> l_joinable s' \<and> \<not> l_running s' \<and> l_pc s' \<noteq> Unborn"
  shows "single_inv s'"
  using assms actives_cong [OF assms(2)] by (simp add: single_inv_def) blast

lemma single_inv_step: "life_step False s s' \<Longrightarrow> pc_inv s \<Longrightarrow> single_inv s \<Longrightarrow> single_inv s'"
proof (induction rule: life_step.induct)
  case (stop s c)
  have "actives s = {}" "l_joinable s" "l_pc s \<noteq> Unborn" using stop by (auto simp: pc_inv_def single_inv_def)
  moreover have "actives ((at_caller c Stopped s)\<lparr>l_running := False, l_before := l_posted s\<rparr>) = actives (at_caller c Stopped s)"
    by (rule actives_cong) simp
  ultimately show ?case using stop by (auto simp: single_inv_def active_def)
next
  case (stop_writes s c)
  have "actives s = {c}" "l_joinable s \<and> \<not> l_running s \<and> l_pc s \<noteq> Unborn"
    using active_single [OF stop_writes(3), of c] stop_writes(1) by (simp_all add: active_def)
  moreover have "actives ((at_caller c Written s)\<lparr>l_eventfd := l_eventfd s + 1\<rparr>) = actives (at_caller c Written s)"
    by (rule actives_cong) simp
  ultimately show ?case using stop_writes by (simp add: single_inv_def active_def)
next
  case (stop_joins s c)
  have "actives s = {c}" "l_joinable s \<and> \<not> l_running s \<and> l_pc s \<noteq> Unborn"
    using active_single [OF stop_joins(4), of c] stop_joins(1) by (simp_all add: active_def)
  with stop_joins show ?case by (simp add: single_inv_def active_def)
next
  case (stop_done s c)
  then show ?case using active_single [OF stop_done(4), of c] by (simp add: active_def)
next
  case (joined s c)
  have "actives s = {c}" "l_joinable s"
    using active_single [OF joined(4), of c] joined(1) by (simp_all add: active_def)
  moreover have "actives ((at_caller c Outside s)\<lparr>l_joinable := False\<rparr>) = actives (at_caller c Outside s)"
    by (rule actives_cong) simp
  ultimately show ?case using joined by (simp add: single_inv_def active_def)
qed (simp, (erule single_frame; simp)+)

definition life_inv :: "'a life \<Rightarrow> bool" where
  "life_inv s \<longleftrightarrow> pc_inv s \<and> tasks_inv s \<and> callers_inv s \<and> sleep_inv s"

lemma life_inv_step: "life_step blocking s s' \<Longrightarrow> life_inv s \<Longrightarrow> life_inv s'"
  by (simp add: life_inv_def pc_inv_step tasks_inv_step callers_inv_step sleep_inv_step)

lemma life_inv_init: "life_inv life_init"
  by (simp add: life_inv_def life_init_def pc_inv_def tasks_inv_def callers_inv_def sleep_inv_def)

lemma life_reachable: "(life_step blocking)\<^sup>*\<^sup>* life_init s \<Longrightarrow> life_inv s"
  by (induction rule: rtranclp_induct) (simp_all add: life_inv_init life_inv_step)

lemma single_reachable: "(life_step False)\<^sup>*\<^sup>* life_init s \<Longrightarrow> single_inv s"
proof (induction rule: rtranclp_induct)
  case base
  then show ?case by (simp add: single_inv_def life_init_def actives_def active_def)
next
  case (step s s')
  from life_reachable [OF step(1)] have "pc_inv s" by (simp add: life_inv_def)
  with step show ?case using single_inv_step by blast
qed

end
