(* ===== verification/Life_Properties.thy ===== *)
theory Life_Properties
  imports Loop_Life
begin

text \<open>
  What \<^verbatim>\<open>EventLoopThread::stop\<close> promises, and where it does not return.
\<close>

section \<open>Stopping can be completed\<close>

fun pc_rank :: "life_pc \<Rightarrow> nat" where
  "pc_rank (Within LSleep) = 12" | "pc_rank (Within LRead) = 11" | "pc_rank (Within LDrain) = 10"
| "pc_rank (Within LClear) = 9" | "pc_rank (Within LStored) = 8" | "pc_rank (Within LSawItem) = 7"
| "pc_rank (Within LMustWake) = 6" | "pc_rank Callback = 6" | "pc_rank Heading = 5" | "pc_rank Closing = 4"
| "pc_rank Gone = 0" | "pc_rank Unborn = 0"

fun caller_rank :: "caller \<Rightarrow> nat" where
  "caller_rank Stopped = 3" | "caller_rank Written = 2" | "caller_rank Joining = 1"
| "caller_rank Outside = 0" | "caller_rank Raised = 0"

definition life_rank :: "nat \<Rightarrow> 'a life \<Rightarrow> nat" where
  "life_rank c s = pc_rank (l_pc s) + length (l_queue s) + caller_rank (l_callers s c)"

text \<open>A step of the threads themselves: nobody posts, nobody who is outside calls, nobody starts the loop again, and
  no event of a socket or timer comes, so that only the wake-up descriptor ends \<^verbatim>\<open>epoll_wait\<close>.\<close>

definition ending_step :: "'a life \<Rightarrow> 'a life \<Rightarrow> bool" where
  "ending_step s s' \<longleftrightarrow> life_step False s s' \<and> l_posted s' = l_posted s \<and>
     (\<forall>d. l_callers s d = Outside \<longrightarrow> l_callers s' d = Outside) \<and>
     (l_running s' \<longrightarrow> l_running s) \<and> (l_pc s' = Callback \<longrightarrow> l_pc s = Callback)"

definition stop_inv :: "nat \<Rightarrow> 'a life \<Rightarrow> bool" where
  "stop_inv c s \<longleftrightarrow> life_inv s \<and> single_inv s \<and> l_callers s 0 = Outside \<and> c \<noteq> 0"

lemma ending_inv: "ending_step s s' \<Longrightarrow> stop_inv c s \<Longrightarrow> stop_inv c s'"
  using life_inv_step [of False s s'] single_inv_step [of s s'] by (simp add: ending_step_def stop_inv_def life_inv_def)

text \<open>One step of the loop thread or of the caller, with a smaller rank.\<close>

lemma loop_goes:
  assumes "life_step False s s'" and "l_posted s' = l_posted s" and "l_callers s' = l_callers s"
    and "pc_rank (l_pc s') + length (l_queue s') < pc_rank (l_pc s) + length (l_queue s)"
    and "l_running s' = l_running s" and "l_pc s' \<noteq> Callback"
  shows "\<exists>s'. ending_step s s' \<and> life_rank c s' < life_rank c s"
  using assms by (intro exI [of _ s']) (simp add: ending_step_def life_rank_def)

lemma caller_goes:
  assumes "life_step False s s'" and "l_posted s' = l_posted s" and "l_callers s' = (l_callers s)(c := w)"
    and "l_pc s' = l_pc s" and "l_queue s' = l_queue s" and "l_running s' = l_running s" and "caller_rank w < caller_rank (l_callers s c)"
  shows "\<exists>s'. ending_step s s' \<and> life_rank c s' < life_rank c s"
  using assms by (intro exI [of _ s']) (auto simp: ending_step_def life_rank_def)

lemma drain_goes:
  assumes "l_callers s 0 = Outside" and "l_pc s \<in> {Within LDrain, Closing}"
  shows "\<exists>s'. ending_step s s' \<and> life_rank c s' < life_rank c s"
proof (cases "l_queue s")
  case Nil
  then show ?thesis using assms loop_goes [OF drained [of s]] loop_goes [OF ends [of s]] by auto
next
  case (Cons x q)
  then show ?thesis using assms loop_goes [OF runs [of s]] loop_goes [OF runs_left [of s]] by auto
qed

lemma inner_goes:
  assumes "l_pc s \<in> {Within LRead, Within LClear, Within LStored, Within LSawItem, Within LMustWake}"
  shows "\<exists>s'. ending_step s s' \<and> life_rank c s' < life_rank c s"
proof -
  have ?thesis if "l_pc s = Within LStored"
    using that loop_goes [OF sees_none [of s]] loop_goes [OF sees_item [of s]] by (cases "l_queue s = []") auto
  moreover have ?thesis if "l_pc s = Within LSawItem"
    using that loop_goes [OF finds_awake [of s]] loop_goes [OF finds_asleep [of s]] by (cases "l_flag s") auto
  ultimately show ?thesis
    using assms loop_goes [OF reads [of s]] loop_goes [OF clears [of s]] loop_goes [OF wakes_itself [of s]] by auto
qed

lemma stopped_goes: "l_callers s c = Stopped \<Longrightarrow> \<exists>s'. ending_step s s' \<and> life_rank c s' < life_rank c s"
  using caller_goes [OF stop_writes [of s c False]] by auto

text \<open>Where the loop sleeps, it has been woken, or the caller has yet to write.\<close>

lemma sleep_goes:
  assumes inv: "stop_inv c s" and c: "actives s = {c}" "\<not> l_running s" and pc: "l_pc s = Within LSleep"
  shows "\<exists>s'. ending_step s s' \<and> life_rank c s' < life_rank c s"
proof (cases "0 < l_eventfd s")
  case True
  then show ?thesis using pc loop_goes [OF wakes [of s]] by auto
next
  case False
  then have "stopping (l_callers s)" using inv pc c(2) by (simp add: stop_inv_def life_inv_def sleep_inv_def)
  then obtain d where d: "l_callers s d = Stopped" unfolding stopping_def by (metis rangeE)
  then have "d \<in> actives s" by (simp add: actives_def active_def)
  with c(1) d show ?thesis using stopped_goes by simp
qed

lemma ending_advances:
  assumes inv: "stop_inv c s" and act: "active (l_callers s c)"
  shows "\<exists>s'. ending_step s s' \<and> life_rank c s' < life_rank c s"
proof -
  have c: "actives s = {c}" "l_joinable s" "\<not> l_running s" "l_pc s \<noteq> Unborn" "l_callers s 0 = Outside" "c \<noteq> 0"
    using active_single [of s c] inv act by (simp_all add: stop_inv_def)
  show ?thesis
  proof (cases "l_pc s")
    case Gone
    from act consider "l_callers s c = Stopped" | "l_callers s c = Written" | "l_callers s c = Joining"
      by (auto simp: active_def)
    then show ?thesis
      using c(2,6) Gone stopped_goes caller_goes [OF stop_joins [of s c False]] caller_goes [OF joined [of s c False]]
      by cases auto
  next
    case (Within l)
    then show ?thesis using sleep_goes [OF inv c(1,3)] drain_goes [OF c(5)] inner_goes by (cases l) auto
  qed (use c loop_goes [OF leaves [of s]] loop_goes [OF handled [of s]] drain_goes [of s] in auto)
qed

interpretation ending: progress ending_step "stop_inv c" "\<lambda>s. \<not> active (l_callers s c)" "life_rank c"
proof
  fix s :: "'a life" assume inv: "stop_inv c s" and "\<not> \<not> active (l_callers s c)"
  with ending_advances obtain s' where "ending_step s s'" "life_rank c s' < life_rank c s" by blast
  with ending_inv [OF _ inv] show "\<exists>s'. ending_step\<^sup>*\<^sup>* s s' \<and> stop_inv c s' \<and> life_rank c s' < life_rank c s"
    by blast
qed

lemma ending_run: "ending_step\<^sup>*\<^sup>* s s' \<Longrightarrow> (life_step False)\<^sup>*\<^sup>* s s' \<and> l_posted s' = l_posted s"
  by (induction rule: rtranclp_induct) (auto simp: ending_step_def intro: rtranclp.rtrancl_into_rtrancl)

lemma ending_joins:
  assumes "ending_step\<^sup>*\<^sup>* s s'" and "l_pc s \<noteq> Unborn" and "active (l_callers s c)"
  shows "l_pc s' \<noteq> Unborn \<and> (active (l_callers s' c) \<or> \<not> l_joinable s' \<or> l_callers s' c = Raised)"
  using assms(1)
proof (induction rule: rtranclp_induct)
  case base
  with assms(2,3) show ?case by simp
next
  case (step s1 s2)
  from step(2) have "life_step False s1 s2" "l_running s2 \<longrightarrow> l_running s1" by (simp_all add: ending_step_def)
  then show ?case using step(3) by cases (auto simp: active_def)
qed

text \<open>A step after which the loop is not to run: it has not been started, or it has been told to stop.\<close>

definition unstarted_step :: "bool \<Rightarrow> 'a life \<Rightarrow> 'a life \<Rightarrow> bool" where
  "unstarted_step blocking s s' \<longleftrightarrow> life_step blocking s s' \<and> \<not> l_running s'"

lemma gone_step: "life_step blocking s s' \<Longrightarrow> \<not> l_running s' \<Longrightarrow> l_pc s = Gone \<Longrightarrow> l_pc s' = Gone \<and> l_ran s' = l_ran s"
  by (induction rule: life_step.induct) simp_all

lemma self_stop_step:
  "life_step blocking s s' \<Longrightarrow> l_pc s \<in> {Within LDrain, Callback} \<Longrightarrow> l_callers s 0 \<in> {Stopped, Written, Raised} \<Longrightarrow> l_joinable s \<Longrightarrow>
   l_pc s' = l_pc s \<and> l_callers s' 0 \<in> {Stopped, Written, Raised} \<and> l_joinable s'"
  by (induction rule: life_step.induct) auto

lemma joined_inv:
  "life_inv s \<Longrightarrow> l_pc s \<noteq> Unborn \<Longrightarrow> \<not> l_joinable s \<Longrightarrow> l_pc s = Gone \<and> prefix (l_before s) (l_ran s) \<and> l_posted s = l_ran s @ l_queue s"
  by (auto simp: life_inv_def pc_inv_def tasks_inv_def)

section \<open>What stopping promises\<close>

text \<open>C19: stopping a loop runs what was posted before. When the loop thread has been joined, all tasks that
  were posted before \<^verbatim>\<open>stop\<close> was called have been run, in the order in which they were posted. What is
  posted later stays in the queue, in order, and is not run as long as nobody starts the loop again. This
  holds for any interleaving of any number of threads that post, stop, join and start again, and wherever
  the loop thread was when it was told to stop.\<close>

theorem stop_runs_tasks:
  assumes "(life_step blocking)\<^sup>*\<^sup>* life_init s" and "l_pc s \<noteq> Unborn" and "\<not> l_joinable s"
  shows "l_pc s = Gone \<and> prefix (l_before s) (l_ran s) \<and> l_posted s = l_ran s @ l_queue s \<and>
    (\<forall>s'. (unstarted_step blocking)\<^sup>*\<^sup>* s s' \<longrightarrow> l_ran s' = l_ran s \<and> l_posted s' = l_ran s @ l_queue s')"
proof -
  note gone = joined_inv [OF life_reachable [OF assms(1)] assms(2,3)]
  have "l_pc s' = Gone \<and> l_ran s' = l_ran s \<and> life_inv s'" if "(unstarted_step blocking)\<^sup>*\<^sup>* s s'" for s'
    using that
  proof (induction rule: rtranclp_induct)
    case (step s1 s2)
    then have "life_step blocking s1 s2" "\<not> l_running s2" by (simp_all add: unstarted_step_def)
    with gone_step [OF this] life_inv_step step.IH show ?case by metis
  qed (use gone life_reachable [OF assms(1)] in simp)
  with gone show ?thesis by (metis life_inv_def tasks_inv_def)
qed

text \<open>C20: stopping a loop returns. In a program that does not block in \<^verbatim>\<open>run(true)\<close>, from every state that
  threads which post, start and stop have led to, and in which a thread other than the loop thread is in the
  middle of \<^verbatim>\<open>stop\<close> while the loop thread is not itself in \<^verbatim>\<open>stop\<close>, that call can be completed by the steps
  of the threads themselves: without anybody posting, calling or starting anything else, and without any
  event but that of the wake-up descriptor, the loop thread is woken wherever it is, empties its queue and
  ends, it is joined, and \<^verbatim>\<open>stop\<close> returns.\<close>

theorem stop_returns:
  assumes "(life_step False)\<^sup>*\<^sup>* life_init s" and "l_callers s 0 = Outside" and "c \<noteq> 0"
    and "l_callers s c \<in> {Stopped, Written, Joining}"
  shows "\<exists>s'. ending_step\<^sup>*\<^sup>* s s' \<and> l_posted s' = l_posted s \<and> l_callers s' c = Outside \<and> l_pc s' = Gone \<and>
    prefix (l_before s') (l_ran s')"
proof -
  have act: "active (l_callers s c)" using assms(4) by (simp add: active_def)
  have inv: "stop_inv c s"
    using life_reachable [OF assms(1)] single_reachable [OF assms(1)] assms(2,3) by (simp add: stop_inv_def)
  from ending.reaches_goal [OF inv] obtain s' where s': "ending_step\<^sup>*\<^sup>* s s'" "stop_inv c s'" "\<not> active (l_callers s' c)"
    by blast
  have "l_callers s' c \<noteq> Raised" using s'(2) by (auto simp: stop_inv_def single_inv_def)
  with s'(3) have out: "l_callers s' c = Outside" by (cases "l_callers s' c") (simp_all add: active_def)
  have "l_pc s \<noteq> Unborn" using active_single [of s c] inv act by (simp add: stop_inv_def)
  from ending_joins [OF s'(1) this act] out have "l_pc s' \<noteq> Unborn" "\<not> l_joinable s'" by (simp_all add: active_def)
  with joined_inv [OF _ this] s'(1,2) ending_run [OF s'(1)] out show ?thesis
    by (intro exI [of _ s']) (simp add: stop_inv_def)
qed

text \<open>C33: \<^verbatim>\<open>close\<close> called from a task or from a callback of a socket never returns. The loop thread
  has told itself to stop and is about to join itself: from then on, whatever the other threads do, it does
  not go on, and the only way out is the exception of \<^verbatim>\<open>std::thread::join\<close>, which nothing
  catches.\<close>

theorem close_from_callback_raises:
  assumes "(life_step blocking)\<^sup>*\<^sup>* life_init s" and "l_callers s 0 \<in> {Stopped, Written}"
  shows "(\<forall>s'. (life_step blocking)\<^sup>*\<^sup>* s s' \<longrightarrow> l_callers s' 0 \<noteq> Outside \<and> l_pc s' = l_pc s) \<and>
    (\<exists>s'. (life_step blocking)\<^sup>*\<^sup>* s s' \<and> l_callers s' 0 = Raised)"
proof -
  have inv: "l_pc s \<in> {Within LDrain, Callback}" "l_joinable s"
    using life_reachable [OF assms(1)] assms(2) by (auto simp: life_inv_def callers_inv_def pc_inv_def)
  have stuck: "l_callers s' 0 \<in> {Stopped, Written, Raised} \<and> l_pc s' = l_pc s \<and> l_joinable s'"
    if "(life_step blocking)\<^sup>*\<^sup>* s s'" for s'
    using that
  proof (induction rule: rtranclp_induct)
    case (step s1 s2)
    with self_stop_step [OF step(2)] inv(1) show ?case by metis
  qed (use assms(2) inv in auto)
  have raise: "\<exists>s'. (life_step blocking)\<^sup>*\<^sup>* t s' \<and> l_callers s' 0 = Raised" if "l_callers t 0 = Written" "l_joinable t" for t
    using stop_joins [OF that, of blocking] by (intro exI [of _ "at_caller 0 Raised t"]) auto
  have "\<exists>s'. (life_step blocking)\<^sup>*\<^sup>* s s' \<and> l_callers s' 0 = Raised"
  proof (cases "l_callers s 0 = Written")
    case True
    then show ?thesis by (rule raise [OF _ inv(2)])
  next
    case False
    with assms(2) have "l_callers s 0 = Stopped" by simp
    from stop_writes [OF this, of blocking] raise [of "(at_caller 0 Written s)\<lparr>l_eventfd := l_eventfd s + 1\<rparr>"] inv(2)
    show ?thesis by (auto intro: converse_rtranclp_into_rtranclp)
  qed
  moreover have "l_callers s' 0 \<noteq> Outside \<and> l_pc s' = l_pc s" if "(life_step blocking)\<^sup>*\<^sup>* s s'" for s'
    using stuck [OF that] by auto
  ultimately show ?thesis by blast
qed

section \<open>Runs\<close>

definition life_started :: "nat life" where
  "life_started = \<lparr>l_running = True, l_joinable = True, l_flag = False, l_eventfd = 0, l_queue = [7],
     l_posters = (\<lambda>_. WIdle)(0 := WPushed), l_callers = (\<lambda>_. Outside), l_pc = Heading,
     l_posted = [7], l_ran = [], l_before = []\<rparr>"

lemma life_started_reachable: "(life_step blocking)\<^sup>*\<^sup>* life_init life_started"
proof -
  let ?s1 = "(at_poster 0 WPushed life_init)\<lparr>l_queue := [7], l_posted := [7]\<rparr> :: nat life"
  have "life_step blocking life_init ?s1" using post [of life_init 0 blocking 7] by (simp add: life_init_def)
  moreover have "life_step blocking ?s1 life_started"
    using start [of ?s1 blocking] by (simp add: life_init_def life_started_def at_poster_def)
  ultimately show ?thesis by (meson converse_rtranclp_into_rtranclp rtranclp.rtrancl_refl)
qed

text \<open>Thread 2 calls \<^verbatim>\<open>stop\<close> while the threads in \<open>f\<close> do what they do, until the loop thread ends.\<close>

definition life_stopped :: "(nat \<Rightarrow> caller) \<Rightarrow> nat life" where
  "life_stopped f = life_started\<lparr>l_running := False, l_callers := f(2 := Stopped), l_before := [7]\<rparr>"

definition life_over :: "(nat \<Rightarrow> caller) \<Rightarrow> nat life" where
  "life_over f = life_started\<lparr>l_running := False, l_callers := f(2 := Joining), l_eventfd := 1, l_before := [7],
     l_queue := [], l_ran := [7], l_pc := Gone\<rparr>"

lemma stop_run:
  assumes "f 0 = Outside" and "f 2 = Outside"
  shows "life_step blocking (life_started\<lparr>l_callers := f\<rparr>) (life_stopped f)"
    and "(life_step blocking)\<^sup>*\<^sup>* (life_stopped f) (life_over f)"
proof -
  let ?s1 = "(life_stopped f)\<lparr>l_callers := f(2 := Written), l_eventfd := 1\<rparr>"
  let ?s2 = "?s1\<lparr>l_callers := f(2 := Joining)\<rparr>"
  let ?s3 = "?s2\<lparr>l_pc := Closing\<rparr>"
  let ?s4 = "?s3\<lparr>l_queue := [], l_ran := [7]\<rparr>"
  note defs = life_started_def life_stopped_def life_over_def at_caller_def
  show "life_step blocking (life_started\<lparr>l_callers := f\<rparr>) (life_stopped f)"
    using stop [of "life_started\<lparr>l_callers := f\<rparr>" 2 blocking] assms by (simp add: defs)
  have "life_step blocking (life_stopped f) ?s1" using stop_writes [of "life_stopped f" 2 blocking] by (simp add: defs)
  moreover have "life_step blocking ?s1 ?s2" using stop_joins [of ?s1 2 blocking] by (simp add: defs)
  moreover have "life_step blocking ?s2 ?s3" using leaves [of ?s2 blocking] by (simp add: defs)
  moreover have "life_step blocking ?s3 ?s4" using runs_left [of ?s3 7 "[]" blocking] assms(1) by (simp add: defs)
  moreover have "life_step blocking ?s4 (life_over f)" using ends [of ?s4 blocking] assms(1) by (simp add: defs)
  ultimately show "(life_step blocking)\<^sup>*\<^sup>* (life_stopped f) (life_over f)"
    by (meson converse_rtranclp_into_rtranclp rtranclp.rtrancl_refl)
qed

lemma life_stopped_reachable: "(life_step blocking)\<^sup>*\<^sup>* life_init (life_stopped (\<lambda>_. Outside))"
  using life_started_reachable [of blocking] stop_run(1) [of "\<lambda>_. Outside" blocking]
  by (simp add: rtranclp.rtrancl_into_rtrancl life_started_def)

lemma life_over_reachable: "(life_step blocking)\<^sup>*\<^sup>* life_init (life_over (\<lambda>_. Outside))"
  by (rule rtranclp_trans [OF life_stopped_reachable stop_run(2)]) simp_all

theorem stop_runs_tasks_witness:
  "\<exists>s. (life_step False)\<^sup>*\<^sup>* (life_init :: nat life) s \<and> l_callers s 2 = Outside \<and> l_pc s = Gone \<and> prefix [7] (l_ran s)"
proof -
  let ?s = "(at_caller 2 Outside (life_over (\<lambda>_. Outside)))\<lparr>l_joinable := False\<rparr>"
  have "life_step False (life_over (\<lambda>_. Outside)) ?s"
    using joined [of "life_over (\<lambda>_. Outside)" 2 False] by (simp add: life_over_def life_started_def)
  with life_over_reachable have run: "(life_step False)\<^sup>*\<^sup>* life_init ?s" by (rule rtranclp.rtrancl_into_rtrancl)
  from stop_runs_tasks [OF this] have "l_pc ?s = Gone" "prefix [7] (l_ran ?s)"
    by (simp_all add: life_over_def)
  with run show ?thesis by (intro exI [of _ ?s]) simp
qed

theorem stop_returns_witness:
  "\<exists>s'. ending_step\<^sup>*\<^sup>* (life_stopped (\<lambda>_. Outside)) s' \<and> l_callers s' 2 = Outside \<and> l_posted s' = [7]"
  using stop_returns [OF life_stopped_reachable, of 2] by (auto simp: life_stopped_def life_started_def)

theorem close_from_callback_raises_witness:
  "\<exists>s. (life_step False)\<^sup>*\<^sup>* (life_init :: nat life) s \<and> l_callers s 0 = Raised"
proof -
  let ?s1 = "life_started\<lparr>l_pc := Within LSleep\<rparr>"
  let ?s2 = "?s1\<lparr>l_pc := Callback\<rparr>"
  let ?s3 = "(at_caller 0 Stopped ?s2)\<lparr>l_running := False, l_before := [7]\<rparr>"
  have "life_step False life_started ?s1" using goes_on [of life_started False] by (simp add: life_started_def)
  moreover have "life_step False ?s1 ?s2" using event [of ?s1 False] by simp
  moreover have "life_step False ?s2 ?s3" using stop [of ?s2 0 False] by (simp add: life_started_def)
  ultimately have run: "(life_step False)\<^sup>*\<^sup>* life_init ?s3"
    using life_started_reachable [of False] by (meson rtranclp.rtrancl_into_rtrancl)
  from close_from_callback_raises [OF run] obtain s' where "(life_step False)\<^sup>*\<^sup>* ?s3 s'" "l_callers s' 0 = Raised"
    by auto
  with rtranclp_trans [OF run] show ?thesis by blast
qed

text \<open>\<^verbatim>\<open>close\<close> is no way out of \<^verbatim>\<open>run(true)\<close> either. Thread 1 blocks in
  \<^verbatim>\<open>run(true)\<close>, which joins the loop thread, and thread 2 calls \<^verbatim>\<open>close\<close>, which joins it as well: the
  loop thread ends, thread 1 returns, and thread 2 is left with an exception.\<close>

theorem close_joins_twice:
  "\<exists>s. (life_step True)\<^sup>*\<^sup>* (life_init :: nat life) s \<and> l_pc s = Gone \<and> l_callers s 1 = Outside \<and> l_callers s 2 = Raised"
proof -
  let ?f = "(\<lambda>_. Outside)(1 := Joining) :: nat \<Rightarrow> caller"
  let ?s1 = "life_started\<lparr>l_callers := ?f\<rparr>"
  let ?s2 = "(at_caller 1 Outside (life_over ?f))\<lparr>l_joinable := False\<rparr>"
  let ?s3 = "at_caller 2 Raised ?s2"
  have "life_step True life_started ?s1"
    using run_joins [of True life_started 1] by (simp add: life_started_def at_caller_def)
  moreover have "life_step True ?s1 (life_stopped ?f)" by (rule stop_run) simp_all
  ultimately have "(life_step True)\<^sup>*\<^sup>* life_init (life_stopped ?f)"
    using life_started_reachable [of True] by (meson rtranclp.rtrancl_into_rtrancl)
  moreover have "(life_step True)\<^sup>*\<^sup>* (life_stopped ?f) (life_over ?f)" by (rule stop_run) simp_all
  moreover have "life_step True (life_over ?f) ?s2"
    using joined [of "life_over ?f" 1 True] by (simp add: life_over_def life_started_def)
  moreover have "life_step True ?s2 (?s3\<lparr>l_joinable := False\<rparr>)"
    using joined [of ?s2 2 True] by (simp add: life_over_def life_started_def)
  ultimately have "(life_step True)\<^sup>*\<^sup>* life_init (?s3\<lparr>l_joinable := False\<rparr>)"
    by (meson rtranclp.rtrancl_into_rtrancl rtranclp_trans)
  then show ?thesis by (intro exI [of _ "?s3\<lparr>l_joinable := False\<rparr>"]) (simp add: life_over_def)
qed

end
