(* ===== verification/Cpp_Strings.thy ===== *)
theory Cpp_Strings
  imports Prelude
begin

text \<open>
  The parts of the C++ standard library the sources call on strings:
  \<^verbatim>\<open>std::string::find\<close> of a line end, \<^verbatim>\<open>std::to_string\<close>,
  \<^verbatim>\<open>std::stoll\<close> with its two exceptions, and word extraction from an
  \<^verbatim>\<open>istringstream\<close>. Strings are lists of 8-bit characters.
\<close>

section \<open>Line ends\<close>

abbreviation CR :: char where "CR \<equiv> CHR 0x0D"
abbreviation LF :: char where "LF \<equiv> CHR 0x0A"
abbreviation NUL :: char where "NUL \<equiv> CHR 0x00"
abbreviation CRLF :: string where "CRLF \<equiv> [CR, LF]"

text \<open>\<^verbatim>\<open>data.find("\r\n", pos)\<close>: \<open>None\<close> is \<^verbatim>\<open>npos\<close>.\<close>

fun crlf_offset :: "string \<Rightarrow> nat option" where
  "crlf_offset [] = None"
| "crlf_offset [c] = None"
| "crlf_offset (c # d # s) =
     (if c = CR \<and> d = LF then Some 0 else map_option Suc (crlf_offset (d # s)))"

definition find_crlf :: "string \<Rightarrow> nat \<Rightarrow> nat option" where
  "find_crlf data pos = map_option ((+) pos) (crlf_offset (drop pos data))"

lemma crlf_offset_append: "crlf_offset s = None \<Longrightarrow> crlf_offset (s @ CR # LF # r) = Some (length s)"
  by (induction s rule: crlf_offset.induct) auto

lemma crlf_offset_Some_length: "crlf_offset s = Some n \<Longrightarrow> n + 2 \<le> length s"
  by (induction s arbitrary: n rule: crlf_offset.induct) (auto split: if_splits)

lemma crlf_offset_Some_append: "crlf_offset s = Some n \<Longrightarrow> crlf_offset (s @ t) = Some n"
  by (induction s arbitrary: n rule: crlf_offset.induct) (auto split: if_splits)

lemma crlf_offset_no_LF: "LF \<notin> set s \<Longrightarrow> crlf_offset s = None"
  by (induction s rule: crlf_offset.induct) auto

lemma crlf_offset_line_prefix:
  "crlf_offset s = None \<Longrightarrow> LF \<notin> set z \<Longrightarrow> crlf_offset (s @ z) = None"
proof (induction s rule: crlf_offset.induct)
  case 1
  then show ?case by (simp add: crlf_offset_no_LF)
next
  case (2 c)
  then show ?case by (cases z) (auto simp: crlf_offset_no_LF)
next
  case (3 c d s)
  then show ?case by (auto split: if_splits)
qed

lemma crlf_offset_prefix_None: "crlf_offset (s @ t) = None \<Longrightarrow> crlf_offset s = None"
  by (metis crlf_offset_Some_append not_None_eq)

lemma find_crlf_append:
  "crlf_offset s = None \<Longrightarrow>
   find_crlf (pre @ s @ CR # LF # r) (length pre) = Some (length pre + length s)"
  by (simp add: find_crlf_def crlf_offset_append)

lemma find_crlf_Some_bounds:
  assumes "find_crlf data pos = Some e"
  shows "pos \<le> e \<and> e + 2 \<le> length data"
proof -
  from assms obtain n where n: "crlf_offset (drop pos data) = Some n" "e = pos + n"
    by (auto simp: find_crlf_def)
  from crlf_offset_Some_length [OF n(1)] n(2) show ?thesis by auto
qed

lemma find_crlf_mono:
  "find_crlf data pos = Some e \<Longrightarrow> find_crlf (data @ more) pos = Some e"
  using crlf_offset_Some_append [of "drop pos data"] crlf_offset_Some_length [of "drop pos data"]
  by (fastforce simp: find_crlf_def)

section \<open>Decimal numerals\<close>

definition digit_char :: "nat \<Rightarrow> char" where
  "digit_char d = char_of (48 + d)"

definition digit_val :: "char \<Rightarrow> nat" where
  "digit_val c = of_char c - 48"

definition is_digit :: "char \<Rightarrow> bool" where
  "is_digit c \<longleftrightarrow> 48 \<le> (of_char c :: nat) \<and> (of_char c :: nat) \<le> 57"

lemma digit_char_of_char: "d < 10 \<Longrightarrow> of_char (digit_char d) = 48 + d"
  by (simp add: digit_char_def)

lemma is_digit_digit_char [simp]: "d < 10 \<Longrightarrow> is_digit (digit_char d)"
  by (simp add: is_digit_def digit_char_of_char)

lemma digit_val_digit_char [simp]: "d < 10 \<Longrightarrow> digit_val (digit_char d) = d"
  by (simp add: digit_val_def digit_char_of_char)

text \<open>\<^verbatim>\<open>std::to_string\<close> on an unsigned and on a signed number.\<close>

fun nat_to_string :: "nat \<Rightarrow> string" where
  "nat_to_string n =
     (if n < 10 then [digit_char n] else nat_to_string (n div 10) @ [digit_char (n mod 10)])"

declare nat_to_string.simps [simp del]

definition int_to_string :: "int \<Rightarrow> string" where
  "int_to_string i =
     (if i < 0 then CHR ''-'' # nat_to_string (nat (- i)) else nat_to_string (nat i))"

lemma nat_to_string_digits: "list_all is_digit (nat_to_string n)"
proof (induction n rule: nat_to_string.induct)
  case (1 n)
  then show ?case by (subst nat_to_string.simps) auto
qed

lemma nat_to_string_nonempty [simp]: "nat_to_string n \<noteq> []"
  by (subst nat_to_string.simps) simp

definition digits_val :: "string \<Rightarrow> nat" where
  "digits_val ds = foldl (\<lambda>a c. a * 10 + digit_val c) 0 ds"

lemma digits_val_nat_to_string [simp]: "digits_val (nat_to_string n) = n"
proof (induction n rule: nat_to_string.induct)
  case (1 n)
  show ?case
  proof (cases "n < 10")
    case True
    then show ?thesis by (subst nat_to_string.simps) (simp add: digits_val_def)
  next
    case False
    with 1 have "digits_val (nat_to_string (n div 10)) = n div 10" by simp
    with False show ?thesis by (subst nat_to_string.simps) (simp add: digits_val_def)
  qed
qed

lemma is_digit_no_space: "is_digit c \<Longrightarrow> c \<noteq> LF \<and> c \<noteq> CR \<and> c \<noteq> CHR ''-'' \<and> c \<noteq> CHR ''+''"
  by (auto simp: is_digit_def)

lemma no_crlf_nat_to_string [simp]: "crlf_offset (nat_to_string n) = None"
proof (rule crlf_offset_no_LF)
  show "LF \<notin> set (nat_to_string n)"
    using nat_to_string_digits [of n] by (auto simp: list_all_iff dest: is_digit_no_space)
qed

lemma no_crlf_int_to_string [simp]: "crlf_offset (int_to_string i) = None"
proof (rule crlf_offset_no_LF)
  show "LF \<notin> set (int_to_string i)"
    using nat_to_string_digits [of "nat (- i)"] nat_to_string_digits [of "nat i"]
    by (auto simp: int_to_string_def list_all_iff dest: is_digit_no_space)
qed

section \<open>\<^verbatim>\<open>std::stoll\<close>\<close>

text \<open>
  Leading white space is skipped, one sign is read, then the longest run of decimal digits;
  what follows is ignored. No digit raises \<^verbatim>\<open>invalid_argument\<close>, a value outside
  \<^verbatim>\<open>long long\<close> raises \<^verbatim>\<open>out_of_range\<close>.
\<close>

datatype stoll_error = InvalidArgument | OutOfRange

definition is_space :: "char \<Rightarrow> bool" where
  "is_space c \<longleftrightarrow> c = CHR '' '' \<or> (9 \<le> (of_char c :: nat) \<and> (of_char c :: nat) \<le> 13)"

definition llong_min :: int where "llong_min = - (2 ^ 63)"
definition llong_max :: int where "llong_max = 2 ^ 63 - 1"

definition split_sign :: "string \<Rightarrow> bool \<times> string" where
  "split_sign s = (case s of [] \<Rightarrow> (False, [])
     | c # r \<Rightarrow> if c = CHR ''-'' then (True, r) else if c = CHR ''+'' then (False, r) else (False, s))"

definition stoll :: "string \<Rightarrow> stoll_error + int" where
  "stoll s =
     (let (neg, r) = split_sign (dropWhile is_space s);
          ds = takeWhile is_digit r;
          v = int (digits_val ds)
      in if ds = [] then Inl InvalidArgument
         else let i = (if neg then - v else v)
              in if i < llong_min \<or> llong_max < i then Inl OutOfRange else Inr i)"

lemma stoll_range: "stoll s = Inr i \<Longrightarrow> llong_min \<le> i \<and> i \<le> llong_max"
  by (auto simp: stoll_def Let_def split: prod.splits if_splits)

lemma takeWhile_all_digits: "list_all is_digit ds \<Longrightarrow> takeWhile is_digit ds = ds"
  by (simp add: list_all_iff)

lemma digit_not_space: "is_digit c \<Longrightarrow> \<not> is_space c"
  by (auto simp: is_digit_def is_space_def)

lemma dropWhile_digits: "list_all is_digit ds \<Longrightarrow> dropWhile is_space ds = ds"
  by (cases ds) (auto simp: digit_not_space)

lemma split_sign_digits: "list_all is_digit ds \<Longrightarrow> ds \<noteq> [] \<Longrightarrow> split_sign ds = (False, ds)"
  by (cases ds) (auto simp: split_sign_def dest: is_digit_no_space)

lemma stoll_nat_to_string: "int n \<le> llong_max \<Longrightarrow> stoll (nat_to_string n) = Inr (int n)"
  using nat_to_string_digits [of n]
  by (simp add: stoll_def dropWhile_digits split_sign_digits takeWhile_all_digits llong_min_def)

lemma stoll_int_to_string:
  assumes "llong_min \<le> i" and "i \<le> llong_max"
  shows "stoll (int_to_string i) = Inr i"
proof (cases "i < 0")
  case False
  then show ?thesis
    using assms stoll_nat_to_string [of "nat i"] by (simp add: int_to_string_def)
next
  case True
  have "\<not> is_space (CHR ''-'')" by (simp add: is_space_def)
  then have "stoll (int_to_string i) = (if - int (nat (- i)) < llong_min \<or> llong_max < - int (nat (- i))
      then Inl OutOfRange else Inr (- int (nat (- i))))"
    using True nat_to_string_digits [of "nat (- i)"]
    by (simp add: stoll_def int_to_string_def split_sign_def takeWhile_all_digits Let_def)
  then show ?thesis using True assms by simp
qed

section \<open>Words of a line\<close>

text \<open>\<^verbatim>\<open>while (iss >> word) args.push_back(word)\<close>: skip white space, take up to the next.\<close>

function (sequential) stream_words :: "string \<Rightarrow> string list" where
  "stream_words s =
     (case dropWhile is_space s of [] \<Rightarrow> []
      | c # r \<Rightarrow> takeWhile (\<lambda>c. \<not> is_space c) (c # r)
                # stream_words (dropWhile (\<lambda>c. \<not> is_space c) (c # r)))"
  by pat_completeness auto
termination
proof (relation "measure length")
  fix s c r
  assume eq: "dropWhile is_space s = c # r"
  then have nsp: "\<not> is_space c" by (metis hd_dropWhile list.distinct(1) list.sel(1))
  have "length (dropWhile (\<lambda>c. \<not> is_space c) (c # r)) \<le> length r"
    using nsp by (simp add: length_dropWhile_le)
  also have "length r < length s"
    using length_dropWhile_le [of is_space s] eq by simp
  finally show "(dropWhile (\<lambda>c. \<not> is_space c) (c # r), s) \<in> measure length" by simp
qed simp

declare stream_words.simps [simp del]

lemma stream_words_no_space:
  "w \<in> set (stream_words s) \<Longrightarrow> w \<noteq> [] \<and> list_all (\<lambda>c. \<not> is_space c) w"
proof (induction s rule: stream_words.induct)
  case (1 s)
  show ?case
  proof (cases "dropWhile is_space s")
    case Nil
    with "1.prems" show ?thesis by (simp add: stream_words.simps)
  next
    case (Cons c r)
    then have nsp: "\<not> is_space c" by (metis hd_dropWhile list.distinct(1) list.sel(1))
    from "1.prems" Cons consider
      "w = takeWhile (\<lambda>c. \<not> is_space c) (c # r)"
      | "w \<in> set (stream_words (dropWhile (\<lambda>c. \<not> is_space c) (c # r)))"
      by (subst (asm) stream_words.simps) auto
    then show ?thesis
    proof cases
      case 1
      then show ?thesis using nsp by (auto simp: list_all_iff dest: set_takeWhileD)
    next
      case 2
      then show ?thesis using "1.IH" [OF Cons] by simp
    qed
  qed
qed

lemma stream_words_word:
  assumes "w \<noteq> []" and "list_all (\<lambda>c. \<not> is_space c) w" and "s = [] \<or> is_space (hd s)"
  shows "stream_words (w @ s) = w # stream_words s"
proof -
  obtain c r where w: "w = c # r" using assms(1) by (cases w) auto
  have "dropWhile is_space (w @ s) = w @ s" using assms(2) w by simp
  moreover have "takeWhile (\<lambda>c. \<not> is_space c) (w @ s) = w"
    using assms(2,3) by (cases s) (auto simp: takeWhile_append2 list_all_iff)
  moreover have "dropWhile (\<lambda>c. \<not> is_space c) (w @ s) = s"
    using assms(2,3) by (cases s) (auto simp: dropWhile_append2 list_all_iff)
  ultimately show ?thesis using w by (subst stream_words.simps) simp
qed

lemma stream_words_space: "is_space c \<Longrightarrow> stream_words (c # s) = stream_words s"
  by (subst (1 2) stream_words.simps) simp

fun join_words :: "string list \<Rightarrow> string" where
  "join_words [] = []"
| "join_words [w] = w"
| "join_words (w # ws) = w @ CHR '' '' # join_words ws"

lemma stream_words_join:
  "\<forall>w \<in> set ws. w \<noteq> [] \<and> list_all (\<lambda>c. \<not> is_space c) w \<Longrightarrow> stream_words (join_words ws) = ws"
proof (induction ws rule: join_words.induct)
  case 1
  then show ?case by (simp add: stream_words.simps)
next
  case (2 w)
  then show ?case using stream_words_word [of w "[]"] by (simp add: stream_words.simps)
next
  case (3 w v vs)
  have sp: "is_space (CHR '' '')" by (simp add: is_space_def)
  from 3 show ?case
    using stream_words_word [of w "CHR '' '' # join_words (v # vs)"] sp
    by (simp add: stream_words_space)
qed

text \<open>Evaluation on concrete strings.\<close>

lemma digit_char_simps [simp]:
  "digit_char 0 = CHR ''0''" "digit_char 1 = CHR ''1''" "digit_char (Suc 0) = CHR ''1''"
  "digit_char 2 = CHR ''2''" "digit_char 3 = CHR ''3''" "digit_char 4 = CHR ''4''"
  "digit_char 5 = CHR ''5''" "digit_char 6 = CHR ''6''" "digit_char 7 = CHR ''7''"
  "digit_char 8 = CHR ''8''" "digit_char 9 = CHR ''9''"
  "digit_char (Suc (Suc 0)) = CHR ''2''"
  by code_simp+

lemmas string_eval =
  nat_to_string.simps int_to_string_def find_crlf_def stoll_def split_sign_def is_space_def
  is_digit_def digits_val_def digit_val_def llong_min_def llong_max_def to_size_t_def
  add_size_t_def size_t_mod_def

end
