(* ===== verification/Resp_Parser.thy ===== *)
theory Resp_Parser
  imports Cpp_Strings
begin

text \<open>
  The RESP value type and parser of \<^verbatim>\<open>src/app/redis/redis.h\<close>.

  A parser call takes the whole buffer and a position and yields an \<open>outcome\<close>: a value
  with the new position, or the exception the C++ raises. Calls that recurse carry fuel, one
  unit per call of \<^verbatim>\<open>parse_value\<close> and per round of the element loop of
  \<^verbatim>\<open>parse_array\<close>; \<open>None\<close> means the fuel ran out. The last section has the same parser without fuel, where
  \<open>None\<close> is a call that does not return. \<open>vm\<close> is the number of elements the
  allocator can provide to \<^verbatim>\<open>elements.reserve\<close>; a request beyond it, or beyond
  the vector's \<^verbatim>\<open>max_size\<close>, raises.
\<close>

section \<open>Values\<close>

datatype resp_type = SimpleString | Error | Integer | BulkString | Array | Null

datatype resp_value = RESPValue (rtype: resp_type) (rdata: resp_data)
and resp_data = DString string | DInt int | DArray "resp_value list"

text \<open>The accessors: \<^verbatim>\<open>std::get\<close> on the wrong alternative raises (\<open>None\<close>).\<close>

fun as_string :: "resp_value \<Rightarrow> string option" where
  "as_string (RESPValue t (DString s)) = Some s"
| "as_string (RESPValue t d) = None"

fun as_integer :: "resp_value \<Rightarrow> int option" where
  "as_integer (RESPValue t (DInt i)) = Some i"
| "as_integer (RESPValue t d) = None"

fun as_array :: "resp_value \<Rightarrow> resp_value list option" where
  "as_array (RESPValue t (DArray vs)) = Some vs"
| "as_array (RESPValue t d) = None"

text \<open>The tag and the variant agree, in every element.\<close>

fun wt_value :: "resp_value \<Rightarrow> bool" where
  "wt_value (RESPValue SimpleString (DString s)) = True"
| "wt_value (RESPValue Error (DString s)) = True"
| "wt_value (RESPValue Integer (DInt i)) = (llong_min \<le> i \<and> i \<le> llong_max)"
| "wt_value (RESPValue BulkString (DString s)) = True"
| "wt_value (RESPValue Array (DArray vs)) = list_all wt_value vs"
| "wt_value (RESPValue Null (DString s)) = (s = [])"
| "wt_value _ = False"

section \<open>Outcomes\<close>

datatype parse_exn = Incomplete | UnknownType char | BadNumber stoll_error | LengthError

datatype outcome = Returned resp_value nat | Raised parse_exn

section \<open>The scalar parsers\<close>

definition read_line :: "string \<Rightarrow> nat \<Rightarrow> (string \<times> nat) option" where
  "read_line data pos =
     (case find_crlf data pos of
        None \<Rightarrow> None
      | Some e \<Rightarrow> Some (take (e - pos) (drop pos data), e + 2))"

definition parse_simple_string :: "string \<Rightarrow> nat \<Rightarrow> outcome" where
  "parse_simple_string data pos =
     (case read_line data pos of
        None \<Rightarrow> Raised Incomplete
      | Some (line, pos) \<Rightarrow> Returned (RESPValue SimpleString (DString line)) pos)"

definition parse_error :: "string \<Rightarrow> nat \<Rightarrow> outcome" where
  "parse_error data pos =
     (case read_line data pos of
        None \<Rightarrow> Raised Incomplete
      | Some (line, pos) \<Rightarrow> Returned (RESPValue Error (DString line)) pos)"

definition parse_integer :: "string \<Rightarrow> nat \<Rightarrow> outcome" where
  "parse_integer data pos =
     (case read_line data pos of
        None \<Rightarrow> Raised Incomplete
      | Some (line, pos) \<Rightarrow>
          (case stoll line of
             Inl e \<Rightarrow> Raised (BadNumber e)
           | Inr i \<Rightarrow> Returned (RESPValue Integer (DInt i)) pos))"

text \<open>
  \<^verbatim>\<open>pos + len\<close> mixes \<^verbatim>\<open>size_t\<close> and \<^verbatim>\<open>long long\<close>: the
  length is converted to \<^verbatim>\<open>size_t\<close> and the sum wraps.
\<close>

definition parse_bulk_string :: "string \<Rightarrow> nat \<Rightarrow> outcome" where
  "parse_bulk_string data pos =
     (case read_line data pos of
        None \<Rightarrow> Raised Incomplete
      | Some (len_str, pos) \<Rightarrow>
          (case stoll len_str of
             Inl e \<Rightarrow> Raised (BadNumber e)
           | Inr len \<Rightarrow>
               if len = -1 then Returned (RESPValue Null (DString [])) pos
               else if add_size_t pos (to_size_t len) > length data then Raised Incomplete
               else let content = take (to_size_t len) (drop pos data);
                        pos = add_size_t pos (to_size_t len)
                    in if add_size_t pos 2 > length data \<or> data ! pos \<noteq> CR \<or> data ! (pos + 1) \<noteq> LF
                       then Raised Incomplete
                       else Returned (RESPValue BulkString (DString content)) (pos + 2)))"

section \<open>Arrays and the dispatch on the type byte\<close>

text \<open>\<^verbatim>\<open>std::vector<RESPValue>::max_size()\<close>: the largest object over 48 bytes each.\<close>

definition vector_max_size :: nat where
  "vector_max_size = (2 ^ 63 - 1) div 48"

definition reserve_ok :: "nat \<Rightarrow> int \<Rightarrow> bool" where
  "reserve_ok vm len \<longleftrightarrow> to_size_t len \<le> vector_max_size \<and> to_size_t len \<le> vm"

fun parse_value :: "nat \<Rightarrow> nat \<Rightarrow> string \<Rightarrow> nat \<Rightarrow> outcome option"
and parse_elements :: "nat \<Rightarrow> nat \<Rightarrow> string \<Rightarrow> int \<Rightarrow> int \<Rightarrow> resp_value list \<Rightarrow> nat \<Rightarrow> outcome option"
where
  "parse_value vm 0 data pos = None"
| "parse_value vm (Suc f) data pos =
     (if pos \<ge> length data then Some (Raised Incomplete)
      else let c = data ! pos; pos = pos + 1 in
        if c = CHR ''+'' then Some (parse_simple_string data pos)
        else if c = CHR ''-'' then Some (parse_error data pos)
        else if c = CHR '':'' then Some (parse_integer data pos)
        else if c = CHR ''$'' then Some (parse_bulk_string data pos)
        else if c = CHR ''*'' then
          (case read_line data pos of
             None \<Rightarrow> Some (Raised Incomplete)
           | Some (len_str, pos) \<Rightarrow>
               (case stoll len_str of
                  Inl e \<Rightarrow> Some (Raised (BadNumber e))
                | Inr len \<Rightarrow>
                    if len = -1 then Some (Returned (RESPValue Array (DArray [])) pos)
                    else if \<not> reserve_ok vm len then Some (Raised LengthError)
                    else parse_elements vm f data len 0 [] pos))
        else Some (Raised (UnknownType c)))"
| "parse_elements vm 0 data len i elements pos = None"
| "parse_elements vm (Suc f) data len i elements pos =
     (if i < len
      then (case parse_value vm f data pos of
              None \<Rightarrow> None
            | Some (Raised e) \<Rightarrow> Some (Raised e)
            | Some (Returned v pos) \<Rightarrow> parse_elements vm f data len (i + 1) (elements @ [v]) pos)
      else Some (Returned (RESPValue Array (DArray elements)) pos))"

declare parse_value.simps [simp del] parse_elements.simps [simp del]

lemmas parse_unfolds = parse_value.simps parse_elements.simps

text \<open>\<^verbatim>\<open>RESP_Parser::parse\<close>: the two public entry points.\<close>

definition resp_parse :: "nat \<Rightarrow> nat \<Rightarrow> string \<Rightarrow> nat \<Rightarrow> outcome option" where
  "resp_parse vm f data pos = parse_value vm f data pos"

definition resp_parse0 :: "nat \<Rightarrow> nat \<Rightarrow> string \<Rightarrow> outcome option" where
  "resp_parse0 vm f data = parse_value vm f data 0"

text \<open>One equation per type byte.\<close>

lemma parse_value_end: "pos \<ge> length data \<Longrightarrow> parse_value vm (Suc f) data pos = Some (Raised Incomplete)"
  by (simp add: parse_unfolds)

lemma parse_value_plus [resp_simps]:
  "pos < length data \<Longrightarrow> data ! pos = CHR ''+'' \<Longrightarrow>
   parse_value vm (Suc f) data pos = Some (parse_simple_string data (pos + 1))"
  by (simp add: parse_unfolds)

lemma parse_value_minus [resp_simps]:
  "pos < length data \<Longrightarrow> data ! pos = CHR ''-'' \<Longrightarrow>
   parse_value vm (Suc f) data pos = Some (parse_error data (pos + 1))"
  by (simp add: parse_unfolds)

lemma parse_value_colon [resp_simps]:
  "pos < length data \<Longrightarrow> data ! pos = CHR '':'' \<Longrightarrow>
   parse_value vm (Suc f) data pos = Some (parse_integer data (pos + 1))"
  by (simp add: parse_unfolds)

lemma parse_value_dollar [resp_simps]:
  "pos < length data \<Longrightarrow> data ! pos = CHR ''$'' \<Longrightarrow>
   parse_value vm (Suc f) data pos = Some (parse_bulk_string data (pos + 1))"
  by (simp add: parse_unfolds)

lemma parse_value_star:
  "pos < length data \<Longrightarrow> data ! pos = CHR ''*'' \<Longrightarrow>
   parse_value vm (Suc f) data pos =
     (case read_line data (pos + 1) of
        None \<Rightarrow> Some (Raised Incomplete)
      | Some (l, p) \<Rightarrow>
          (case stoll l of
             Inl e \<Rightarrow> Some (Raised (BadNumber e))
           | Inr len \<Rightarrow>
               if len = -1 then Some (Returned (RESPValue Array (DArray [])) p)
               else if \<not> reserve_ok vm len then Some (Raised LengthError)
               else parse_elements vm f data len 0 [] p))"
  by (simp add: parse_unfolds)

section \<open>Lines\<close>

lemma read_line_append:
  "crlf_offset s = None \<Longrightarrow>
   read_line (pre @ s @ CR # LF # r) (length pre) = Some (s, length pre + length s + 2)"
  by (simp add: read_line_def find_crlf_append)

lemma read_line_bounds:
  assumes "read_line data pos = Some (l, p)"
  shows "p = pos + length l + 2 \<and> p \<le> length data"
proof -
  from assms obtain e where e: "find_crlf data pos = Some e" "l = take (e - pos) (drop pos data)" "p = e + 2"
    by (auto simp: read_line_def split: option.splits)
  from find_crlf_Some_bounds [OF e(1)] e(2,3) show ?thesis by auto
qed

lemma read_line_mono:
  assumes "read_line data pos = Some r"
  shows "read_line (data @ more) pos = Some r"
proof -
  from assms obtain e where e: "find_crlf data pos = Some e"
    "r = (take (e - pos) (drop pos data), e + 2)"
    by (auto simp: read_line_def split: option.splits)
  have "pos \<le> e \<and> e + 2 \<le> length data" using e(1) by (rule find_crlf_Some_bounds)
  then show ?thesis using e find_crlf_mono [OF e(1), of more] by (simp add: read_line_def)
qed

lemma read_line_None_append:
  "crlf_offset s = None \<Longrightarrow> read_line (pre @ s) (length pre) = None"
  by (simp add: read_line_def find_crlf_def)

section \<open>Fuel\<close>

text \<open>More fuel never changes an outcome.\<close>

lemma parse_fuel_mono_aux:
  "(parse_value vm f data pos = Some o1 \<longrightarrow> parse_value vm (Suc f) data pos = Some o1) \<and>
   (parse_elements vm f data len i acc p = Some o2 \<longrightarrow>
      parse_elements vm (Suc f) data len i acc p = Some o2)"
proof (induction f arbitrary: pos o1 len i acc p o2)
  case 0
  then show ?case by (simp add: parse_unfolds)
next
  case (Suc f)
  show ?case
  proof (intro conjI impI)
    assume "parse_value vm (Suc f) data pos = Some o1"
    then show "parse_value vm (Suc (Suc f)) data pos = Some o1"
      by (subst parse_value.simps)
        (auto simp: parse_value.simps(2) Let_def Suc.IH split: if_splits option.splits sum.splits)
  next
    assume h: "parse_elements vm (Suc f) data len i acc p = Some o2"
    show "parse_elements vm (Suc (Suc f)) data len i acc p = Some o2"
    proof (cases "i < len")
      case False
      with h show ?thesis by (simp add: parse_elements.simps)
    next
      case True
      with h obtain v where v: "parse_value vm f data p = Some v"
        by (auto simp: parse_elements.simps split: option.splits)
      then have "parse_value vm (Suc f) data p = Some v" using Suc.IH by blast
      show ?thesis
      proof (cases v)
        case (Raised e)
        with h v True have "o2 = Raised e" by (simp add: parse_elements.simps(2))
        with True \<open>parse_value vm (Suc f) data p = Some v\<close> Raised show ?thesis
          by (simp add: parse_elements.simps(2) [of vm "Suc f"])
      next
        case (Returned w q)
        with h v True have "parse_elements vm f data len (i + 1) (acc @ [w]) q = Some o2"
          by (simp add: parse_elements.simps(2))
        then have "parse_elements vm (Suc f) data len (i + 1) (acc @ [w]) q = Some o2"
          using Suc.IH by blast
        with True \<open>parse_value vm (Suc f) data p = Some v\<close> Returned show ?thesis
          by (simp add: parse_elements.simps(2) [of vm "Suc f"])
      qed
    qed
  qed
qed

lemma parse_value_fuel_mono:
  "parse_value vm f data pos = Some r \<Longrightarrow> f \<le> g \<Longrightarrow> parse_value vm g data pos = Some r"
proof (induction g)
  case 0
  then show ?case by simp
next
  case (Suc g)
  then show ?case using parse_fuel_mono_aux by (metis le_Suc_eq)
qed

lemma parse_elements_fuel_mono:
  "parse_elements vm f data len i acc pos = Some r \<Longrightarrow> f \<le> g \<Longrightarrow>
   parse_elements vm g data len i acc pos = Some r"
proof (induction g)
  case 0
  then show ?case by simp
next
  case (Suc g)
  then show ?case using parse_fuel_mono_aux by (metis le_Suc_eq)
qed

lemma parse_value_det:
  "parse_value vm f data pos = Some r \<Longrightarrow> parse_value vm g data pos = Some r' \<Longrightarrow> r = r'"
  using parse_value_fuel_mono by (metis nat_le_linear option.inject)

section \<open>The parser without fuel\<close>

text \<open>
  The same recursion where \<open>None\<close> is that the call never returns. It is one function for the two that
  call each other: \<open>None\<close> is a call of \<^verbatim>\<open>parse_value\<close>, and otherwise the element loop of
  \<^verbatim>\<open>parse_array\<close> with its length, its counter and the elements it has.
\<close>

partial_function (option) parse_run :: "nat \<Rightarrow> string \<Rightarrow> (int \<times> int \<times> resp_value list) option \<Rightarrow> nat \<Rightarrow> outcome option" where
  "parse_run vm data job pos =
     (case job of
        None \<Rightarrow>
          (if pos \<ge> length data then Some (Raised Incomplete)
           else if data ! pos = CHR ''+'' then Some (parse_simple_string data (pos + 1))
           else if data ! pos = CHR ''-'' then Some (parse_error data (pos + 1))
           else if data ! pos = CHR '':'' then Some (parse_integer data (pos + 1))
           else if data ! pos = CHR ''$'' then Some (parse_bulk_string data (pos + 1))
           else if data ! pos = CHR ''*'' then
             (case read_line data (pos + 1) of
                None \<Rightarrow> Some (Raised Incomplete)
              | Some (len_str, pos) \<Rightarrow>
                  (case stoll len_str of
                     Inl e \<Rightarrow> Some (Raised (BadNumber e))
                   | Inr len \<Rightarrow>
                       if len = -1 then Some (Returned (RESPValue Array (DArray [])) pos)
                       else if \<not> reserve_ok vm len then Some (Raised LengthError)
                       else parse_run vm data (Some (len, 0, [])) pos))
           else Some (Raised (UnknownType (data ! pos))))
      | Some (len, i, elements) \<Rightarrow>
          (if i < len
           then Option.bind (parse_run vm data None pos)
                  (\<lambda>r. case r of
                     Raised e \<Rightarrow> Some (Raised e)
                   | Returned v pos \<Rightarrow> parse_run vm data (Some (len, i + 1, elements @ [v])) pos)
           else Some (Returned (RESPValue Array (DArray elements)) pos)))"

text \<open>It returns what the parser with fuel returns for some fuel.\<close>

lemma parse_run_fuel:
  "(parse_value vm f data pos = Some r \<longrightarrow> parse_run vm data None pos = Some r) \<and>
   (parse_elements vm f data len i es p = Some r' \<longrightarrow> parse_run vm data (Some (len, i, es)) p = Some r')"
proof (induction f arbitrary: pos r len i es p r')
  case 0
  then show ?case by (simp add: parse_unfolds)
next
  case (Suc f)
  show ?case
  proof (intro conjI impI)
    assume "parse_value vm (Suc f) data pos = Some r"
    then show "parse_run vm data None pos = Some r"
      using Suc.IH by (subst parse_run.simps) (auto simp: parse_value.simps(2) Let_def split: if_splits option.splits sum.splits)
  next
    assume "parse_elements vm (Suc f) data len i es p = Some r'"
    then show "parse_run vm data (Some (len, i, es)) p = Some r'"
      using Suc.IH by (subst parse_run.simps) (auto simp: parse_elements.simps(2) split: if_splits option.splits outcome.splits)
  qed
qed

fun job_fuel :: "nat \<Rightarrow> nat \<Rightarrow> string \<Rightarrow> (int \<times> int \<times> resp_value list) option \<Rightarrow> nat \<Rightarrow> outcome option" where
  "job_fuel vm f data None pos = parse_value vm f data pos"
| "job_fuel vm f data (Some (len, i, es)) pos = parse_elements vm f data len i es pos"

lemma job_fuel_elements:
  assumes "parse_value vm f data pos = Some q" and "i < len"
    and "case q of Raised e \<Rightarrow> r = Raised e | Returned v p \<Rightarrow> parse_elements vm g data len (i + 1) (es @ [v]) p = Some r"
  shows "parse_elements vm (Suc (max f g)) data len i es pos = Some r"
proof -
  have "parse_value vm (max f g) data pos = Some q" using assms(1) by (rule parse_value_fuel_mono) simp
  with assms(2,3) parse_elements_fuel_mono [of vm g data len "i + 1" _ _ r "max f g"] show ?thesis
    by (auto simp: parse_elements.simps(2) split: outcome.splits)
qed

lemma parse_run_returns: "parse_run vm data job pos = Some r \<Longrightarrow> \<exists>f. job_fuel vm f data job pos = Some r"
proof (erule parse_run.raw_induct [where P = "\<lambda>vm data job pos r. \<exists>f. job_fuel vm f data job pos = Some r", rotated], goal_cases)
  case (1 run vm data job pos r)
  show ?case
  proof (cases job)
    case None
    show ?thesis
    proof (cases "\<exists>l p len. pos < length data \<and> data ! pos = CHR ''*'' \<and> read_line data (pos + 1) = Some (l, p) \<and>
        stoll l = Inr len \<and> len \<noteq> -1 \<and> reserve_ok vm len")
      case True
      then obtain l p len where l: "pos < length data" "data ! pos = CHR ''*''" "read_line data (pos + 1) = Some (l, p)"
        "stoll l = Inr len" "len \<noteq> -1" "reserve_ok vm len" by blast
      then have "run vm data (Some (len, 0, [])) p = Some r" using 1(2) None by simp
      from 1(1) [OF this] obtain f where "parse_elements vm f data len 0 [] p = Some r" by auto
      with l have "parse_value vm (Suc f) data pos = Some r" by (simp add: parse_value_star)
      then show ?thesis using None by (intro exI [of _ "Suc f"]) simp
    next
      case False
      then have "parse_value vm 1 data pos = Some r"
        using 1(2) None by (auto simp: parse_value.simps(2) Let_def split: if_splits option.splits sum.splits)
      then show ?thesis using None by (intro exI [of _ 1]) simp
    qed
  next
    case (Some j)
    obtain len i es where j: "j = (len, i, es)" by (cases j)
    show ?thesis
    proof (cases "i < len")
      case True
      then obtain q where q: "run vm data None pos = Some q"
        "(case q of Raised e \<Rightarrow> Some (Raised e) | Returned v p \<Rightarrow> run vm data (Some (len, i + 1, es @ [v])) p) = Some r"
        using 1(2) Some j by (auto simp: bind_eq_Some_conv)
      from 1(1) [OF q(1)] obtain f where f: "parse_value vm f data pos = Some q" by auto
      have "\<exists>g. case q of Raised e \<Rightarrow> r = Raised e
          | Returned v p \<Rightarrow> parse_elements vm g data len (i + 1) (es @ [v]) p = Some r"
        using q(2) 1(1) by (cases q) fastforce+
      with job_fuel_elements [OF f True] Some j show ?thesis by fastforce
    next
      case False
      then show ?thesis using 1(2) Some j by (intro exI [of _ 1]) (simp add: parse_elements.simps(2))
    qed
  qed
qed

lemma parse_run_iff: "parse_run vm data None pos = Some r \<longleftrightarrow> (\<exists>f. parse_value vm f data pos = Some r)"
  using parse_run_returns [of vm data None pos r] parse_run_fuel by auto

end
