(* ===== verification/Resp_Safety.thy ===== *)
theory Resp_Safety
  imports Resp_Parser
begin

text \<open>
  Bounds, progress, termination and stability of the RESP parser. The buffers the parser is
  meant for declare no bulk length below \<open>-1\<close> (\<open>bulk_len_safe\<close>); on those every call
  moves forward and one unit of fuel per byte is enough. Off them the arithmetic wraps: two
  concrete buffers show a bulk string read past its header and a parse that never ends.
\<close>

section \<open>Safe buffers\<close>

text \<open>No position holds a bulk header whose declared length is below \<open>-1\<close>.\<close>

definition bulk_header_ok :: "string \<Rightarrow> nat \<Rightarrow> bool" where
  "bulk_header_ok data p =
     (case read_line data (p + 1) of
        None \<Rightarrow> True
      | Some (l, q) \<Rightarrow> (case stoll l of Inl e \<Rightarrow> True | Inr len \<Rightarrow> - 1 \<le> len))"

definition bulk_len_safe :: "string \<Rightarrow> bool" where
  "bulk_len_safe data =
     list_all (\<lambda>p. data ! p = CHR ''$'' \<longrightarrow> bulk_header_ok data p) [0..<length data]"

lemma bulk_len_safeD:
  "bulk_len_safe data \<Longrightarrow> p < length data \<Longrightarrow> data ! p = CHR ''$'' \<Longrightarrow> bulk_header_ok data p"
  by (auto simp: bulk_len_safe_def list_all_iff)

text \<open>The sizes of the process: no string is longer than half the address space.\<close>

definition fits_memory :: "string \<Rightarrow> bool" where
  "fits_memory data \<longleftrightarrow> length data < 2 ^ 63"

section \<open>Scalars move forward\<close>

lemma parse_simple_string_bounds:
  "parse_simple_string data pos = Returned v p \<Longrightarrow> pos + 2 \<le> p \<and> p \<le> length data"
  by (auto simp: parse_simple_string_def split: option.splits dest: read_line_bounds)

lemma parse_error_bounds:
  "parse_error data pos = Returned v p \<Longrightarrow> pos + 2 \<le> p \<and> p \<le> length data"
  by (auto simp: parse_error_def split: option.splits dest: read_line_bounds)

lemma parse_integer_bounds:
  "parse_integer data pos = Returned v p \<Longrightarrow> pos + 2 \<le> p \<and> p \<le> length data"
  by (auto simp: parse_integer_def split: option.splits sum.splits dest: read_line_bounds)

lemma parse_bulk_string_cases:
  assumes "parse_bulk_string data pos = Returned v p" and "pos > 0" "bulk_header_ok data (pos - 1)"
    and "fits_memory data"
  obtains (null) l where "read_line data pos = Some (l, p)" "stoll l = Inr (- 1)"
      "v = RESPValue Null (DString [])"
  | (content) l q len where "read_line data pos = Some (l, q)" "stoll l = Inr len" "0 \<le> len"
      "v = RESPValue BulkString (DString (take (nat len) (drop q data)))"
      "p = q + nat len + 2" "p \<le> length data"
      "data ! (q + nat len) = CR" "data ! (q + nat len + 1) = LF"
proof -
  from assms(1) obtain l q where l: "read_line data pos = Some (l, q)"
    by (auto simp: parse_bulk_string_def split: option.splits)
  with assms(1) obtain len where len: "stoll l = Inr len"
    by (auto simp: parse_bulk_string_def split: sum.splits)
  have ge: "- 1 \<le> len" using assms(2,3) l len by (simp add: bulk_header_ok_def)
  have q: "q \<le> length data" using read_line_bounds [OF l] by simp
  show thesis
  proof (cases "len = - 1")
    case True
    then have "v = RESPValue Null (DString [])" and "p = q"
      using assms(1) l len by (auto simp: parse_bulk_string_def)
    with l len True show ?thesis by (intro null) auto
  next
    case False
    with ge have pos: "0 \<le> len" by simp
    have lt: "len < 2 ^ 63" using stoll_range [OF len] by (simp add: llong_max_def)
    have sz: "to_size_t len = nat len" using pos lt by (rule to_size_t_nonneg)
    have add: "add_size_t q (nat len) = q + nat len"
      using q lt assms(4) pos by (intro add_size_t_small) (simp add: fits_memory_def)
    from assms(1) l len False have b: "q + nat len \<le> length data"
      by (auto simp: parse_bulk_string_def sz add Let_def split: if_splits)
    have add2: "add_size_t (q + nat len) 2 = q + nat len + 2"
      using b assms(4) by (intro add_size_t_small) (simp add: fits_memory_def)
    from assms(1) l len False b
    have "v = RESPValue BulkString (DString (take (nat len) (drop q data)))"
      "p = q + nat len + 2" "p \<le> length data" "data ! (q + nat len) = CR" "data ! (q + nat len + 1) = LF"
      by (auto simp: parse_bulk_string_def sz add add2 Let_def split: if_splits)
    with l len pos show ?thesis by (rule content)
  qed
qed

lemma parse_bulk_string_bounds:
  assumes "parse_bulk_string data pos = Returned v p" "pos > 0" "bulk_header_ok data (pos - 1)"
    and "fits_memory data"
  shows "pos + 2 \<le> p \<and> p \<le> length data"
  using assms by (rule parse_bulk_string_cases) (auto dest: read_line_bounds)

lemma parse_bulk_string_Suc_bounds:
  assumes "parse_bulk_string data (Suc pos) = Returned v p" "bulk_len_safe data"
    and "pos < length data" "data ! pos = CHR ''$''" "fits_memory data"
  shows "pos < p \<and> p \<le> length data"
  using parse_bulk_string_bounds [OF assms(1)] bulk_len_safeD [OF assms(2-4)] assms(5) by simp

section \<open>Progress and bounds\<close>

text \<open>The array header consumes at least three bytes before the first element.\<close>

lemma array_header_progress:
  "read_line data (Suc pos) = Some (l, p) \<Longrightarrow> pos + 3 \<le> p \<and> p \<le> length data"
  by (auto dest: read_line_bounds)

lemma parse_progress_aux:
  assumes "bulk_len_safe data" and "fits_memory data"
  shows "(parse_value vm f data pos = Some (Returned v p) \<longrightarrow> pos < p \<and> p \<le> length data) \<and>
    (q \<le> length data \<and> parse_elements vm f data len i acc q = Some (Returned w r) \<longrightarrow>
      q \<le> r \<and> r \<le> length data)"
proof (induction f arbitrary: pos v p len i acc q w r)
  case 0
  then show ?case by (simp add: parse_unfolds)
next
  case (Suc f)
  show ?case
  proof (intro conjI impI)
    assume h: "parse_value vm (Suc f) data pos = Some (Returned v p)"
    then have lt: "pos < length data" by (auto simp: parse_value.simps(2) split: if_splits)
    show "pos < p" and "p \<le> length data"
    proof -
      have "pos < p \<and> p \<le> length data"
      proof (cases "data ! pos = CHR ''*''")
        case False
        then show ?thesis
          using h lt assms
          by (auto simp: parse_value.simps(2) Let_def split: if_splits
              dest: parse_simple_string_bounds parse_error_bounds parse_integer_bounds
                parse_bulk_string_Suc_bounds)
      next
        case True
        with h lt obtain l s n where l: "read_line data (Suc pos) = Some (l, s)"
          and n: "s = p \<or> parse_elements vm f data n 0 [] s = Some (Returned v p)"
          by (auto simp: parse_value_star split: option.splits sum.splits if_splits) blast+
        from array_header_progress [OF l] have "pos + 3 \<le> s" "s \<le> length data" by auto
        then have "s \<le> p \<and> p \<le> length data" using n Suc.IH by blast
        with \<open>pos + 3 \<le> s\<close> show ?thesis by simp
      qed
      then show "pos < p" and "p \<le> length data" by auto
    qed
  next
    assume "q \<le> length data \<and> parse_elements vm (Suc f) data len i acc q = Some (Returned w r)"
    then have h: "q \<le> length data" "parse_elements vm (Suc f) data len i acc q = Some (Returned w r)"
      by auto
    have "q \<le> r \<and> r \<le> length data"
    proof (cases "i < len")
      case False
      with h show ?thesis by (simp add: parse_elements.simps(2))
    next
      case True
      with h(2) obtain x s where x: "parse_value vm f data q = Some (Returned x s)"
        "parse_elements vm f data len (i + 1) (acc @ [x]) s = Some (Returned w r)"
        by (auto simp: parse_elements.simps(2) split: option.splits outcome.splits)
      have "q < s" "s \<le> length data" using Suc.IH x(1) by blast+
      moreover have "s \<le> r \<and> r \<le> length data" using Suc.IH x(2) calculation(2) by blast
      ultimately show ?thesis by simp
    qed
    then show "q \<le> r" and "r \<le> length data" by auto
  qed
qed

lemma parse_value_progress:
  assumes "bulk_len_safe data" "fits_memory data"
    and "parse_value vm f data pos = Some (Returned v p)"
  shows "pos < p" and "p \<le> length data"
  using parse_progress_aux [OF assms(1,2)] assms(3) by blast+

section \<open>Termination\<close>

lemma parse_terminates_aux:
  assumes "bulk_len_safe data" and "fits_memory data"
  shows "(length data - pos < f \<longrightarrow> parse_value vm f data pos \<noteq> None) \<and>
    (q \<le> length data \<and> length data - q + 1 < f \<longrightarrow> parse_elements vm f data len i acc q \<noteq> None)"
proof (induction f arbitrary: pos len i acc q)
  case 0
  then show ?case by simp
next
  case (Suc f)
  show ?case
  proof (intro conjI impI)
    assume h: "length data - pos < Suc f"
    show "parse_value vm (Suc f) data pos \<noteq> None"
    proof (cases "pos < length data \<and> data ! pos = CHR ''*''")
      case False
      then show ?thesis by (auto simp: parse_value.simps(2) Let_def)
    next
      case True
      have "parse_elements vm f data n 0 [] p \<noteq> None"
        if "read_line data (Suc pos) = Some (l, p)" for l p n
      proof -
        from array_header_progress [OF that] have "p \<le> length data \<and> length data - p + 1 < f"
          using h True by auto
        then show ?thesis using Suc.IH by blast
      qed
      with True show ?thesis
        by (auto simp: parse_value_star split: option.splits sum.splits)
    qed
  next
    assume h: "q \<le> length data \<and> length data - q + 1 < Suc f"
    show "parse_elements vm (Suc f) data len i acc q \<noteq> None"
    proof (cases "i < len")
      case False
      then show ?thesis by (simp add: parse_elements.simps(2))
    next
      case True
      have "length data - q < f" using h by simp
      then obtain o1 where o1: "parse_value vm f data q = Some o1" using Suc.IH by blast
      show ?thesis
      proof (cases o1)
        case (Raised e)
        with o1 True show ?thesis by (simp add: parse_elements.simps(2))
      next
        case (Returned x s)
        with parse_value_progress [OF assms] o1 have "q < s" "s \<le> length data" by auto
        then have "s \<le> length data \<and> length data - s + 1 < f" using h by auto
        then have "parse_elements vm f data len (i + 1) (acc @ [x]) s \<noteq> None" using Suc.IH by blast
        with o1 Returned True show ?thesis by (simp add: parse_elements.simps(2))
      qed
    qed
  qed
qed

lemma parse_value_terminates:
  assumes "bulk_len_safe data" "fits_memory data" "length data - pos < f"
  obtains r where "parse_value vm f data pos = Some r"
  using parse_terminates_aux [OF assms(1,2), of pos f vm] assms(3) by blast

section \<open>Results are well typed\<close>

lemma scalar_wt:
  "parse_simple_string data pos = Returned v p \<Longrightarrow> wt_value v"
  "parse_error data pos = Returned v p \<Longrightarrow> wt_value v"
  "parse_integer data pos = Returned v p \<Longrightarrow> wt_value v"
  "parse_bulk_string data pos = Returned v p \<Longrightarrow> wt_value v"
  by (auto simp: parse_simple_string_def parse_error_def parse_integer_def parse_bulk_string_def
      Let_def split: option.splits sum.splits if_splits dest!: stoll_range)

lemma parse_wt_aux:
  "(parse_value vm f data pos = Some (Returned v p) \<longrightarrow> wt_value v) \<and>
   (list_all wt_value acc \<and> parse_elements vm f data len i acc q = Some (Returned w r) \<longrightarrow> wt_value w)"
proof (induction f arbitrary: pos v p len i acc q w r)
  case 0
  then show ?case by (simp add: parse_unfolds)
next
  case (Suc f)
  have IH: "wt_value v" if "parse_elements vm f data n 0 [] s = Some (Returned v p)" for n s v p
  proof -
    have "list_all wt_value [] \<and> parse_elements vm f data n 0 [] s = Some (Returned v p)"
      using that by simp
    then show ?thesis using Suc.IH by blast
  qed
  show ?case
  proof (intro conjI impI)
    assume "parse_value vm (Suc f) data pos = Some (Returned v p)"
    then show "wt_value v"
      by (auto simp: parse_value.simps(2) Let_def split: if_splits option.splits sum.splits
          dest: scalar_wt IH)
  next
    assume h: "list_all wt_value acc \<and> parse_elements vm (Suc f) data len i acc q = Some (Returned w r)"
    show "wt_value w"
    proof (cases "i < len")
      case False
      with h show ?thesis by (auto simp: parse_elements.simps(2))
    next
      case True
      with h obtain x s where x: "parse_value vm f data q = Some (Returned x s)"
        "parse_elements vm f data len (i + 1) (acc @ [x]) s = Some (Returned w r)"
        by (auto simp: parse_elements.simps(2) split: option.splits outcome.splits)
      have "wt_value x" using Suc.IH x(1) by blast
      with h x(2) Suc.IH [of pos v p "acc @ [x]" len "i + 1" s w r] show ?thesis by simp
    qed
  qed
qed

lemma parse_value_wt: "parse_value vm f data pos = Some (Returned v p) \<Longrightarrow> wt_value v"
  using parse_wt_aux by blast

section \<open>More input does not change a finished parse\<close>

lemma scalar_stable:
  "parse_simple_string data pos \<noteq> Raised Incomplete \<Longrightarrow>
   parse_simple_string (data @ more) pos = parse_simple_string data pos"
  "parse_error data pos \<noteq> Raised Incomplete \<Longrightarrow>
   parse_error (data @ more) pos = parse_error data pos"
  "parse_integer data pos \<noteq> Raised Incomplete \<Longrightarrow>
   parse_integer (data @ more) pos = parse_integer data pos"
  by (auto simp: parse_simple_string_def parse_error_def parse_integer_def
      split: option.splits sum.splits dest: read_line_mono [where more = more])

lemma parse_bulk_string_stable:
  assumes "parse_bulk_string data (Suc pos) \<noteq> Raised Incomplete" "bulk_header_ok data pos"
    and "fits_memory (data @ more)"
  shows "parse_bulk_string (data @ more) (Suc pos) = parse_bulk_string data (Suc pos)"
proof -
  from assms(1) obtain l q where l: "read_line data (Suc pos) = Some (l, q)"
    by (auto simp: parse_bulk_string_def split: option.splits)
  have l': "read_line (data @ more) (Suc pos) = Some (l, q)" using l by (rule read_line_mono)
  show ?thesis
  proof (cases "parse_bulk_string data (Suc pos)")
    case (Raised e)
    with assms(1) l l' show ?thesis
      by (auto simp: parse_bulk_string_def Let_def split: sum.splits if_splits)
  next
    case (Returned v p)
    have fm: "fits_memory data" using assms(3) by (simp add: fits_memory_def)
    from Returned _ _ fm show ?thesis
    proof (rule parse_bulk_string_cases)
      show "0 < Suc pos" and "bulk_header_ok data (Suc pos - 1)" using assms(2) by simp_all
    next
      fix l1 assume "read_line data (Suc pos) = Some (l1, p)" "stoll l1 = Inr (- 1)"
        "v = RESPValue Null (DString [])"
      with l l' Returned show ?thesis by (simp add: parse_bulk_string_def)
    next
      fix l1 q1 len
      assume r: "read_line data (Suc pos) = Some (l1, q1)" "stoll l1 = Inr len" "0 \<le> len"
        and v: "v = RESPValue BulkString (DString (take (nat len) (drop q1 data)))"
        and p: "p = q1 + nat len + 2" "p \<le> length data"
        and c: "data ! (q1 + nat len) = CR" "data ! (q1 + nat len + 1) = LF"
      have sz: "to_size_t len = nat len"
        using r(3) stoll_range [OF r(2)] by (intro to_size_t_nonneg) (auto simp: llong_max_def)
      have add: "add_size_t q1 (nat len) = q1 + nat len"
        using p fm by (intro add_size_t_small) (simp add: fits_memory_def)
      have add2: "add_size_t (q1 + nat len) 2 = q1 + nat len + 2"
        using p fm by (intro add_size_t_small) (simp add: fits_memory_def)
      have "parse_bulk_string (data @ more) (Suc pos) = Returned v p"
        using r l l' v p c sz add add2 by (auto simp: parse_bulk_string_def nth_append Let_def)
      with Returned show ?thesis by simp
    qed
  qed
qed

lemma parse_stable_aux:
  assumes "bulk_len_safe data" and "fits_memory (data @ more)"
  shows "(parse_value vm f data pos = Some r1 \<and> r1 \<noteq> Raised Incomplete \<longrightarrow>
      parse_value vm f (data @ more) pos = Some r1) \<and>
    (parse_elements vm f data len i acc q = Some r2 \<and> r2 \<noteq> Raised Incomplete \<longrightarrow>
      parse_elements vm f (data @ more) len i acc q = Some r2)"
proof (induction f arbitrary: pos r1 len i acc q r2)
  case 0
  then show ?case by (simp add: parse_unfolds)
next
  case (Suc f)
  have IHe: "parse_elements vm f (data @ more) n 0 [] s = Some r"
    if "parse_elements vm f data n 0 [] s = Some r" "r \<noteq> Raised Incomplete" for n s r
    using that Suc.IH by blast
  show ?case
  proof (intro conjI impI)
    assume h: "parse_value vm (Suc f) data pos = Some r1 \<and> r1 \<noteq> Raised Incomplete"
    then have lt: "pos < length data" by (auto simp: parse_value.simps(2) split: if_splits)
    then have nth: "(data @ more) ! pos = data ! pos" "pos < length (data @ more)"
      by (simp_all add: nth_append)
    show "parse_value vm (Suc f) (data @ more) pos = Some r1"
    proof (cases "data ! pos = CHR ''*''")
      case True
      with h lt nth show ?thesis
        by (auto simp: parse_value_star IHe split: option.splits sum.splits if_splits
            dest: read_line_mono [where more = more])
    next
      case False
      show ?thesis
      proof (cases "data ! pos = CHR ''$''")
        case True
        with h lt have "parse_bulk_string data (Suc pos) = r1" by (simp add: resp_simps)
        with h True lt nth show ?thesis
          using parse_bulk_string_stable [of data pos more] assms bulk_len_safeD [OF assms(1) lt]
          by (simp add: resp_simps)
      next
        case no_bulk: False
        with False h lt nth show ?thesis
          by (auto simp: parse_value.simps(2) Let_def scalar_stable split: if_splits)
      qed
    qed
  next
    assume h: "parse_elements vm (Suc f) data len i acc q = Some r2 \<and> r2 \<noteq> Raised Incomplete"
    show "parse_elements vm (Suc f) (data @ more) len i acc q = Some r2"
    proof (cases "i < len")
      case False
      with h show ?thesis by (simp add: parse_elements.simps(2))
    next
      case True
      with h obtain o1 where o1: "parse_value vm f data q = Some o1" "o1 \<noteq> Raised Incomplete"
        by (auto simp: parse_elements.simps(2) split: option.splits outcome.splits)
      then have "parse_value vm f (data @ more) q = Some o1" using Suc.IH by blast
      moreover have "parse_elements vm f (data @ more) len (i + 1) (acc @ [x]) s = Some r2"
        if "parse_elements vm f data len (i + 1) (acc @ [x]) s = Some r2" for x s
        using that h Suc.IH by blast
      ultimately show ?thesis
        using h True o1 by (cases o1) (auto simp: parse_elements.simps(2))
    qed
  qed
qed

lemma parse_value_stable:
  assumes "bulk_len_safe data" "fits_memory (data @ more)"
    and "parse_value vm f data pos = Some r" "r \<noteq> Raised Incomplete"
  shows "parse_value vm f (data @ more) pos = Some r"
  using parse_stable_aux [OF assms(1,2)] assms(3,4) by blast

section \<open>Malformed bulk lengths\<close>

text \<open>
  A header \<^verbatim>\<open>$-2\<close>: \<open>pos + len\<close> wraps back onto the header's own line
  end, so the length check and the terminator check both pass.
\<close>

lemma bulk_minus_two:
  assumes "length rest < 2 ^ 62"
  shows "parse_bulk_string ([CHR ''$'', CHR ''-'', CHR ''2'', CR, LF] @ rest) 1 =
    Returned (RESPValue BulkString (DString rest)) 5"
proof -
  let ?d = "[CHR ''$'', CHR ''-'', CHR ''2'', CR, LF] @ rest"
  have l: "read_line ?d 1 = Some (''-2'', 5)"
    by (simp add: read_line_def find_crlf_def)
  have n: "stoll ''-2'' = Inr (- 2)"
    by (simp add: stoll_def split_sign_def is_space_def is_digit_def digits_val_def digit_val_def
        llong_min_def llong_max_def)
  have sz: "to_size_t (- 2) = 2 ^ 64 - 2" by (simp add: to_size_t_def)
  have a: "add_size_t 5 (2 ^ 64 - 2) = 3" "add_size_t 3 2 = 5"
    by (simp_all add: add_size_t_def size_t_mod_def)
  have t: "take (2 ^ 64 - 2) (drop 5 ?d) = rest" using assms by simp
  have nth: "?d ! 3 = CR" "?d ! (3 + 1) = LF" and len: "\<not> length ?d < 3" "\<not> length ?d < 5" by simp_all
  show ?thesis
    unfolding parse_bulk_string_def l Let_def option.case prod.case n sum.case sz a t nth
    using len by simp
qed

text \<open>
  An array whose element declares the length \<^verbatim>\<open>-12\<close>: the element ends where the
  enclosing array starts, and the parse recurses into the same array for ever.
\<close>

definition looping_reply :: string where
  "looping_reply = ''*2'' @ CRLF @ ''*2'' @ CRLF @ ''$-12'' @ CRLF"

lemma looping_reply_bulk:
  "parse_bulk_string looping_reply 9 = Returned (RESPValue BulkString (DString [])) 4"
  by (simp add: parse_bulk_string_def looping_reply_def read_line_def string_eval)

lemma looping_reply_header:
  "read_line looping_reply 1 = Some (''2'', 4)" "read_line looping_reply 5 = Some (''2'', 8)"
  "stoll ''2'' = Inr 2" "length looping_reply = 14" "looping_reply ! 0 = CHR ''*''"
  "looping_reply ! 4 = CHR ''*''" "looping_reply ! 8 = CHR ''$''"
  by (simp_all add: looping_reply_def read_line_def string_eval)

text \<open>The bulk string of the inner array moves the position back onto that array.\<close>

lemma looping_array:
  assumes "2 \<le> vm"
  shows "parse_value vm f looping_reply 4 = None"
proof (induction f rule: less_induct)
  case (less f)
  have ok: "reserve_ok vm 2" using assms
    by (simp add: reserve_ok_def vector_max_size_def to_size_t_def size_t_mod_def)
  have outer: "parse_value vm (Suc g) looping_reply 4 = parse_elements vm g looping_reply 2 0 [] 8" for g
    using ok by (simp add: parse_value_star looping_reply_header)
  have bulk: "parse_value vm (Suc g) looping_reply 8 = Some (Returned (RESPValue BulkString (DString [])) 4)"
    for g using looping_reply_bulk by (simp add: parse_value_dollar looping_reply_header)
  consider "f = 0" | "f = Suc 0" | "f = Suc (Suc 0)" | g where "f = Suc (Suc (Suc g))"
    by (metis not0_implies_Suc)
  then show ?case
  proof cases
    case 4
    have "parse_elements vm (Suc g) looping_reply 2 1 acc 4 = None" for acc
      using less [of g] 4 by (simp add: parse_elements.simps)
    then show ?thesis
      by (simp add: 4 outer bulk parse_elements.simps(2) [of vm "Suc g"])
  qed (simp_all add: outer parse_value.simps(1) parse_elements.simps)
qed

end
