(* ===== verification/Resp_Roundtrip.thy ===== *)
theory Resp_Roundtrip
  imports Resp_Safety
begin

text \<open>
  The RESP wire format as a reference encoder, and the parser of
  \<^verbatim>\<open>redis.h\<close> against it: a complete encoding parses back to its value and
  ends exactly behind it, and a buffer cut inside an encoding is reported incomplete, except
  where the cut falls between two elements of an array and the buffer is padded with zero
  bytes. \<open>buildRESPCommand\<close> is the encoder on arrays of bulk strings.
\<close>

section \<open>The wire format\<close>

fun enc :: "resp_value \<Rightarrow> string" where
  "enc (RESPValue SimpleString (DString s)) = CHR ''+'' # s @ CRLF"
| "enc (RESPValue Error (DString s)) = CHR ''-'' # s @ CRLF"
| "enc (RESPValue Integer (DInt i)) = CHR '':'' # int_to_string i @ CRLF"
| "enc (RESPValue BulkString (DString s)) =
     CHR ''$'' # nat_to_string (length s) @ CRLF @ s @ CRLF"
| "enc (RESPValue Array (DArray vs)) =
     CHR ''*'' # nat_to_string (length vs) @ CRLF @ concat (map enc vs)"
| "enc (RESPValue Null (DString s)) = ''$-1'' @ CRLF"
| "enc _ = []"

text \<open>Values a server can send so that one line carries a status and counts fit.\<close>

fun encodable :: "nat \<Rightarrow> resp_value \<Rightarrow> bool" where
  "encodable vm (RESPValue SimpleString (DString s)) = (crlf_offset s = None)"
| "encodable vm (RESPValue Error (DString s)) = (crlf_offset s = None)"
| "encodable vm (RESPValue Integer (DInt i)) = (llong_min \<le> i \<and> i \<le> llong_max)"
| "encodable vm (RESPValue BulkString (DString s)) = True"
| "encodable vm (RESPValue Array (DArray vs)) =
     (reserve_ok vm (int (length vs)) \<and> length vs < 2 ^ 63 \<and> list_all (encodable vm) vs)"
| "encodable vm (RESPValue Null (DString s)) = (s = [])"
| "encodable vm _ = False"

abbreviation enc_all :: "resp_value list \<Rightarrow> string" where
  "enc_all vs \<equiv> concat (map enc vs)"

lemma enc_length_pos: "encodable vm v \<Longrightarrow> 3 \<le> length (enc v)"
  by (induction vm v rule: encodable.induct) auto

lemma stoll_count: "n < 2 ^ 63 \<Longrightarrow> stoll (nat_to_string n) = Inr (int n)"
  by (rule stoll_nat_to_string) (simp add: llong_max_def)

section \<open>Complete encodings\<close>

lemma parse_simple_string_enc:
  "crlf_offset s = None \<Longrightarrow>
   parse_simple_string (pre @ s @ CR # LF # post) (length pre) =
     Returned (RESPValue SimpleString (DString s)) (length pre + length s + 2)"
  by (simp add: parse_simple_string_def read_line_append)

lemma parse_error_enc:
  "crlf_offset s = None \<Longrightarrow>
   parse_error (pre @ s @ CR # LF # post) (length pre) =
     Returned (RESPValue Error (DString s)) (length pre + length s + 2)"
  by (simp add: parse_error_def read_line_append)

lemma parse_integer_enc:
  "llong_min \<le> i \<Longrightarrow> i \<le> llong_max \<Longrightarrow>
   parse_integer (pre @ int_to_string i @ CR # LF # post) (length pre) =
     Returned (RESPValue Integer (DInt i)) (length pre + length (int_to_string i) + 2)"
  by (simp add: parse_integer_def read_line_append stoll_int_to_string)

lemma read_line_minus_one:
  "read_line (pre @ CHR ''-'' # CHR ''1'' # CR # LF # post) (length pre) = Some (''-1'', length pre + 4)"
  using read_line_append [of "''-1''" pre post] by simp

lemma stoll_minus_one: "stoll ''-1'' = Inr (- 1)"
  by (simp add: stoll_def split_sign_def is_space_def is_digit_def digits_val_def digit_val_def
      llong_min_def llong_max_def)

lemma parse_null_enc:
  "parse_bulk_string (pre @ CHR ''-'' # CHR ''1'' # CR # LF # post) (length pre) =
     Returned (RESPValue Null (DString [])) (length pre + 4)"
  by (simp add: parse_bulk_string_def read_line_minus_one stoll_minus_one)

lemma parse_bulk_string_enc:
  assumes "fits_memory (pre @ nat_to_string (length s) @ CR # LF # s @ CR # LF # post)"
  shows "parse_bulk_string (pre @ nat_to_string (length s) @ CR # LF # s @ CR # LF # post) (length pre) =
     Returned (RESPValue BulkString (DString s))
       (length pre + length (nat_to_string (length s)) + 2 + length s + 2)"
proof -
  let ?hd = "pre @ nat_to_string (length s) @ [CR, LF]"
  let ?d = "?hd @ s @ CR # LF # post"
  let ?q = "length pre + length (nat_to_string (length s)) + 2"
  have d: "pre @ nat_to_string (length s) @ CR # LF # s @ CR # LF # post = ?d" by simp
  have q: "?q = length ?hd" by simp
  have fits: "length pre + length (nat_to_string (length s)) + length s + length post + 4 < 2 ^ 63"
    using assms by (simp add: fits_memory_def)
  then have n: "stoll (nat_to_string (length s)) = Inr (int (length s))" by (intro stoll_count) simp
  have sz: "to_size_t (int (length s)) = length s" using fits by (subst to_size_t_nonneg) simp_all
  have add: "add_size_t ?q (length s) = ?q + length s" using fits by (intro add_size_t_small) simp
  have add2: "add_size_t (?q + length s) 2 = ?q + length s + 2" using fits by (intro add_size_t_small) simp
  have take: "take (length s) (drop ?q ?d) = s" unfolding q by simp
  have nth: "?d ! (?q + length s) = CR" "?d ! (?q + length s + 1) = LF"
    unfolding q by (simp_all add: nth_append)
  have line: "read_line ?d (length pre) = Some (nat_to_string (length s), ?q)"
    using read_line_append [of "nat_to_string (length s)" pre "s @ CR # LF # post"] by simp
  have le: "\<not> length ?d < ?q + length s" "\<not> length ?d < ?q + length s + 2" by simp_all
  have nm: "int (length s) \<noteq> - 1" by simp
  show ?thesis
    unfolding d parse_bulk_string_def line option.case prod.case n sum.case sz add Let_def take add2 nth
    using le nm by simp
qed

lemma parse_elements_enc:
  assumes "\<And>v pre post f. v \<in> set vs \<Longrightarrow> fits_memory (pre @ enc v @ post) \<Longrightarrow> length (enc v) \<le> f \<Longrightarrow>
      parse_value vm f (pre @ enc v @ post) (length pre) = Some (Returned v (length pre + length (enc v)))"
    and "\<forall>v \<in> set vs. encodable vm v"
    and "fits_memory (pre @ enc_all vs @ post)" and "length (enc_all vs) < f" and "len = i + int (length vs)"
  shows "parse_elements vm f (pre @ enc_all vs @ post) len i acc (length pre) =
    Some (Returned (RESPValue Array (DArray (acc @ vs))) (length pre + length (enc_all vs)))"
  using assms
proof (induction vs arbitrary: pre f i acc)
  case Nil
  then obtain g where "f = Suc g" by (cases f) auto
  with Nil show ?case by (simp add: parse_elements.simps(2))
next
  case (Cons v vs)
  from Cons.prems(4) obtain g where g: "f = Suc g" by (cases f) auto
  have lv: "3 \<le> length (enc v)" using Cons.prems(2) by (intro enc_length_pos [of vm]) simp
  have data: "pre @ enc_all (v # vs) @ post = pre @ enc v @ enc_all vs @ post" by simp
  have head: "parse_value vm g (pre @ enc v @ enc_all vs @ post) (length pre) =
      Some (Returned v (length pre + length (enc v)))"
    using Cons.prems(3,4) g by (intro Cons.prems(1)) simp_all
  have "parse_elements vm g ((pre @ enc v) @ enc_all vs @ post) len (i + 1) (acc @ [v]) (length (pre @ enc v)) =
      Some (Returned (RESPValue Array (DArray ((acc @ [v]) @ vs))) (length (pre @ enc v) + length (enc_all vs)))"
    using Cons.prems g lv by (intro Cons.IH) simp_all
  then have tail: "parse_elements vm g (pre @ enc v @ enc_all vs @ post) len (i + 1) (acc @ [v])
      (length pre + length (enc v)) =
      Some (Returned (RESPValue Array (DArray (acc @ v # vs))) (length pre + length (enc_all (v # vs))))"
    by (simp add: add.assoc)
  have "i < len" using Cons.prems(5) by simp
  then show ?case unfolding data g by (simp only: parse_elements.simps(2) head tail if_True option.case outcome.case)
qed

lemma parse_value_enc:
  assumes "encodable vm v" and "fits_memory (pre @ enc v @ post)" and "length (enc v) \<le> f"
  shows "parse_value vm f (pre @ enc v @ post) (length pre) =
    Some (Returned v (length pre + length (enc v)))"
  using assms
proof (induction vm v arbitrary: pre post f rule: encodable.induct)
  case (1 vm s)
  then obtain g where "f = Suc g" by (cases f) auto
  with 1 show ?case using parse_simple_string_enc [of s "pre @ ''+''" post] by (simp add: resp_simps)
next
  case (2 vm s)
  then obtain g where "f = Suc g" by (cases f) auto
  with 2 show ?case using parse_error_enc [of s "pre @ ''-''" post] by (simp add: resp_simps)
next
  case (3 vm i)
  then obtain g where "f = Suc g" by (cases f) auto
  with 3 show ?case using parse_integer_enc [of i "pre @ '':''" post] by (simp add: resp_simps)
next
  case (4 vm s)
  then obtain g where "f = Suc g" by (cases f) auto
  with 4 show ?case using parse_bulk_string_enc [of "pre @ ''$''" s post] by (simp add: resp_simps)
next
  case (5 vm vs)
  then obtain g where g: "f = Suc g" by (cases f) auto
  let ?h = "pre @ CHR ''*'' # nat_to_string (length vs) @ [CR, LF]"
  let ?d = "pre @ enc (RESPValue Array (DArray vs)) @ post"
  have d: "?d = ?h @ enc_all vs @ post" by simp
  have line: "read_line ?d (length pre + 1) = Some (nat_to_string (length vs), length ?h)"
    using read_line_append [of "nat_to_string (length vs)" "pre @ ''*''" "enc_all vs @ post"] by simp
  have n: "stoll (nat_to_string (length vs)) = Inr (int (length vs))"
    using "5.prems"(1) by (intro stoll_count) simp
  have els: "parse_elements vm g (?h @ enc_all vs @ post) (int (length vs)) 0 [] (length ?h) =
      Some (Returned (RESPValue Array (DArray ([] @ vs))) (length ?h + length (enc_all vs)))"
  proof (rule parse_elements_enc)
    show "parse_value vm f (pre @ enc v @ post) (length pre) =
        Some (Returned v (length pre + length (enc v)))"
      if "v \<in> set vs" "fits_memory (pre @ enc v @ post)" "length (enc v) \<le> f" for v pre post f
      using that "5.prems"(1) by (intro "5.IH") (simp_all add: list_all_iff)
  qed (use "5.prems" g d in \<open>simp_all add: list_all_iff\<close>)
  have "parse_value vm (Suc g) ?d (length pre) = parse_elements vm g ?d (int (length vs)) 0 [] (length ?h)"
    by (subst parse_value_star) (use line n "5.prems"(1) in \<open>simp_all add: nth_append\<close>)
  with els g d show ?case by simp
next
  case (6 vm s)
  then obtain g where "f = Suc g" by (cases f) auto
  with 6 show ?case using parse_null_enc [of "pre @ ''$''" post] by (simp add: resp_simps)
qed simp_all

section \<open>Cut encodings\<close>

text \<open>
  \<open>boundary v n\<close>: the first \<open>n\<close> bytes of the encoding of \<open>v\<close> end exactly where an
  element of an array (at any depth) starts.
\<close>

fun boundary :: "resp_value \<Rightarrow> nat \<Rightarrow> bool"
and boundary_elems :: "resp_value list \<Rightarrow> nat \<Rightarrow> bool"
where
  "boundary (RESPValue Array (DArray vs)) n =
     (let h = length (nat_to_string (length vs)) + 3 in h \<le> n \<and> boundary_elems vs (n - h))"
| "boundary _ n = False"
| "boundary_elems [] n = False"
| "boundary_elems (v # vs) n =
     (if n < length (enc v) then n = 0 \<or> boundary v n
      else boundary_elems vs (n - length (enc v)))"

text \<open>What a cut raises: zero padding at a boundary is read as a type byte.\<close>

definition cut_exn :: "bool \<Rightarrow> string \<Rightarrow> parse_exn" where
  "cut_exn b z = (if b \<and> z \<noteq> [] then UnknownType NUL else Incomplete)"

definition zeros :: "string \<Rightarrow> bool" where
  "zeros z = list_all ((=) NUL) z"

lemma zeros_no_LF: "zeros z \<Longrightarrow> LF \<notin> set z"
  by (auto simp: zeros_def list_all_iff dest: bspec)

lemma zeros_nth: "zeros z \<Longrightarrow> n < length z \<Longrightarrow> z ! n = NUL"
  unfolding zeros_def list_all_length by (rule sym) blast

lemma crlf_offset_cut:
  assumes "crlf_offset s = None" and "s @ CRLF @ more = l @ q" and "length l < length s + 2"
  shows "crlf_offset l = None"
proof (rule ccontr)
  assume "crlf_offset l \<noteq> None"
  then obtain n where n: "crlf_offset l = Some n" by blast
  then have "crlf_offset (l @ q) = Some n" by (rule crlf_offset_Some_append)
  moreover have "crlf_offset (l @ q) = Some (length s)"
    using crlf_offset_append [OF assms(1), of more] assms(2) by simp
  ultimately have "n = length s" by simp
  with crlf_offset_Some_length [OF n] assms(3) show False by simp
qed

lemma read_line_cut:
  assumes "crlf_offset s = None" and "s @ CRLF @ more = l @ q" and "length l < length s + 2"
    and "zeros z"
  shows "read_line (pre @ l @ z) (length pre) = None"
  using crlf_offset_line_prefix [OF crlf_offset_cut [OF assms(1-3)] zeros_no_LF [OF assms(4)]]
  by (rule read_line_None_append)

text \<open>A scalar cut inside its line.\<close>

lemma line_cut:
  assumes "crlf_offset s = None" and "s @ CRLF = l @ q" and "q \<noteq> []" and "zeros z"
  shows "read_line (pre @ l @ z) (length pre) = None"
proof -
  have eq: "s @ CRLF @ [] = l @ q" using assms(2) by (simp only: append_Nil2)
  have "length (s @ CRLF) = length (l @ q)" using assms(2) by (rule arg_cong)
  moreover have "0 < length q" using assms(3) by simp
  ultimately have "length l < length s + 2" by simp
  then show ?thesis by (rule read_line_cut [OF assms(1) eq _ assms(4)])
qed

text \<open>A bulk string cut anywhere behind its type byte.\<close>

lemma parse_bulk_string_cut:
  assumes cut: "nat_to_string (length s) @ CRLF @ s @ CRLF = l @ q" and "q \<noteq> []" and "zeros z"
    and fits: "fits_memory (pre @ l @ z)" and "length s < 2 ^ 62"
  shows "parse_bulk_string (pre @ l @ z) (length pre) = Raised Incomplete"
proof (cases "length l < length (nat_to_string (length s)) + 2")
  case True
  then have "read_line (pre @ l @ z) (length pre) = None"
    by (intro read_line_cut [OF _ cut _ assms(3)]) simp_all
  then show ?thesis by (simp add: parse_bulk_string_def)
next
  case False
  let ?n = "nat_to_string (length s)"
  have "(?n @ CRLF) @ (s @ CRLF) = l @ q" using cut by simp
  then obtain c where c: "l = (?n @ CRLF) @ c" "s @ CRLF = c @ q"
    by (rule append_split_le) (use False in simp_all)
  let ?hd = "pre @ ?n @ CRLF"
  have d: "pre @ l @ z = ?hd @ c @ z" using c(1) by simp
  have line: "read_line (?hd @ c @ z) (length pre) = Some (?n, length ?hd)"
    using read_line_append [of ?n pre "c @ z"] by simp
  have n: "stoll ?n = Inr (int (length s))" using assms(5) by (intro stoll_count) simp
  have sz: "to_size_t (int (length s)) = length s" using assms(5) by (subst to_size_t_nonneg) simp_all
  have hd63: "length ?hd < 2 ^ 63" using fits d by (simp add: fits_memory_def)
  then have add: "add_size_t (length ?hd) (length s) = length ?hd + length s"
    using assms(5) by (intro add_size_t_small) simp
  have add2: "add_size_t (length ?hd + length s) 2 = length ?hd + length s + 2"
    using hd63 assms(5) by (intro add_size_t_small) simp
  have "length (s @ CRLF) = length (c @ q)" using c(2) by (rule arg_cong)
  moreover have "0 < length q" using assms(2) by simp
  ultimately have cl: "length c < length s + 2" by simp
  have last: "(?hd @ c @ z) ! (length ?hd + length s + 1) \<noteq> LF"
    if "length ?hd + length s + 2 \<le> length (?hd @ c @ z)"
  proof -
    have "(?hd @ c @ z) ! (length ?hd + (length s + 1)) = (c @ z) ! (length s + 1)"
      by (rule nth_append_length_plus)
    also have "\<dots> = z ! (length s + 1 - length c)" using cl by (simp add: nth_append)
    also have "\<dots> = NUL" using that cl by (intro zeros_nth [OF assms(3)]) simp
    finally show ?thesis by (simp add: add.assoc)
  qed
  have nm: "int (length s) \<noteq> - 1" by simp
  show ?thesis
    unfolding d parse_bulk_string_def line option.case prod.case n sum.case sz add Let_def add2
    using nm last by (simp add: linorder_not_less)
qed

text \<open>Values whose counts stay below the bound the cut lemma uses.\<close>

fun small_counts :: "resp_value \<Rightarrow> bool" where
  "small_counts (RESPValue BulkString (DString s)) = (length s < 2 ^ 62)"
| "small_counts (RESPValue Array (DArray vs)) = list_all small_counts vs"
| "small_counts _ = True"

lemma parse_value_at_end:
  "zeros z \<Longrightarrow> parse_value vm (Suc f) (pre @ z) (length pre) = Some (Raised (cut_exn True z))"
  by (cases z) (auto simp: parse_value.simps(2) cut_exn_def zeros_def)

lemma parse_elements_cut:
  assumes "\<And>v pre p q f. v \<in> set vs \<Longrightarrow> enc v = p @ q \<Longrightarrow> p \<noteq> [] \<Longrightarrow> q \<noteq> [] \<Longrightarrow>
      fits_memory (pre @ p @ z) \<Longrightarrow> length p < f \<Longrightarrow>
      parse_value vm f (pre @ p @ z) (length pre) = Some (Raised (cut_exn (boundary v (length p)) z))"
    and "zeros z" and "\<forall>v \<in> set vs. encodable vm v"
    and "enc_all vs = r @ q" and "q \<noteq> []" and "fits_memory (pre @ r @ z)" and "length r + 1 < f"
    and "len = i + int (length vs)"
  shows "parse_elements vm f (pre @ r @ z) len i acc (length pre) =
    Some (Raised (cut_exn (boundary_elems vs (length r)) z))"
  using assms
proof (induction vs arbitrary: pre r f i acc)
  case Nil
  then show ?case by simp
next
  case (Cons v vs)
  from Cons.prems(7) obtain g where g: "f = Suc g" "length r < g" by (cases f) auto
  have i: "i < len" using Cons.prems(8) by simp
  have eq: "enc v @ enc_all vs = r @ q" using Cons.prems(4) by simp
  show ?case
  proof (cases "length (enc v) \<le> length r")
    case True
    with eq obtain c where c: "r = enc v @ c" "enc_all vs = c @ q" by (elim append_split_le)
    have data: "pre @ r @ z = pre @ enc v @ c @ z" using c by simp
    have lv: "3 \<le> length (enc v)" using Cons.prems(3) by (intro enc_length_pos [of vm]) simp
    have head: "parse_value vm g (pre @ enc v @ c @ z) (length pre) =
        Some (Returned v (length pre + length (enc v)))"
      using Cons.prems(3,6) data g c by (intro parse_value_enc) simp_all
    have "parse_elements vm g ((pre @ enc v) @ c @ z) len (i + 1) (acc @ [v]) (length (pre @ enc v)) =
        Some (Raised (cut_exn (boundary_elems vs (length c)) z))"
      using Cons.prems c g lv by (intro Cons.IH) simp_all
    then have tail: "parse_elements vm g (pre @ enc v @ c @ z) len (i + 1) (acc @ [v])
        (length pre + length (enc v)) = Some (Raised (cut_exn (boundary_elems vs (length c)) z))"
      by simp
    show ?thesis
      unfolding data g(1)
      using c i by (simp only: parse_elements.simps(2) head tail if_True option.case outcome.case) simp
  next
    case False
    with eq obtain c where c: "enc v = r @ c" "c \<noteq> []" by (elim append_split_less) simp_all
    have "parse_value vm g (pre @ r @ z) (length pre) =
        Some (Raised (cut_exn (boundary_elems (v # vs) (length r)) z))"
    proof (cases "r = []")
      case True
      obtain k where "g = Suc k" using g(2) by (cases g) auto
      with True c show ?thesis using parse_value_at_end [OF Cons.prems(2), of vm k pre] by simp
    next
      case nonempty: False
      then have "parse_value vm g (pre @ r @ z) (length pre) =
          Some (Raised (cut_exn (boundary v (length r)) z))"
        using c Cons.prems(6) g(2) by (intro Cons.prems(1) [where q = c]) simp_all
      with nonempty c show ?thesis by simp
    qed
    with i show ?thesis unfolding g(1) by (simp add: parse_elements.simps(2))
  qed
qed

lemma parse_value_cut:
  assumes "encodable vm v" and "small_counts v" and "enc v = p @ q" and "p \<noteq> []" and "q \<noteq> []"
    and "zeros z" and "fits_memory (pre @ p @ z)" and "length p < f"
  shows "parse_value vm f (pre @ p @ z) (length pre) = Some (Raised (cut_exn (boundary v (length p)) z))"
  using assms(1-5,7,8)
proof (induction vm v arbitrary: pre p q f rule: encodable.induct)
  case (1 vm s)
  then obtain l g where l: "p = CHR ''+'' # l" "f = Suc g" by (cases p; cases f) auto
  with 1 have "read_line ((pre @ ''+'') @ l @ z) (length (pre @ ''+'')) = None"
    by (intro line_cut [OF _ _ _ assms(6), of s l q]) simp_all
  with l show ?case by (simp add: resp_simps parse_simple_string_def cut_exn_def)
next
  case (2 vm s)
  then obtain l g where l: "p = CHR ''-'' # l" "f = Suc g" by (cases p; cases f) auto
  with 2 have "read_line ((pre @ ''-'') @ l @ z) (length (pre @ ''-'')) = None"
    by (intro line_cut [OF _ _ _ assms(6), of s l q]) simp_all
  with l show ?case by (simp add: resp_simps parse_error_def cut_exn_def)
next
  case (3 vm i)
  then obtain l g where l: "p = CHR '':'' # l" "f = Suc g" by (cases p; cases f) auto
  with 3 have "read_line ((pre @ '':'') @ l @ z) (length (pre @ '':'')) = None"
    by (intro line_cut [OF _ _ _ assms(6), of "int_to_string i" l q]) simp_all
  with l show ?case by (simp add: resp_simps parse_integer_def cut_exn_def)
next
  case (4 vm s)
  then obtain l g where l: "p = CHR ''$'' # l" "f = Suc g" by (cases p; cases f) auto
  with 4 have "parse_bulk_string ((pre @ ''$'') @ l @ z) (length (pre @ ''$'')) = Raised Incomplete"
    by (intro parse_bulk_string_cut [where q = q, OF _ _ assms(6)]) simp_all
  with l show ?case by (simp add: resp_simps cut_exn_def)
next
  case (5 vm vs)
  let ?n = "nat_to_string (length vs)"
  from 5 obtain l g where l: "p = CHR ''*'' # l" "f = Suc g" by (cases p; cases f) auto
  have eq: "(?n @ CRLF) @ enc_all vs = l @ q" using "5.prems"(3) l by simp
  have at: "length pre < length (pre @ p @ z)" "(pre @ p @ z) ! length pre = CHR ''*''"
    using l by simp_all
  show ?case
  proof (cases "length l < length ?n + 2")
    case True
    then have "read_line ((pre @ ''*'') @ l @ z) (length (pre @ ''*'')) = None"
      using eq by (intro read_line_cut [where s = ?n and q = q and more = "enc_all vs", OF _ _ _ assms(6)]) simp_all
    with l at True show ?thesis by (simp add: parse_value_star cut_exn_def)
  next
    case False
    obtain r where r: "l = (?n @ CRLF) @ r" "enc_all vs = r @ q"
      by (rule append_split_le [OF eq]) (use False in simp_all)
    let ?h = "pre @ CHR ''*'' # ?n @ CRLF"
    have d: "pre @ p @ z = ?h @ r @ z" using l r by simp
    have line: "read_line (pre @ p @ z) (length pre + 1) = Some (?n, length ?h)"
      using read_line_append [of ?n "pre @ ''*''" "r @ z"] l r by simp
    have n: "stoll ?n = Inr (int (length vs))" using "5.prems"(1) by (intro stoll_count) simp
    have "parse_elements vm g (?h @ r @ z) (int (length vs)) 0 [] (length ?h) =
        Some (Raised (cut_exn (boundary_elems vs (length r)) z))"
    proof (rule parse_elements_cut [OF _ assms(6) _ r(2) "5.prems"(5)])
      show "parse_value vm f (pre @ p @ z) (length pre) = Some (Raised (cut_exn (boundary v (length p)) z))"
        if "v \<in> set vs" "enc v = p @ q" "p \<noteq> []" "q \<noteq> []" "fits_memory (pre @ p @ z)" "length p < f"
        for v pre p q f
        using that "5.prems"(1,2) by (intro "5.IH" [where q = q]) (simp_all add: list_all_iff)
    qed (use "5.prems" l r in \<open>simp_all add: list_all_iff\<close>)
    with line n at "5.prems"(1) d l r show ?thesis
      by (simp add: parse_value_star)
  qed
next
  case (6 vm s)
  then obtain l g where l: "p = CHR ''$'' # l" "f = Suc g" by (cases p; cases f) auto
  with 6 have "read_line ((pre @ ''$'') @ l @ z) (length (pre @ ''$'')) = None"
    by (intro line_cut [OF _ _ _ assms(6), of "''-1''" l q]) simp_all
  with l show ?case by (simp add: resp_simps parse_bulk_string_def cut_exn_def)
qed simp_all

end
