(* ===== verification/Resp_Commands.thy ===== *)
theory Resp_Commands
  imports Resp_Roundtrip
begin

text \<open>
  Command building and reply formatting of \<^verbatim>\<open>src/app/redis/redis.h\<close>, and the
  input line handling of \<^verbatim>\<open>src/redis_cli.cpp\<close>.
\<close>

section \<open>\<^verbatim>\<open>buildRESPCommand\<close>\<close>

text \<open>The loop appends one length line and one data line per argument.\<close>

fun append_args :: "string \<Rightarrow> string list \<Rightarrow> string" where
  "append_args cmd [] = cmd"
| "append_args cmd (arg # args) =
     append_args ((cmd @ ''$'' @ nat_to_string (length arg) @ CRLF) @ arg @ CRLF) args"

definition buildRESPCommand :: "string list \<Rightarrow> string" where
  "buildRESPCommand args = append_args (''*'' @ nat_to_string (length args) @ CRLF) args"

definition bulk :: "string \<Rightarrow> resp_value" where
  "bulk s = RESPValue BulkString (DString s)"

definition command_value :: "string list \<Rightarrow> resp_value" where
  "command_value args = RESPValue Array (DArray (map bulk args))"

lemma append_args_enc: "append_args cmd args = cmd @ enc_all (map bulk args)"
  by (induction args arbitrary: cmd) (simp_all add: bulk_def)

lemma buildRESPCommand_enc: "buildRESPCommand args = enc (command_value args)"
  by (simp add: buildRESPCommand_def append_args_enc command_value_def)

lemma encodable_command:
  "reserve_ok vm (int (length args)) \<Longrightarrow> length args < 2 ^ 63 \<Longrightarrow> encodable vm (command_value args)"
  by (simp add: command_value_def list_all_iff bulk_def)

lemma small_counts_command: "\<forall>a \<in> set args. length a < 2 ^ 62 \<Longrightarrow> small_counts (command_value args)"
  by (simp add: command_value_def list_all_iff bulk_def)

section \<open>\<^verbatim>\<open>formatResponse\<close>\<close>

text \<open>
  \<open>None\<close> is the \<^verbatim>\<open>bad_variant_access\<close> an accessor raises when tag and data
  disagree.
\<close>

fun formatResponse :: "resp_value \<Rightarrow> nat \<Rightarrow> string option"
and format_elements :: "resp_value list \<Rightarrow> nat \<Rightarrow> nat \<Rightarrow> string option"
where
  "formatResponse (RESPValue t d) indent =
     (let prefix = replicate indent (CHR '' ''); resp = RESPValue t d in
      case t of
        SimpleString \<Rightarrow> map_option (\<lambda>s. prefix @ ''(string) '' @ s @ [LF]) (as_string resp)
      | Error \<Rightarrow> map_option (\<lambda>s. prefix @ ''(error) '' @ s @ [LF]) (as_string resp)
      | Integer \<Rightarrow> map_option (\<lambda>i. prefix @ ''(integer) '' @ int_to_string i @ [LF]) (as_integer resp)
      | BulkString \<Rightarrow>
          map_option (\<lambda>s. if s = [] then prefix @ ''(nil)'' @ [LF]
                          else prefix @ ''(bulk) '' @ s @ [LF]) (as_string resp)
      | Array \<Rightarrow>
          (case d of
             DArray arr \<Rightarrow>
               if arr = [] then Some (prefix @ ''(empty array)'' @ [LF])
               else map_option (\<lambda>es. prefix @ ''(array) size='' @ nat_to_string (length arr) @ [LF] @ es)
                      (format_elements arr 0 indent)
           | _ \<Rightarrow> None)
      | Null \<Rightarrow> Some (prefix @ ''(null)'' @ [LF]))"
| "format_elements [] i indent = Some []"
| "format_elements (v # vs) i indent =
     (case formatResponse v (indent + 2) of
        None \<Rightarrow> None
      | Some s \<Rightarrow>
          map_option (\<lambda>es. replicate indent (CHR '' '') @ ''  '' @ nat_to_string i @ '') '' @ s @ es)
            (format_elements vs (i + 1) indent))"

lemma format_elements_total:
  "(\<And>v n. v \<in> set vs \<Longrightarrow> \<exists>s. formatResponse v n = Some s) \<Longrightarrow> \<exists>s. format_elements vs i n = Some s"
proof (induction vs arbitrary: i)
  case Nil
  then show ?case by simp
next
  case (Cons v vs)
  obtain s where "formatResponse v (n + 2) = Some s" using Cons.prems by fastforce
  moreover obtain es where "format_elements vs (i + 1) n = Some es" using Cons by fastforce
  ultimately show ?case by simp
qed

lemma formatResponse_total: "wt_value v \<Longrightarrow> \<exists>s. formatResponse v n = Some s"
proof (induction v arbitrary: n rule: wt_value.induct)
  case (5 vs)
  have "\<exists>s. format_elements vs 0 n = Some s" for n
    using 5 by (intro format_elements_total) (simp add: list_all_iff)
  then show ?case by (auto simp: Let_def)
qed (auto simp: Let_def)

lemma formatResponse_ends_line:
  "formatResponse v n = Some s \<Longrightarrow> s \<noteq> [] \<and> last s = LF"
  "format_elements vs i n = Some s \<Longrightarrow> vs \<noteq> [] \<Longrightarrow> s \<noteq> [] \<and> last s = LF"
proof (induction v n and vs i n arbitrary: s and s rule: formatResponse_format_elements.induct)
  case (1 t d indent)
  then show ?case by (auto simp: Let_def split: resp_type.splits resp_data.splits if_splits)
next
  case (2 i indent)
  then show ?case by simp
next
  case (3 v vs i indent)
  then show ?case by (cases vs) (auto split: option.splits)
qed

section \<open>The interactive client's input lines\<close>

definition splitArgs :: "string \<Rightarrow> string list" where
  "splitArgs line = stream_words line"

text \<open>One round of the loop of \<^verbatim>\<open>main\<close>: \<open>None\<close> is end of input.\<close>

datatype repl_action = Quit | Continue | Run "string list"

definition repl_line :: "string option \<Rightarrow> repl_action" where
  "repl_line input =
     (case input of
        None \<Rightarrow> Quit
      | Some line \<Rightarrow>
          if line = [] then Continue
          else if line = ''quit'' \<or> line = ''exit'' then Quit
          else let args = splitArgs line in if args = [] then Continue else Run args)"

lemma repl_line_Run: "repl_line input = Run args \<Longrightarrow> args \<noteq> [] \<and> (\<forall>a \<in> set args. a \<noteq> [])"
  by (auto simp: repl_line_def splitArgs_def Let_def split: option.splits if_splits
      dest: stream_words_no_space)

section \<open>Evaluation\<close>

text \<open>Evaluation of the parser on concrete replies.\<close>

lemmas parse_numeral_fuel =
  parse_value.simps(2) [where f = "pred_numeral k" for k, folded numeral_eq_Suc]
  parse_elements.simps(2) [where f = "pred_numeral k" for k, folded numeral_eq_Suc]

lemmas resp_eval =
  parse_numeral_fuel
  string_eval fits_memory_def reserve_ok_def vector_max_size_def bulk_len_safe_def
  bulk_header_ok_def read_line_def resp_parse_def resp_parse0_def parse_unfolds
  parse_simple_string_def parse_error_def parse_integer_def parse_bulk_string_def

end
