(* ===== verification/Resp_Properties.thy ===== *)
theory Resp_Properties
  imports Resp_Commands
begin

text \<open>
  What the RESP layer promises, for the public functions of \<^verbatim>\<open>src/app/redis/redis.h\<close>
  and the line loop of \<^verbatim>\<open>src/redis_cli.cpp\<close>: round trips with any bytes around the
  value, termination within a fuel that is linear in the input, types, bounds, stability, and
  the two inputs on which the parser misbehaves.
\<close>

section \<open>The parser\<close>

text \<open>C8: parsing inverts the RESP encoding. Wherever a complete encoding of a value stands in
  the data, whatever bytes come before and after it, \<^verbatim>\<open>RESP_Parser::parse\<close> returns that
  value and leaves the position just behind it; as many steps as the encoding has bytes are
  enough.\<close>

theorem resp_parse_encoding:
  assumes "encodable vm v" and "fits_memory (pre @ enc v @ post)"
  shows "resp_parse vm (length (enc v)) (pre @ enc v @ post) (length pre) =
    Some (Returned v (length pre + length (enc v)))"
  using assms by (simp add: resp_parse_def parse_value_enc)

theorem resp_parse_encoding_witness:
  "resp_parse 10 (length (enc (RESPValue Array (DArray [RESPValue Integer (DInt (- 7)), RESPValue BulkString (DString ''ab'')]))))
     (''xy'' @ enc (RESPValue Array (DArray [RESPValue Integer (DInt (- 7)), RESPValue BulkString (DString ''ab'')])) @ ''+O'')
     (length ''xy'') =
   Some (Returned (RESPValue Array (DArray [RESPValue Integer (DInt (- 7)), RESPValue BulkString (DString ''ab'')]))
     (length ''xy'' + length (enc (RESPValue Array (DArray [RESPValue Integer (DInt (- 7)), RESPValue BulkString (DString ''ab'')])))))"
  by (rule resp_parse_encoding) (simp_all add: resp_eval)

text \<open>C11: on data whose bulk headers carry no length below -1, the parser always comes to a
  result after at most one step per remaining byte; a returned value has a payload of the kind
  its tag promises, and the position has moved forward and not past the end of the data.\<close>

theorem resp_parse_total:
  assumes "bulk_len_safe data" and "fits_memory data"
  shows "\<exists>r. resp_parse vm (length data - pos + 1) data pos = Some r \<and>
    (\<forall>v p. r = Returned v p \<longrightarrow> wt_value v \<and> pos < p \<and> p \<le> length data)"
proof -
  obtain r where r: "parse_value vm (length data - pos + 1) data pos = Some r"
    using parse_value_terminates [OF assms, of pos "length data - pos + 1" vm] by auto
  have "wt_value v \<and> pos < p \<and> p \<le> length data" if "r = Returned v p" for v p
    using r that parse_value_wt parse_value_progress [OF assms] by blast
  with r show ?thesis by (auto simp: resp_parse_def)
qed

theorem resp_parse_total_witness:
  "\<exists>r. resp_parse 10 (length (''*1'' @ CRLF @ ''$2'' @ CRLF @ ''a'') - 0 + 1)
      (''*1'' @ CRLF @ ''$2'' @ CRLF @ ''a'') 0 = Some r \<and>
    (\<forall>v p. r = Returned v p \<longrightarrow> wt_value v \<and> 0 < p \<and> p \<le> length (''*1'' @ CRLF @ ''$2'' @ CRLF @ ''a''))"
  by (rule resp_parse_total) (simp_all add: resp_eval)

text \<open>A result does not depend on the bytes that have not arrived yet. Unless the parser
  reported incomplete data, parsing the same data with anything appended gives the same result,
  the returned value and the position included.\<close>

theorem resp_parse_stable:
  assumes "bulk_len_safe data" and "fits_memory (data @ more)"
    and "resp_parse vm f data pos = Some r" and "r \<noteq> Raised Incomplete"
  shows "resp_parse vm f (data @ more) pos = Some r"
  using parse_value_stable [OF assms(1,2)] assms(3,4) by (simp add: resp_parse_def)

theorem resp_parse_stable_witness:
  "resp_parse 10 9 ((''$2'' @ CRLF @ ''ab'' @ CRLF) @ ''$-2'') 0 =
     Some (Returned (RESPValue BulkString (DString ''ab'')) 8)"
  by (rule resp_parse_stable) (simp_all add: resp_eval)

text \<open>C30: a reply cut anywhere before its end is reported as incomplete, never as a value and
  never as malformed, so that a caller can wait for the rest.\<close>

theorem resp_parse_truncated:
  assumes "encodable vm v" and "small_counts v" and "enc v = p @ q" and "q \<noteq> []"
    and "fits_memory (pre @ p)"
  shows "resp_parse vm (length p + 1) (pre @ p) (length pre) = Some (Raised Incomplete)"
proof (cases "p = []")
  case True
  then show ?thesis by (simp add: resp_parse_def parse_value_end)
next
  case False
  have "zeros []" by (simp add: zeros_def)
  with False parse_value_cut [OF assms(1-3) False assms(4), of "[]" pre "length p + 1"] assms(5)
  show ?thesis by (simp add: resp_parse_def cut_exn_def)
qed

theorem resp_parse_truncated_witness:
  "resp_parse 10 (length (''*1'' @ CRLF @ ''$2'' @ CRLF @ ''a'') + 1)
     (''+OK'' @ (''*1'' @ CRLF @ ''$2'' @ CRLF @ ''a'')) (length ''+OK'') = Some (Raised Incomplete)"
  by (rule resp_parse_truncated [where q = "''b'' @ CRLF" and
        v = "RESPValue Array (DArray [RESPValue BulkString (DString ''ab'')])"]) (simp_all add: resp_eval)

text \<open>The read callback of the client parses the whole receive buffer, whose unread tail is
  zero bytes. A cut reply in such a buffer is still reported as incomplete, except when the cut
  falls exactly between two elements of an array: there the parser sees a zero byte where it
  expects a type and reports an unknown type, which the caller takes for a malformed reply.\<close>

theorem resp_parse_padded:
  assumes "encodable vm v" and "small_counts v" and "enc v = p @ q" and "p \<noteq> []" and "q \<noteq> []"
    and "fits_memory (pre @ p @ replicate (Suc n) NUL)"
  shows "resp_parse vm (length p + 1) (pre @ p @ replicate (Suc n) NUL) (length pre) =
    Some (Raised (if boundary v (length p) then UnknownType NUL else Incomplete))"
proof -
  have "zeros (replicate (Suc n) NUL)" by (simp add: zeros_def list_all_iff)
  then show ?thesis
    using parse_value_cut [OF assms(1-5) _ assms(6), of "length p + 1"]
    by (simp add: resp_parse_def cut_exn_def)
qed

theorem resp_parse_padded_witness:
  "resp_parse 10 (length (''*2'' @ CRLF @ ''+a'' @ CRLF) + 1)
     ([] @ (''*2'' @ CRLF @ ''+a'' @ CRLF) @ replicate (Suc 3) NUL) (length []) =
     Some (Raised (if boundary (RESPValue Array (DArray [RESPValue SimpleString (DString ''a''), RESPValue SimpleString (DString ''b'')]))
       (length (''*2'' @ CRLF @ ''+a'' @ CRLF)) then UnknownType NUL else Incomplete)) \<and>
   boundary (RESPValue Array (DArray [RESPValue SimpleString (DString ''a''), RESPValue SimpleString (DString ''b'')]))
       (length (''*2'' @ CRLF @ ''+a'' @ CRLF))"
  using resp_parse_padded [of 10
      "RESPValue Array (DArray [RESPValue SimpleString (DString ''a''), RESPValue SimpleString (DString ''b'')])"
      "''*2'' @ CRLF @ ''+a'' @ CRLF" "''+b'' @ CRLF" "[]" 3]
  by (simp add: resp_eval)

text \<open>A bulk header with the length -2 is not rejected. The position wraps around the end of
  the address space, back onto the header's own line end, and the parser returns everything that
  follows in the buffer, replies of other commands included, as one string, and continues behind
  the header.\<close>

theorem resp_parse_bulk_minus_two:
  assumes "length rest < 2 ^ 62"
  shows "resp_parse0 vm 1 (''$-2'' @ CRLF @ rest) = Some (Returned (RESPValue BulkString (DString rest)) 5)"
  using bulk_minus_two [OF assms] by (simp add: resp_parse0_def parse_value_dollar)

theorem resp_parse_bulk_minus_two_witness:
  "resp_parse0 0 1 (''$-2'' @ CRLF @ ''+secret'') =
     Some (Returned (RESPValue BulkString (DString ''+secret'')) 5)"
  by (rule resp_parse_bulk_minus_two) simp

text \<open>C40: there is a reply of fourteen bytes on which the parser never returns: its inner bulk
  header has a negative length that moves the position back onto the array that contains it, and
  the recursion goes on for ever, with no fuel bringing a result.\<close>

theorem resp_parse_diverges:
  "resp_parse0 (n + 2) f looping_reply = None \<and> length looping_reply = 14"
proof -
  have "parse_value (n + 2) f looping_reply 4 = None" for f by (rule looping_array) simp
  then have e: "parse_elements (n + 2) f looping_reply 2 0 [] 4 = None" for f
    by (cases f) (simp_all add: parse_elements.simps)
  have "reserve_ok (n + 2) 2"
    by (simp add: reserve_ok_def vector_max_size_def to_size_t_def size_t_mod_def)
  with e have "resp_parse0 (n + 2) f looping_reply = None"
    using looping_reply_header
    by (cases f) (simp_all add: resp_parse0_def parse_value_star parse_value.simps(1))
  then show ?thesis by (simp add: looping_reply_header)
qed

section \<open>Commands, input lines and replies on screen\<close>

text \<open>A command survives the wire. What \<^verbatim>\<open>buildRESPCommand\<close> builds from any arguments,
  whatever bytes they contain, parses back to the array of exactly these arguments and nothing of
  the bytes behind it is consumed.\<close>

theorem buildRESPCommand_parses:
  assumes "fits_memory (buildRESPCommand args @ post)" and "reserve_ok vm (int (length args))"
    and "length args < 2 ^ 63"
  shows "resp_parse0 vm (length (buildRESPCommand args)) (buildRESPCommand args @ post) =
    Some (Returned (command_value args) (length (buildRESPCommand args)))"
  using parse_value_enc [OF encodable_command [OF assms(2,3)], of "[]" post] assms(1)
  by (simp add: resp_parse0_def buildRESPCommand_enc)

theorem buildRESPCommand_parses_witness:
  "resp_parse0 3 (length (buildRESPCommand [''SET'', ''k'', CRLF])) (buildRESPCommand [''SET'', ''k'', CRLF] @ ''x'') =
    Some (Returned (command_value [''SET'', ''k'', CRLF]) (length (buildRESPCommand [''SET'', ''k'', CRLF])))"
  by (rule buildRESPCommand_parses) (simp_all add: resp_eval buildRESPCommand_def)

text \<open>What the user types is what the server receives. A line of words separated by single
  blanks, other than the two words that leave the program, is taken for a command, and the bytes
  sent for it parse back to these words.\<close>

lemma repl_line_sends:
  assumes "words \<noteq> []" and "\<forall>w \<in> set words. w \<noteq> [] \<and> (\<forall>c \<in> set w. \<not> is_space c)"
    and "words \<noteq> [''quit'']" and "words \<noteq> [''exit'']"
    and "fits_memory (buildRESPCommand words)" and "reserve_ok vm (int (length words))"
    and "length words < 2 ^ 63"
  shows "repl_line (Some (join_words words)) = Run words \<and>
    resp_parse0 vm (length (buildRESPCommand words)) (buildRESPCommand words) =
      Some (Returned (command_value words) (length (buildRESPCommand words)))"
proof -
  have join: "stream_words (join_words ws) = ws" if "\<forall>w \<in> set ws. w \<noteq> [] \<and> (\<forall>c \<in> set w. \<not> is_space c)" for ws
    using that by (intro stream_words_join) (simp add: list_all_iff)
  have "join_words words \<noteq> w" if "words \<noteq> [w]" "w \<in> {''quit'', ''exit''}" for w
    using that join [OF assms(2)] join [of "[w]"] by (auto simp: is_space_def)
  moreover have "join_words words \<noteq> []"
    using assms(1,2) by (cases words rule: join_words.cases) auto
  ultimately have "repl_line (Some (join_words words)) = Run words"
    using assms(1-4) join by (simp add: repl_line_def splitArgs_def)
  moreover have "resp_parse0 vm (length (buildRESPCommand words)) (buildRESPCommand words) =
      Some (Returned (command_value words) (length (buildRESPCommand words)))"
    using parse_value_enc [OF encodable_command [OF assms(6,7)], of "[]" "[]"] assms(5)
    by (simp add: resp_parse0_def buildRESPCommand_enc)
  ultimately show ?thesis ..
qed

theorem repl_line_sends_witness:
  "repl_line (Some (join_words [''GET'', ''key''])) = Run [''GET'', ''key''] \<and>
    resp_parse0 2 (length (buildRESPCommand [''GET'', ''key''])) (buildRESPCommand [''GET'', ''key'']) =
      Some (Returned (command_value [''GET'', ''key'']) (length (buildRESPCommand [''GET'', ''key''])))"
  by (rule repl_line_sends) (simp_all add: resp_eval buildRESPCommand_def)

text \<open>Every reply the parser returns can be shown: formatting it never hits a payload of
  the wrong kind, at any indentation, and the text ends with a line end.\<close>

theorem formatResponse_parsed:
  assumes "resp_parse vm f data pos = Some (Returned v p)"
  shows "\<exists>s. formatResponse v n = Some s \<and> s \<noteq> [] \<and> last s = LF"
proof -
  have "wt_value v" using assms by (simp add: resp_parse_def parse_value_wt)
  then obtain s where "formatResponse v n = Some s" using formatResponse_total by blast
  with formatResponse_ends_line(1) show ?thesis by blast
qed

theorem formatResponse_parsed_witness:
  "\<exists>s. formatResponse (RESPValue Array (DArray [RESPValue Null (DString [])])) 4 = Some s \<and> s \<noteq> [] \<and> last s = LF"
  by (rule formatResponse_parsed [of 1 9 "''*1'' @ CRLF @ ''$-1'' @ CRLF" 0 _ 9]) (simp add: resp_eval)

end
