(* ===== verification/Rpc_Bytes.thy ===== *)
theory Rpc_Bytes
  imports Prelude
begin

text \<open>
  The big-endian helpers and frame markers of \<^verbatim>\<open>src/app/rpc/RpcServer.cpp\<close>.
  A \<^verbatim>\<open>char\<close> and an \<^verbatim>\<open>unsigned char\<close> are the same octet, so the
  casts between them (\<^verbatim>\<open>u8\<close>) are the identity on \<open>byte\<close>.
\<close>

unbundle bit_operations_syntax

section \<open>Markers and codes\<close>

definition kMagic0 :: byte where "kMagic0 = 0x0a"
definition kMagic1 :: byte where "kMagic1 = 0x0b"
definition kMagic2 :: byte where "kMagic2 = 0x0c"

datatype ErrorCode =
  ERR_BAD_REQUEST | ERR_BAD_INTERNAL | ERR_UNKNOWN_FUNCTION | ERR_UNKNOWN_PARAM | ERR_UNKNOWN_RESPONSE

fun error_code_byte :: "ErrorCode \<Rightarrow> byte" where
  "error_code_byte ERR_BAD_REQUEST = 1"
| "error_code_byte ERR_BAD_INTERNAL = 3"
| "error_code_byte ERR_UNKNOWN_FUNCTION = 100"
| "error_code_byte ERR_UNKNOWN_PARAM = 101"
| "error_code_byte ERR_UNKNOWN_RESPONSE = 102"

datatype RequestType = REQUEST | RESPONSE | REQ_ERROR

fun request_type_byte :: "RequestType \<Rightarrow> byte" where
  "request_type_byte REQUEST = 1"
| "request_type_byte RESPONSE = 2"
| "request_type_byte REQ_ERROR = 3"

section \<open>Big-endian integers\<close>

text \<open>One octet of a value, and a value extended by one octet.\<close>

definition octet :: "nat \<Rightarrow> 'a::len word \<Rightarrow> byte" where
  "octet shift v = ucast (drop_bit shift v AND mask 8)"

definition shift_in :: "'a::len word \<Rightarrow> byte \<Rightarrow> 'a word" where
  "shift_in v b = push_bit 8 v OR ucast b"

definition append_u64_be :: "byte list \<Rightarrow> 64 word \<Rightarrow> byte list" where
  "append_u64_be out v =
     foldl (\<lambda>out shift. out @ [octet shift v]) out [56, 48, 40, 32, 24, 16, 8, 0]"

definition append_u32_be :: "byte list \<Rightarrow> 32 word \<Rightarrow> byte list" where
  "append_u32_be out v =
     out @ [octet 24 v] @ [octet 16 v] @ [octet 8 v] @ [octet 0 v]"

definition read_u64_be :: "byte list \<Rightarrow> 64 word" where
  "read_u64_be p = foldl shift_in 0 (take 8 p)"

definition read_u32_be :: "byte list \<Rightarrow> 32 word" where
  "read_u32_be p = foldl shift_in 0 (take 4 p)"

abbreviation be64 :: "64 word \<Rightarrow> byte list" where
  "be64 v \<equiv> append_u64_be [] v"

abbreviation be32 :: "32 word \<Rightarrow> byte list" where
  "be32 v \<equiv> append_u32_be [] v"

lemma append_u64_be_eq: "append_u64_be out v = out @ be64 v"
  by (simp add: append_u64_be_def)

lemma append_u32_be_eq: "append_u32_be out v = out @ be32 v"
  by (simp add: append_u32_be_def)

lemma length_be64 [simp]: "length (be64 v) = 8"
  by (simp add: append_u64_be_def)

lemma length_be32 [simp]: "length (be32 v) = 4"
  by (simp add: append_u32_be_def)

text \<open>Both helpers bit by bit; everything about them follows from these two lemmas.\<close>

lemma bit_octet: "bit (octet k v) n \<longleftrightarrow> n < 8 \<and> bit v (k + n)"
  by (auto simp: octet_def bit_simps dest: bit_imp_le_length)

lemma bit_shift_in:
  "bit (shift_in (a :: 'a::len word) b) n \<longleftrightarrow> n < LENGTH('a) \<and> (if n < 8 then bit b n else bit a (n - 8))"
  by (auto simp: shift_in_def bit_simps dest: bit_imp_le_length)

lemma shift_in_octet: "shift_in (drop_bit (k + 8) v) (octet k v) = drop_bit k v"
  by (rule bit_word_eqI) (auto simp: bit_octet bit_shift_in bit_drop_bit_eq dest: bit_imp_le_length)

lemma octet_shift_in_0: "octet 0 (shift_in a b) = b" if "8 \<le> LENGTH('a)" for a :: "'a::len word"
  using that by (intro bit_word_eqI) (simp add: bit_octet bit_shift_in)

lemma octet_shift_in_Suc: "octet (k + 8) (shift_in a b) = octet k a"
  if "k + 16 \<le> LENGTH('a)" for a :: "'a::len word"
  using that by (intro bit_word_eqI) (simp add: bit_octet bit_shift_in)

lemma drop_all_bits: "drop_bit LENGTH('a) (v :: 'a::len word) = 0"
  by (rule bit_word_eqI) (auto simp: bit_drop_bit_eq dest: bit_imp_le_length)

lemma read_u64_be_append: "read_u64_be (be64 v @ rest) = v"
  using shift_in_octet [of 56 v] shift_in_octet [of 48 v] shift_in_octet [of 40 v]
    shift_in_octet [of 32 v] shift_in_octet [of 24 v] shift_in_octet [of 16 v]
    shift_in_octet [of 8 v] shift_in_octet [of 0 v] drop_all_bits [of v]
  by (simp add: read_u64_be_def append_u64_be_def)

lemma read_u32_be_append: "read_u32_be (be32 v @ rest) = v"
  using shift_in_octet [of 24 v] shift_in_octet [of 16 v]
    shift_in_octet [of 8 v] shift_in_octet [of 0 v] drop_all_bits [of v]
  by (simp add: read_u32_be_def append_u32_be_def)

lemmas octet_shift_ins =
  octet_shift_in_0 octet_shift_in_Suc [of 0, simplified] octet_shift_in_Suc [of 8, simplified]
  octet_shift_in_Suc [of 16, simplified] octet_shift_in_Suc [of 24, simplified]
  octet_shift_in_Suc [of 32, simplified] octet_shift_in_Suc [of 40, simplified]
  octet_shift_in_Suc [of 48, simplified]

lemma read_u64_be_be64 [simp]: "read_u64_be (be64 v) = v"
  using read_u64_be_append [of v "[]"] by simp

lemma read_u32_be_be32 [simp]: "read_u32_be (be32 v) = v"
  using read_u32_be_append [of v "[]"] by simp

text \<open>Reading any eight (four) bytes and writing them back gives the same bytes.\<close>

lemma be64_read_u64_be:
  assumes "length p = 8"
  shows "be64 (read_u64_be p) = p"
proof -
  obtain a b c d e f g h where p: "p = [a, b, c, d, e, f, g, h]"
    using assms by (auto simp: numeral_eq_Suc length_Suc_conv)
  show ?thesis
    unfolding p
    by (simp add: read_u64_be_def append_u64_be_def octet_shift_ins)
qed

lemma be32_read_u32_be:
  assumes "length p = 4"
  shows "be32 (read_u32_be p) = p"
proof -
  obtain a b c d where p: "p = [a, b, c, d]"
    using assms by (auto simp: numeral_eq_Suc length_Suc_conv)
  show ?thesis
    unfolding p
    by (simp add: read_u32_be_def append_u32_be_def octet_shift_ins)
qed

end
