(* ===== verification/Rpc_Parser.thy ===== *)
theory Rpc_Parser
  imports Rpc_Bytes
begin

text \<open>
  The resumable frame parser \<^verbatim>\<open>parse\<close> of
  \<^verbatim>\<open>src/app/rpc/RpcServer.cpp\<close> and the read callback's loop over it.

  The index \<^verbatim>\<open>i\<close> of the C++ runs from \<^verbatim>\<open>start\<close> to
  \<^verbatim>\<open>end\<close>; the model keeps the bytes of \<^verbatim>\<open>[i, end)\<close>, so
  \<^verbatim>\<open>i = end - length rest\<close>. One round of the \<^verbatim>\<open>switch\<close> is
  \<open>parse_step\<close>: it either goes on (\<open>Next\<close>) or returns (\<open>Done\<close>). The status the
  sources call \<^verbatim>\<open>TYPE\<close> is \<open>MSG_TYPE\<close> here, since the former is reserved.
\<close>

section \<open>State\<close>

datatype ParserStatus =
  SOA | SOB | MSG_TYPE | REQUEST_ID | ERROR_CODE | SERVICE_LEN | SERVICE_NAME
  | FUNC_LEN | FUNC_NAME | PARAM_LEN | PARAM_STRING | EOB | EOC

datatype ParserResult = COMPLETE | WAITING | ERROR

record RpcContext =
  status :: ParserStatus
  result :: ParserResult
  request_id :: "64 word"
  service_name :: "byte list"
  func_name :: "byte list"
  params :: "byte list"
  buffer :: "byte list"

definition new_context :: RpcContext where
  "new_context = \<lparr>status = SOA, result = WAITING, request_id = 0, service_name = [], func_name = [],
     params = [], buffer = []\<rparr>"

definition reset_message :: "RpcContext \<Rightarrow> RpcContext" where
  "reset_message c = c\<lparr>request_id := 0, service_name := [], func_name := [], params := [], buffer := []\<rparr>"

section \<open>One round\<close>

datatype step = Next "byte list" RpcContext | Done "byte list" RpcContext

definition set_waiting :: "byte list \<Rightarrow> RpcContext \<Rightarrow> step" where
  "set_waiting rest c = Done rest (c\<lparr>result := WAITING\<rparr>)"

definition set_error :: "byte list \<Rightarrow> RpcContext \<Rightarrow> step" where
  "set_error rest c = Done rest (reset_message (c\<lparr>result := ERROR, status := SOA\<rparr>))"

text \<open>\<^verbatim>\<open>read_fixed\<close>: bytes move into the buffer until it holds \<open>need\<close>.\<close>

fun fill :: "nat \<Rightarrow> byte list \<Rightarrow> byte list \<Rightarrow> byte list \<times> byte list" where
  "fill need buf [] = (buf, [])"
| "fill need buf (b # rest) = (if length buf < need then fill need (buf @ [b]) rest else (buf, b # rest))"

definition read_fixed ::
  "nat \<Rightarrow> byte list \<Rightarrow> RpcContext \<Rightarrow> (byte list \<Rightarrow> RpcContext \<Rightarrow> step) \<Rightarrow> step" where
  "read_fixed need rest c k =
     (case fill need (buffer c) rest of (buf, rest) \<Rightarrow>
        let c = c\<lparr>buffer := buf\<rparr> in
        if length buf < need then set_waiting rest c else k rest c)"

text \<open>
  \<^verbatim>\<open>read_var\<close>: bytes move into a field of the context, which is read by \<open>get\<close> and
  written by \<open>put\<close>, until it holds \<open>len\<close>.
\<close>

definition read_var ::
  "nat \<Rightarrow> byte list \<Rightarrow> (byte list \<Rightarrow> RpcContext \<Rightarrow> RpcContext) \<Rightarrow> byte list \<Rightarrow> RpcContext \<Rightarrow>
   (byte list \<Rightarrow> RpcContext \<Rightarrow> step) \<Rightarrow> step" where
  "read_var len out put rest c k =
     (if length out > len then set_error rest c
      else let remain = len - length out in
        if remain > 0 then
          let n = min remain (length rest);
              out = out @ take n rest;
              rest = drop n rest;
              c = put out c
          in if length out < len then set_waiting rest c else k rest c
        else k rest c)"

definition parse_step :: "byte list \<Rightarrow> RpcContext \<Rightarrow> step" where
  "parse_step rest c =
     (case status c of
        SOA \<Rightarrow>
          (case dropWhile (\<lambda>b. b \<noteq> kMagic0) rest of
             [] \<Rightarrow> set_waiting [] c
           | b # rest \<Rightarrow> Next rest (c\<lparr>status := SOB\<rparr>))
      | SOB \<Rightarrow>
          (case rest of
             [] \<Rightarrow> set_waiting [] c
           | b # bs \<Rightarrow>
               if b \<noteq> kMagic1 then set_error rest c
               else Next bs ((reset_message c)\<lparr>status := MSG_TYPE\<rparr>))
      | MSG_TYPE \<Rightarrow>
          (case rest of
             [] \<Rightarrow> set_waiting [] c
           | type # bs \<Rightarrow>
               if type \<noteq> request_type_byte REQUEST then set_error bs c
               else Next bs (c\<lparr>status := REQUEST_ID\<rparr>))
      | REQUEST_ID \<Rightarrow>
          read_fixed 8 rest c (\<lambda>rest c.
            let id = read_u64_be (buffer c) in
            if id = 0 then set_error rest c
            else Next rest (c\<lparr>request_id := id, buffer := [], status := ERROR_CODE\<rparr>))
      | ERROR_CODE \<Rightarrow>
          (case rest of
             [] \<Rightarrow> set_waiting [] c
           | code # bs \<Rightarrow>
               if code \<noteq> 0 then set_error bs c else Next bs (c\<lparr>status := SERVICE_LEN\<rparr>))
      | SERVICE_LEN \<Rightarrow>
          (case rest of
             [] \<Rightarrow> set_waiting [] c
           | len # bs \<Rightarrow> Next bs (c\<lparr>service_name := [], buffer := [len], status := SERVICE_NAME\<rparr>))
      | SERVICE_NAME \<Rightarrow>
          (case buffer c of
             [] \<Rightarrow> set_error rest c
           | len # _ \<Rightarrow>
               read_var (unat len) (service_name c) (\<lambda>s c. c\<lparr>service_name := s\<rparr>) rest c (\<lambda>rest c.
                 Next rest (c\<lparr>buffer := [], status := FUNC_LEN\<rparr>)))
      | FUNC_LEN \<Rightarrow>
          (case rest of
             [] \<Rightarrow> set_waiting [] c
           | len # bs \<Rightarrow> Next bs (c\<lparr>func_name := [], buffer := [len], status := FUNC_NAME\<rparr>))
      | FUNC_NAME \<Rightarrow>
          (case buffer c of
             [] \<Rightarrow> set_error rest c
           | len # _ \<Rightarrow>
               read_var (unat len) (func_name c) (\<lambda>s c. c\<lparr>func_name := s\<rparr>) rest c (\<lambda>rest c.
                 Next rest (c\<lparr>buffer := [], status := PARAM_LEN\<rparr>)))
      | PARAM_LEN \<Rightarrow>
          read_fixed 4 rest c (\<lambda>rest c. Next rest (c\<lparr>params := [], status := PARAM_STRING\<rparr>))
      | PARAM_STRING \<Rightarrow>
          if length (buffer c) < 4 then set_error rest c
          else read_var (unat (read_u32_be (buffer c))) (params c) (\<lambda>s c. c\<lparr>params := s\<rparr>) rest c
                 (\<lambda>rest c. Next rest (c\<lparr>buffer := [], status := EOB\<rparr>))
      | EOB \<Rightarrow>
          (case rest of
             [] \<Rightarrow> set_waiting [] c
           | b # bs \<Rightarrow> if b \<noteq> kMagic1 then set_error rest c else Next bs (c\<lparr>status := EOC\<rparr>))
      | EOC \<Rightarrow>
          (case rest of
             [] \<Rightarrow> set_waiting [] c
           | b # bs \<Rightarrow>
               if b \<noteq> kMagic2 then set_error rest c
               else Done bs (c\<lparr>status := SOA, result := COMPLETE\<rparr>)))"

section \<open>The loop\<close>

text \<open>Every round that goes on moves to a later state of the frame.\<close>

fun rank :: "ParserStatus \<Rightarrow> nat" where
  "rank SOA = 0" | "rank SOB = 1" | "rank MSG_TYPE = 2" | "rank REQUEST_ID = 3"
| "rank ERROR_CODE = 4" | "rank SERVICE_LEN = 5" | "rank SERVICE_NAME = 6" | "rank FUNC_LEN = 7"
| "rank FUNC_NAME = 8" | "rank PARAM_LEN = 9" | "rank PARAM_STRING = 10" | "rank EOB = 11"
| "rank EOC = 12"

lemma rank_le: "rank s \<le> 12"
  by (cases s) simp_all

lemmas step_defs = set_waiting_def set_error_def read_fixed_def read_var_def reset_message_def

lemma parse_step_rank: "parse_step rest c = Next r c' \<Longrightarrow> rank (status c) < rank (status c')"
  by (auto simp: parse_step_def step_defs Let_def
      split: ParserStatus.splits list.splits if_splits prod.splits)

function parse_loop :: "byte list \<Rightarrow> RpcContext \<Rightarrow> byte list \<times> RpcContext" where
  "parse_loop rest c =
     (if rest = [] then ([], c\<lparr>result := WAITING\<rparr>)
      else case parse_step rest c of
             Next rest c \<Rightarrow> parse_loop rest c
           | Done rest c \<Rightarrow> (rest, c))"
  by pat_completeness auto
termination
proof (relation "measure (\<lambda>(rest, c). 12 - rank (status c))")
  fix rest c r c'
  assume "parse_step rest c = Next r c'"
  then have "rank (status c) < rank (status c')" by (rule parse_step_rank)
  with rank_le [of "status c'"] show "((r, c'), rest, c) \<in> measure (\<lambda>(rest, c). 12 - rank (status c))"
    by simp
qed simp

declare parse_loop.simps [simp del]

text \<open>\<^verbatim>\<open>parse(buffer, start, end, parsed, context)\<close>: the bytes consumed and the new context.\<close>

definition rpc_parse :: "byte list \<Rightarrow> nat \<Rightarrow> nat \<Rightarrow> RpcContext \<Rightarrow> nat \<times> RpcContext" where
  "rpc_parse buf start end_pos c =
     (if start \<ge> end_pos then (0, c\<lparr>result := WAITING\<rparr>)
      else case parse_loop (take (end_pos - start) (drop start buf)) (c\<lparr>result := WAITING\<rparr>) of
             (rest, c) \<Rightarrow> (end_pos - start - length rest, c))"

lemma parse_loop_Nil [simp]: "parse_loop [] c = ([], c\<lparr>result := WAITING\<rparr>)"
  by (simp add: parse_loop.simps)

lemma parse_loop_Next: "rest \<noteq> [] \<Longrightarrow> parse_step rest c = Next r c' \<Longrightarrow> parse_loop rest c = parse_loop r c'"
  by (subst parse_loop.simps) simp

lemma parse_loop_Done: "rest \<noteq> [] \<Longrightarrow> parse_step rest c = Done r c' \<Longrightarrow> parse_loop rest c = (r, c')"
  by (subst parse_loop.simps) simp

section \<open>Moving bytes\<close>

lemma fill_eq: "fill need buf rest = (buf @ take (need - length buf) rest, drop (need - length buf) rest)"
proof (induction need buf rest rule: fill.induct)
  case (2 need buf b rest)
  show ?case
  proof (cases "length buf < need")
    case True
    then have "need - length buf = Suc (need - Suc (length buf))" by simp
    with 2 True show ?thesis by simp
  qed simp
qed simp

lemma fill_append:
  "length (fst (fill need buf xs)) < need \<Longrightarrow> fill need buf (xs @ ys) = fill need (buf @ xs) ys"
  by (simp add: fill_eq)

section \<open>What a round returns\<close>

text \<open>A round either keeps the result field, or waits at the end, or completes, or fails.\<close>

lemma parse_step_result:
  "parse_step rest c = Next r c' \<Longrightarrow> result c' = result c"
  by (auto simp: parse_step_def step_defs Let_def
      split: ParserStatus.splits list.splits if_splits prod.splits)

definition error_context :: RpcContext where
  "error_context = new_context\<lparr>result := ERROR\<rparr>"

lemma set_error_context: "set_error rest c = Done rest error_context"
  by (simp add: set_error_def error_context_def new_context_def reset_message_def)

lemma error_context_result [simp]: "result error_context = ERROR" "request_id error_context = 0"
  "status error_context = SOA"
  by (simp_all add: error_context_def new_context_def)

lemma parse_step_ERROR:
  "parse_step rest c = Done r c' \<Longrightarrow> result c' = ERROR \<Longrightarrow> c' = error_context"
  by (auto simp: parse_step_def set_waiting_def set_error_context read_fixed_def read_var_def Let_def
      split: ParserStatus.splits list.splits if_splits prod.splits)

lemma parse_step_WAITING:
  "parse_step rest c = Done r c' \<Longrightarrow> result c' = WAITING \<Longrightarrow> r = []"
  by (auto simp: parse_step_def set_waiting_def set_error_context read_fixed_def read_var_def Let_def fill_eq
      split: ParserStatus.splits list.splits if_splits prod.splits)

lemma parse_step_length:
  "parse_step rest c = Next r c' \<Longrightarrow> length r \<le> length rest"
  "parse_step rest c = Done r c' \<Longrightarrow> length r \<le> length rest"
  by (auto simp: parse_step_def set_waiting_def set_error_context read_fixed_def read_var_def Let_def fill_eq
      split: ParserStatus.splits list.splits if_splits prod.splits
      dest!: dropWhile_Cons_length)

text \<open>The start state always consumes; so does a round that completes a frame.\<close>

lemma parse_step_SOA:
  "status c = SOA \<Longrightarrow> parse_step rest c = Next r c' \<Longrightarrow> length r < length rest"
  "status c = SOA \<Longrightarrow> parse_step rest c = Done r c' \<Longrightarrow> result c' = WAITING"
  by (auto simp: parse_step_def set_waiting_def split: list.splits dest!: dropWhile_Cons_length)

lemma parse_step_COMPLETE:
  "parse_step rest c = Done r c' \<Longrightarrow> result c' = COMPLETE \<Longrightarrow> length r < length rest"
  by (auto simp: parse_step_def set_waiting_def set_error_context read_fixed_def read_var_def Let_def
      split: ParserStatus.splits list.splits if_splits prod.splits)

lemma parse_step_suffix:
  "parse_step rest c = Next r c' \<Longrightarrow> \<exists>zs. rest = zs @ r"
  "parse_step rest c = Done r c' \<Longrightarrow> \<exists>zs. rest = zs @ r"
  by (auto simp: parse_step_def set_waiting_def set_error_context read_fixed_def read_var_def Let_def fill_eq
      split: ParserStatus.splits list.splits if_splits prod.splits
      dest!: dropWhile_Cons_suffix intro: append_take_drop_id [symmetric])

text \<open>The same for the whole loop.\<close>

lemma parse_loop_WAITING: "parse_loop xs c = (r, c') \<Longrightarrow> result c' = WAITING \<Longrightarrow> r = []"
proof (induction xs c rule: parse_loop.induct)
  case (1 xs c)
  then show ?case
    by (subst (asm) parse_loop.simps)
      (auto split: if_splits step.splits dest: parse_step_WAITING)
qed

lemma parse_loop_ERROR: "parse_loop xs c = (r, c') \<Longrightarrow> result c' = ERROR \<Longrightarrow> c' = error_context"
proof (induction xs c rule: parse_loop.induct)
  case (1 xs c)
  then show ?case
    by (subst (asm) parse_loop.simps)
      (auto split: if_splits step.splits dest: parse_step_ERROR)
qed

lemma parse_loop_length: "parse_loop xs c = (r, c') \<Longrightarrow> length r \<le> length xs"
proof (induction xs c rule: parse_loop.induct)
  case (1 xs c)
  then show ?case
    by (subst (asm) parse_loop.simps)
      (fastforce split: if_splits step.splits dest: parse_step_length)
qed

lemma parse_loop_suffix: "parse_loop xs c = (r, c') \<Longrightarrow> \<exists>zs. xs = zs @ r"
proof (induction xs c rule: parse_loop.induct)
  case (1 xs c)
  show ?case
  proof (cases "xs = []")
    case False
    show ?thesis
    proof (cases "parse_step xs c")
      case (Next r1 c1)
      with "1.prems" False have "parse_loop r1 c1 = (r, c')" by (simp add: parse_loop_Next)
      with "1.IH" False Next obtain zs where "r1 = zs @ r" by blast
      moreover obtain zs' where "xs = zs' @ r1" using parse_step_suffix(1) [OF Next] by blast
      ultimately have "xs = (zs' @ zs) @ r" by simp
      then show ?thesis by blast
    next
      case (Done r1 c1)
      with "1.prems" False show ?thesis using parse_step_suffix(2) by (simp add: parse_loop_Done)
    qed
  qed (use "1.prems" in simp)
qed

lemma parse_loop_COMPLETE:
  "parse_loop xs c = (r, c') \<Longrightarrow> result c' = COMPLETE \<Longrightarrow> length r < length xs"
proof (induction xs c rule: parse_loop.induct)
  case (1 xs c)
  then show ?case
    by (subst (asm) parse_loop.simps)
      (fastforce split: if_splits step.splits dest: parse_step_length parse_step_COMPLETE)
qed

lemma parse_loop_SOA:
  assumes "parse_loop xs c = (r, c')" "status c = SOA" "result c' \<noteq> WAITING"
  shows "length r < length xs"
proof (cases "xs = []")
  case True
  with assms show ?thesis by auto
next
  case False
  show ?thesis
  proof (cases "parse_step xs c")
    case (Next r1 c1)
    then have "parse_loop r1 c1 = (r, c')" using assms(1) False by (simp add: parse_loop_Next)
    then have "length r \<le> length r1" by (rule parse_loop_length)
    with parse_step_SOA(1) [OF assms(2) Next] show ?thesis by simp
  next
    case (Done r1 c1)
    then show ?thesis using assms False parse_step_SOA(2) by (simp add: parse_loop_Done)
  qed
qed

end
