(* ===== verification/Rpc_Stream.thy ===== *)
theory Rpc_Stream
  imports Rpc_Parser
begin

text \<open>
  The read callback of \<^verbatim>\<open>acceptClient\<close>: the loop that hands every finished
  context to the thread pool. The messages found do not depend on how the byte stream is cut
  into reads, and the loop always consumes the whole read.
\<close>

section \<open>Cutting the input\<close>

text \<open>
  A round on a longer input: what it decides is unchanged, and where the shorter input ran
  out, the longer one continues from the saved context.
\<close>

definition extends_step :: "step \<Rightarrow> byte list \<Rightarrow> step \<Rightarrow> (RpcContext \<Rightarrow> step) \<Rightarrow> bool" where
  "extends_step s ys s' resume =
     (case s of
        Next r c' \<Rightarrow> s' = Next (r @ ys) c'
      | Done r c' \<Rightarrow> if result c' = WAITING then s' = resume c' else s' = Done (r @ ys) c')"

lemma waiting_idem: "result c = WAITING \<Longrightarrow> c\<lparr>result := WAITING\<rparr> = c"
  by simp

lemma extends_waiting:
  "result c = WAITING \<Longrightarrow> s' = resume c \<Longrightarrow> extends_step (set_waiting r c) ys s' resume"
  by (simp add: extends_step_def set_waiting_def waiting_idem)

lemma extends_error: "s' = set_error (r @ ys) c \<Longrightarrow> extends_step (set_error r c) ys s' resume"
  by (simp add: extends_step_def set_error_context)

lemma extends_Next: "s' = Next (r @ ys) c \<Longrightarrow> extends_step (Next r c) ys s' resume"
  by (simp add: extends_step_def)

lemma read_fixed_extends:
  assumes "result c = WAITING"
    and k: "\<And>r c'. result c' = WAITING \<Longrightarrow> extends_step (k r c') ys (k (r @ ys) c') resume"
    and resume: "\<And>buf. resume (c\<lparr>buffer := buf\<rparr>) = read_fixed need ys (c\<lparr>buffer := buf\<rparr>) k"
  shows "extends_step (read_fixed need xs c k) ys (read_fixed need (xs @ ys) c k) resume"
proof (cases "length (buffer c) + length xs < need")
  case True
  then have "read_fixed need xs c k = set_waiting [] (c\<lparr>buffer := buffer c @ xs\<rparr>)"
    by (simp add: read_fixed_def fill_eq)
  moreover have "read_fixed need (xs @ ys) c k = read_fixed need ys (c\<lparr>buffer := buffer c @ xs\<rparr>) k"
    using True fill_append [of need "buffer c" xs ys] by (simp add: read_fixed_def fill_eq)
  ultimately show ?thesis
    using resume [of "buffer c @ xs"] assms(1) by (simp add: extends_waiting)
next
  case False
  let ?n = "need - length (buffer c)"
  have n: "?n \<le> length xs" using False by simp
  have "read_fixed need xs c k = k (drop ?n xs) (c\<lparr>buffer := buffer c @ take ?n xs\<rparr>)"
    using n False by (auto simp: read_fixed_def fill_eq Let_def)
  moreover have "read_fixed need (xs @ ys) c k = k (drop ?n xs @ ys) (c\<lparr>buffer := buffer c @ take ?n xs\<rparr>)"
    using n False by (auto simp: read_fixed_def fill_eq Let_def)
  ultimately show ?thesis using k assms(1) by simp
qed

lemma read_var_extends:
  assumes "result c = WAITING" and put: "\<And>s c. result (put s c) = result c" "put out c = c"
    and k: "\<And>r c'. result c' = WAITING \<Longrightarrow> extends_step (k r c') ys (k (r @ ys) c') resume"
    and resume: "\<And>s. length s \<le> len \<Longrightarrow> resume (put s c) = read_var len s put ys (put s c) k"
    and putput: "\<And>s t. put s (put t c) = put s c" and ys: "ys \<noteq> []"
  shows "extends_step (read_var len out put xs c k) ys (read_var len out put (xs @ ys) c k) resume"
proof (cases "length out > len")
  case True
  then show ?thesis by (simp add: read_var_def extends_error)
next
  case le: False
  show ?thesis
  proof (cases "length out + length xs < len")
    case True
    then have a: "read_var len out put xs c k = set_waiting [] (put (out @ xs) c)"
      by (simp add: read_var_def Let_def)
    have m: "min (len - length out) (length (xs @ ys)) = length xs + min (len - length (out @ xs)) (length ys)"
      "\<not> len < length (out @ xs)" "0 < len - length (out @ xs)" "0 < len - length out"
      using True by simp_all
    have "read_var len out put (xs @ ys) c k = read_var len (out @ xs) put ys (put (out @ xs) c) k"
      unfolding read_var_def Let_def m(1) using m(2-4) le putput by simp
    also have "\<dots> = resume (put (out @ xs) c)" using True by (intro resume [symmetric]) simp
    finally show ?thesis using put(1) assms(1) unfolding a by (simp add: extends_waiting)
  next
    case False
    let ?n = "len - length out"
    have n: "?n \<le> length xs" "min ?n (length xs) = ?n" "min ?n (length (xs @ ys)) = ?n"
      using False by simp_all
    let ?c = "if ?n > 0 then put (out @ take ?n xs) c else c"
    have "read_var len out put xs c k = k (drop ?n xs) ?c"
      using n le False by (auto simp: read_var_def Let_def)
    moreover have "read_var len out put (xs @ ys) c k = k (drop ?n xs @ ys) ?c"
      using n le False by (auto simp: read_var_def Let_def)
    ultimately show ?thesis using k put assms(1) by simp
  qed
qed

lemma parse_step_extends:
  assumes "xs \<noteq> []" and "ys \<noteq> []" and w: "result c = WAITING"
  shows "extends_step (parse_step xs c) ys (parse_step (xs @ ys) c) (parse_step ys)"
proof (cases "status c")
  case SOA
  show ?thesis
  proof (cases "dropWhile (\<lambda>b. b \<noteq> kMagic0) xs")
    case Nil
    have "parse_step xs c = set_waiting [] c" by (simp add: parse_step_def SOA Nil)
    moreover have "parse_step (xs @ ys) c = parse_step ys c"
      using SOA by (simp add: parse_step_def dropWhile_append_Nil [OF Nil])
    ultimately show ?thesis using w by (simp add: extends_waiting)
  next
    case (Cons b r)
    then show ?thesis using SOA
      by (simp add: parse_step_def dropWhile_append_Cons [OF Cons] extends_Next)
  qed
next
  case REQUEST_ID
  then show ?thesis using w
    by (simp add: parse_step_def, intro read_fixed_extends)
      (auto simp: Let_def parse_step_def intro!: extends_Next extends_error)
next
  case PARAM_LEN
  then show ?thesis using w
    by (simp add: parse_step_def, intro read_fixed_extends)
      (auto simp: parse_step_def intro!: extends_Next)
next
  case SERVICE_NAME
  then show ?thesis using w assms(2)
    by (cases "buffer c", simp_all add: parse_step_def extends_error, intro read_var_extends)
      (auto simp: parse_step_def intro!: extends_Next)
next
  case FUNC_NAME
  then show ?thesis using w assms(2)
    by (cases "buffer c", simp_all add: parse_step_def extends_error, intro read_var_extends)
      (auto simp: parse_step_def intro!: extends_Next)
next
  case PARAM_STRING
  then show ?thesis using w assms(2)
    by (cases "length (buffer c) < 4", simp_all add: parse_step_def extends_error, intro read_var_extends)
      (auto simp: parse_step_def intro!: extends_Next)
qed (use assms in \<open>auto simp: parse_step_def neq_Nil_conv extends_step_def set_error_context\<close>)

lemma parse_loop_split:
  assumes "parse_loop xs c = (r, c')" and "result c = WAITING" and "ys \<noteq> []" and "xs \<noteq> []"
  shows "parse_loop (xs @ ys) c = (if result c' = WAITING then parse_loop ys c' else (r @ ys, c'))"
  using assms
proof (induction xs c rule: parse_loop.induct)
  case (1 xs c)
  have ext: "extends_step (parse_step xs c) ys (parse_step (xs @ ys) c) (parse_step ys)"
    using "1.prems" by (intro parse_step_extends)
  show ?case
  proof (cases "parse_step xs c")
    case (Next r1 c1)
    then have long: "parse_step (xs @ ys) c = Next (r1 @ ys) c1" using ext by (simp add: extends_step_def)
    have w: "result c1 = WAITING" using parse_step_result [OF Next] "1.prems"(2) by simp
    have "parse_loop r1 c1 = (r, c')" using "1.prems"(1,4) Next by (simp add: parse_loop_Next)
    moreover have "parse_loop (xs @ ys) c = parse_loop (r1 @ ys) c1"
      using long "1.prems"(3) by (intro parse_loop_Next) simp_all
    ultimately show ?thesis
      using "1.IH" [OF "1.prems"(4) Next] w "1.prems"(3)
      by (cases "r1 = []") (auto simp: waiting_idem)
  next
    case (Done r1 c1)
    then have eq: "r1 = r" "c1 = c'" using "1.prems"(1,4) by (simp_all add: parse_loop_Done)
    show ?thesis
    proof (cases "result c' = WAITING")
      case True
      then have "parse_step (xs @ ys) c = parse_step ys c'" using ext Done eq by (simp add: extends_step_def)
      with True "1.prems"(3) show ?thesis
        by (simp add: parse_loop.simps [of "xs @ ys"] parse_loop.simps [of ys])
    next
      case False
      then have "parse_step (xs @ ys) c = Done (r @ ys) c'" using ext Done eq by (simp add: extends_step_def)
      with False "1.prems"(3) show ?thesis by (simp add: parse_loop_Done)
    qed
  qed
qed

section \<open>The read callback\<close>

text \<open>
  \<open>feed\<close> is the loop of the read callback on the bytes themselves: it yields the contexts
  handed to the thread pool and the context kept for the next read.
\<close>

function feed :: "byte list \<Rightarrow> RpcContext \<Rightarrow> RpcContext list \<times> RpcContext" where
  "feed xs c =
     (if xs = [] then ([], c)
      else case parse_loop xs (c\<lparr>result := WAITING\<rparr>) of
             (r, c') \<Rightarrow>
               if result c' = WAITING then ([], c')
               else case feed r new_context of (out, c'') \<Rightarrow> (c' # out, c''))"
  by pat_completeness auto
termination
proof (relation "measure (\<lambda>(xs, c). 2 * length xs + (if status c = SOA then 0 else 1))", goal_cases)
  case (2 xs c r c')
  then have h: "parse_loop xs (c\<lparr>result := WAITING\<rparr>) = (r, c')" "result c' \<noteq> WAITING" by simp_all
  then show ?case
    using parse_loop_length [OF h(1)] parse_loop_SOA [OF h(1)]
    by (cases "status c = SOA") (auto simp: new_context_def)
qed simp

declare feed.simps [simp del]

lemma feed_Nil [simp]: "feed [] c = ([], c)"
  by (simp add: feed.simps)

text \<open>The loop of the callback with the offsets the C++ keeps.\<close>

function read_loop :: "byte list \<Rightarrow> nat \<Rightarrow> nat \<Rightarrow> RpcContext \<Rightarrow> nat \<times> RpcContext list \<times> RpcContext" where
  "read_loop buf offset sz c =
     (if offset < sz then
        case rpc_parse buf offset sz c of
          (parsed, c) \<Rightarrow>
            if result c = COMPLETE \<or> result c = ERROR then
              (case read_loop buf (offset + parsed) sz new_context of
                 (n, out, c') \<Rightarrow> (n, c # out, c'))
            else (offset + parsed, [], c)
      else (offset, [], c))"
  by pat_completeness auto
termination
proof (relation "measure (\<lambda>(buf, offset, sz, c). 2 * (sz - offset) + (if status c = SOA then 0 else 1))",
    goal_cases)
  case (2 buf offset sz c parsed c')
  then have lt: "offset < sz" and p: "rpc_parse buf offset sz c = (parsed, c')"
    and res: "result c' = COMPLETE \<or> result c' = ERROR" by simp_all
  let ?w = "take (sz - offset) (drop offset buf)"
  obtain r where r: "parse_loop ?w (c\<lparr>result := WAITING\<rparr>) = (r, c')" "parsed = sz - offset - length r"
    using p lt by (auto simp: rpc_parse_def split: prod.splits)
  have w: "result c' \<noteq> WAITING" "length ?w \<le> sz - offset" using res by auto
  have "length r \<le> length ?w" using r(1) by (rule parse_loop_length)
  moreover have "length r < length ?w" if "status c = SOA"
    using parse_loop_SOA [OF r(1)] that w(1) by simp
  ultimately show ?case
    using r(2) lt w(2) by (auto simp: new_context_def)
qed simp

declare read_loop.simps [simp del]

text \<open>
  \<^verbatim>\<open>client->asyncRead([...](buffer, size) { ... })\<close>: a read of size zero
  closes the socket, any other read runs the loop.
\<close>

datatype read_effect = CloseClient | Dispatch "RpcContext list"

definition on_read :: "byte list \<Rightarrow> nat \<Rightarrow> RpcContext \<Rightarrow> nat \<times> read_effect \<times> RpcContext" where
  "on_read buf sz c =
     (if sz = 0 then (0, CloseClient, c)
      else case read_loop buf 0 sz c of (n, out, c) \<Rightarrow> (n, Dispatch out, c))"

lemma read_loop_feed:
  "offset \<le> sz \<Longrightarrow> sz \<le> length buf \<Longrightarrow>
   read_loop buf offset sz c = (sz, feed (take (sz - offset) (drop offset buf)) c)"
proof (induction buf offset sz c rule: read_loop.induct)
  case (1 buf offset sz c)
  let ?w = "take (sz - offset) (drop offset buf)"
  have len: "length ?w = sz - offset" using "1.prems" by simp
  show ?case
  proof (cases "offset < sz")
    case False
    with "1.prems" show ?thesis by (simp add: read_loop.simps)
  next
    case True
    then have ne: "?w \<noteq> []" using len by auto
    obtain r c' where p: "parse_loop ?w (c\<lparr>result := WAITING\<rparr>) = (r, c')" by fastforce
    have rl: "length r \<le> sz - offset" using parse_loop_length [OF p] len by simp
    have parsed: "rpc_parse buf offset sz c = (sz - offset - length r, c')"
      using True p by (simp add: rpc_parse_def)
    show ?thesis
    proof (cases "result c' = WAITING")
      case w: True
      then have "r = []" using parse_loop_WAITING [OF p] by simp
      with w True ne p parsed show ?thesis by (simp add: read_loop.simps [of buf offset] feed.simps [of ?w])
    next
      case nw: False
      then have res: "result c' = COMPLETE \<or> result c' = ERROR" by (cases "result c'") simp_all
      let ?o = "offset + (sz - offset - length r)"
      obtain zs where zs: "?w = zs @ r" using parse_loop_suffix [OF p] by blast
      have zl: "?o = offset + length zs" using arg_cong [OF zs, of length] len by simp
      have "drop (length zs) ?w = r" using zs by simp
      then have rest: "r = take (sz - ?o) (drop ?o buf)"
        unfolding zl by (simp add: drop_take add.commute)
      have ih: "read_loop buf ?o sz new_context = (sz, feed r new_context)"
        using "1.IH" [OF True parsed [symmetric] res] "1.prems" rl True
        by (simp only: rest [symmetric])
      have "feed ?w c = (case feed r new_context of (out, c'') \<Rightarrow> (c' # out, c''))"
        using ne p nw by (simp add: feed.simps [of ?w])
      moreover have "read_loop buf offset sz c =
          (case read_loop buf ?o sz new_context of (n, out, c'') \<Rightarrow> (n, c' # out, c''))"
        using True parsed res by (simp add: read_loop.simps [of buf offset])
      ultimately show ?thesis using ih by (simp split: prod.splits)
    qed
  qed
qed

lemma on_read_feed:
  assumes "0 < sz" and "sz \<le> length buf"
  shows "on_read buf sz c = (sz, Dispatch (fst (feed (take sz buf) c)), snd (feed (take sz buf) c))"
  using assms read_loop_feed [of 0 sz buf c] by (simp add: on_read_def split: prod.splits)

section \<open>Cutting the stream does not change the messages\<close>

lemma feed_waiting_field: "xs \<noteq> [] \<Longrightarrow> feed xs (c\<lparr>result := WAITING\<rparr>) = feed xs c"
  by (simp add: feed.simps [of xs])

lemma feed_append:
  "feed (xs @ ys) c =
     (case feed xs c of (out, c') \<Rightarrow> case feed ys c' of (out', c'') \<Rightarrow> (out @ out', c''))"
proof (induction xs c rule: feed.induct)
  case (1 xs c)
  show ?case
  proof (cases "xs = [] \<or> ys = []")
    case True
    then show ?thesis by (auto split: prod.splits)
  next
    case False
    let ?c = "c\<lparr>result := WAITING\<rparr>"
    obtain r c' where p: "parse_loop xs ?c = (r, c')" by fastforce
    have split: "parse_loop (xs @ ys) ?c = (if result c' = WAITING then parse_loop ys c' else (r @ ys, c'))"
      using False p by (intro parse_loop_split) simp_all
    show ?thesis
    proof (cases "result c' = WAITING")
      case True
      then have "feed (xs @ ys) c = feed ys c'"
        using split False by (simp add: feed.simps [of "xs @ ys"] feed.simps [of ys] waiting_idem)
      moreover have "feed xs c = ([], c')" using True p False by (simp add: feed.simps [of xs])
      ultimately show ?thesis by (simp split: prod.splits)
    next
      case nw: False
      have "feed (xs @ ys) c = (case feed (r @ ys) new_context of (out, c'') \<Rightarrow> (c' # out, c''))"
        using nw split False by (simp add: feed.simps [of "xs @ ys"])
      moreover have "feed xs c = (case feed r new_context of (out, c'') \<Rightarrow> (c' # out, c''))"
        using nw p False by (simp add: feed.simps [of xs])
      ultimately show ?thesis using "1.IH" [OF _ p [symmetric] nw] False
        by (simp split: prod.splits)
    qed
  qed
qed

text \<open>A connection's reads, one after the other.\<close>

fun feed_reads :: "byte list list \<Rightarrow> RpcContext \<Rightarrow> RpcContext list \<times> RpcContext" where
  "feed_reads [] c = ([], c)"
| "feed_reads (xs # xss) c =
     (case feed xs c of (out, c') \<Rightarrow> case feed_reads xss c' of (out', c'') \<Rightarrow> (out @ out', c''))"

lemma feed_reads_concat: "feed_reads xss c = feed (concat xss) c"
  by (induction xss arbitrary: c) (simp_all add: feed_append split: prod.splits)

lemma feed_results: "m \<in> set (fst (feed xs c)) \<Longrightarrow> result m = COMPLETE \<or> m = error_context"
proof (induction xs c rule: feed.induct)
  case (1 xs c)
  obtain r c' where p: "parse_loop xs (c\<lparr>result := WAITING\<rparr>) = (r, c')" by fastforce
  show ?case
  proof (cases "xs = [] \<or> result c' = WAITING")
    case True
    then have "fst (feed xs c) = []" using p by (cases "xs = []") (simp_all add: feed.simps [of xs])
    with "1.prems" show ?thesis by simp
  next
    case False
    then have "m = c' \<or> m \<in> set (fst (feed r new_context))"
      using "1.prems" p by (auto simp: feed.simps [of xs] split: prod.splits)
    then show ?thesis
      using "1.IH" [OF _ p [symmetric]] False parse_loop_ERROR [OF p]
      by (cases "result c'") auto
  qed
qed

end
