(* ===== verification/Rpc_Frames.thy ===== *)
theory Rpc_Frames
  imports Rpc_Stream
begin

text \<open>
  The request frame of the protocol as a reference encoder, and the parser against it in both
  directions: a frame is recognised with its fields, behind any bytes without a start marker,
  and whatever the parser completes was a frame. Then the two response builders of
  \<^verbatim>\<open>RpcServer.cpp\<close> with a reference decoder.
\<close>

section \<open>Request frames\<close>

definition request_frame :: "64 word \<Rightarrow> byte list \<Rightarrow> byte list \<Rightarrow> byte list \<Rightarrow> byte list" where
  "request_frame rid svc fn ps =
     [kMagic0, kMagic1, request_type_byte REQUEST] @ be64 rid @ [0]
     @ [of_nat (length svc)] @ svc @ [of_nat (length fn)] @ fn
     @ be32 (of_nat (length ps)) @ ps @ [kMagic1, kMagic2]"

definition frame_ok :: "64 word \<Rightarrow> byte list \<Rightarrow> byte list \<Rightarrow> byte list \<Rightarrow> bool" where
  "frame_ok rid svc fn ps \<longleftrightarrow> rid \<noteq> 0 \<and> length svc < 256 \<and> length fn < 256 \<and> length ps < 2 ^ 32"

definition message :: "64 word \<Rightarrow> byte list \<Rightarrow> byte list \<Rightarrow> byte list \<Rightarrow> RpcContext" where
  "message rid svc fn ps =
     \<lparr>status = SOA, result = COMPLETE, request_id = rid, service_name = svc, func_name = fn,
      params = ps, buffer = []\<rparr>"

lemma unat_of_nat_byte: "n < 256 \<Longrightarrow> unat (of_nat n :: byte) = n"
  by (simp add: unat_of_nat)

lemma unat_of_nat_u32: "n < 2 ^ 32 \<Longrightarrow> unat (of_nat n :: 32 word) = n"
  by (simp add: unat_of_nat)

subsection \<open>The loop on each piece of a frame\<close>

lemma loop_SOA [rpc_simps]:
  "status c = SOA \<Longrightarrow> kMagic0 \<notin> set g \<Longrightarrow>
   parse_loop (g @ kMagic0 # xs) c = parse_loop xs (c\<lparr>status := SOB\<rparr>)"
proof (rule parse_loop_Next)
  assume a: "status c = SOA" "kMagic0 \<notin> set g"
  then have "dropWhile (\<lambda>b. b \<noteq> kMagic0) (g @ kMagic0 # xs) = kMagic0 # xs"
    by (subst dropWhile_append2) auto
  with a show "parse_step (g @ kMagic0 # xs) c = Next xs (c\<lparr>status := SOB\<rparr>)"
    by (simp add: parse_step_def)
qed simp

lemma loop_SOB [rpc_simps]:
  "status c = SOB \<Longrightarrow>
   parse_loop (kMagic1 # xs) c = parse_loop xs ((reset_message c)\<lparr>status := MSG_TYPE\<rparr>)"
  by (rule parse_loop_Next) (simp_all add: parse_step_def)

lemma loop_MSG_TYPE [rpc_simps]:
  "status c = MSG_TYPE \<Longrightarrow>
   parse_loop (1 # xs) c = parse_loop xs (c\<lparr>status := REQUEST_ID\<rparr>)"
  by (rule parse_loop_Next) (simp_all add: parse_step_def)

lemma loop_REQUEST_ID [rpc_simps]:
  "status c = REQUEST_ID \<Longrightarrow> buffer c = [] \<Longrightarrow> rid \<noteq> 0 \<Longrightarrow>
   parse_loop (be64 rid @ xs) c = parse_loop xs (c\<lparr>request_id := rid, buffer := [], status := ERROR_CODE\<rparr>)"
  by (rule parse_loop_Next)
    (auto simp: parse_step_def read_fixed_def fill_eq Let_def dest: arg_cong [of _ _ length])

lemma loop_ERROR_CODE [rpc_simps]:
  "status c = ERROR_CODE \<Longrightarrow> parse_loop (0 # xs) c = parse_loop xs (c\<lparr>status := SERVICE_LEN\<rparr>)"
  by (rule parse_loop_Next) (simp_all add: parse_step_def)

lemma loop_SERVICE_LEN [rpc_simps]:
  "status c = SERVICE_LEN \<Longrightarrow>
   parse_loop (n # xs) c = parse_loop xs (c\<lparr>service_name := [], buffer := [n], status := SERVICE_NAME\<rparr>)"
  by (rule parse_loop_Next) (simp_all add: parse_step_def)

lemma loop_SERVICE_NAME [rpc_simps]:
  "status c = SERVICE_NAME \<Longrightarrow> buffer c = [of_nat (length s)] \<Longrightarrow> service_name c = [] \<Longrightarrow>
   length s < 256 \<Longrightarrow> xs \<noteq> [] \<Longrightarrow>
   parse_loop (s @ xs) c = parse_loop xs (c\<lparr>service_name := s, buffer := [], status := FUNC_LEN\<rparr>)"
  by (rule parse_loop_Next) (auto simp: parse_step_def read_var_def Let_def unat_of_nat_byte)

lemma loop_FUNC_LEN [rpc_simps]:
  "status c = FUNC_LEN \<Longrightarrow>
   parse_loop (n # xs) c = parse_loop xs (c\<lparr>func_name := [], buffer := [n], status := FUNC_NAME\<rparr>)"
  by (rule parse_loop_Next) (simp_all add: parse_step_def)

lemma loop_FUNC_NAME [rpc_simps]:
  "status c = FUNC_NAME \<Longrightarrow> buffer c = [of_nat (length s)] \<Longrightarrow> func_name c = [] \<Longrightarrow>
   length s < 256 \<Longrightarrow> xs \<noteq> [] \<Longrightarrow>
   parse_loop (s @ xs) c = parse_loop xs (c\<lparr>func_name := s, buffer := [], status := PARAM_LEN\<rparr>)"
  by (rule parse_loop_Next) (auto simp: parse_step_def read_var_def Let_def unat_of_nat_byte)

lemma loop_PARAM_LEN [rpc_simps]:
  "status c = PARAM_LEN \<Longrightarrow> buffer c = [] \<Longrightarrow>
   parse_loop (be32 n @ xs) c = parse_loop xs (c\<lparr>params := [], buffer := be32 n, status := PARAM_STRING\<rparr>)"
  by (rule parse_loop_Next)
    (auto simp: parse_step_def read_fixed_def fill_eq Let_def dest: arg_cong [of _ _ length])

lemma loop_PARAM_STRING [rpc_simps]:
  "status c = PARAM_STRING \<Longrightarrow> buffer c = be32 (of_nat (length s)) \<Longrightarrow> params c = [] \<Longrightarrow>
   length s < 2 ^ 32 \<Longrightarrow> xs \<noteq> [] \<Longrightarrow>
   parse_loop (s @ xs) c = parse_loop xs (c\<lparr>params := s, buffer := [], status := EOB\<rparr>)"
  by (rule parse_loop_Next) (auto simp: parse_step_def read_var_def Let_def unat_of_nat_u32)

lemma loop_EOB [rpc_simps]:
  "status c = EOB \<Longrightarrow> parse_loop (kMagic1 # xs) c = parse_loop xs (c\<lparr>status := EOC\<rparr>)"
  by (rule parse_loop_Next) (simp_all add: parse_step_def)

lemma loop_EOC [rpc_simps]:
  "status c = EOC \<Longrightarrow> parse_loop (kMagic2 # xs) c = (xs, c\<lparr>status := SOA, result := COMPLETE\<rparr>)"
  by (rule parse_loop_Done) (simp_all add: parse_step_def)

lemma parse_loop_frame:
  assumes "frame_ok rid svc fn ps" and "status c = SOA" and "kMagic0 \<notin> set g"
  shows "parse_loop (g @ request_frame rid svc fn ps @ xs) c = (xs, message rid svc fn ps)"
  using assms
  by (simp add: request_frame_def frame_ok_def rpc_simps reset_message_def message_def)

section \<open>What the parser completes is a frame\<close>

text \<open>The bytes of the frame behind a context that is in the middle of it.\<close>

definition frame_head :: "64 word \<Rightarrow> byte list" where
  "frame_head rid = [kMagic0, kMagic1, 1] @ be64 rid @ [0]"

definition counted :: "byte list \<Rightarrow> byte list" where
  "counted s = of_nat (length s) # s"

fun seen :: "RpcContext \<Rightarrow> byte list" where
  "seen c =
     (case status c of
        SOA \<Rightarrow> []
      | SOB \<Rightarrow> [kMagic0]
      | MSG_TYPE \<Rightarrow> [kMagic0, kMagic1]
      | REQUEST_ID \<Rightarrow> [kMagic0, kMagic1, 1] @ buffer c
      | ERROR_CODE \<Rightarrow> [kMagic0, kMagic1, 1] @ be64 (request_id c)
      | SERVICE_LEN \<Rightarrow> frame_head (request_id c)
      | SERVICE_NAME \<Rightarrow> frame_head (request_id c) @ buffer c @ service_name c
      | FUNC_LEN \<Rightarrow> frame_head (request_id c) @ counted (service_name c)
      | FUNC_NAME \<Rightarrow> frame_head (request_id c) @ counted (service_name c) @ buffer c @ func_name c
      | PARAM_LEN \<Rightarrow> frame_head (request_id c) @ counted (service_name c) @ counted (func_name c) @ buffer c
      | PARAM_STRING \<Rightarrow> frame_head (request_id c) @ counted (service_name c) @ counted (func_name c)
          @ buffer c @ params c
      | EOB \<Rightarrow> frame_head (request_id c) @ counted (service_name c) @ counted (func_name c)
          @ be32 (of_nat (length (params c))) @ params c
      | EOC \<Rightarrow> frame_head (request_id c) @ counted (service_name c) @ counted (func_name c)
          @ be32 (of_nat (length (params c))) @ params c @ [kMagic1])"

text \<open>What holds of a context in each state.\<close>

definition ctx_wf :: "RpcContext \<Rightarrow> bool" where
  "ctx_wf c \<longleftrightarrow>
     (rank (status c) \<ge> 4 \<longrightarrow> request_id c \<noteq> 0) \<and>
     (status c \<in> {MSG_TYPE, FUNC_LEN} \<longrightarrow> buffer c = []) \<and>
     (status c = REQUEST_ID \<longrightarrow> length (buffer c) < 8) \<and>
     (status c = SERVICE_NAME \<longrightarrow>
        length (buffer c) = 1 \<and> length (service_name c) \<le> unat (hd (buffer c))) \<and>
     (rank (status c) \<ge> 7 \<longrightarrow> length (service_name c) < 256) \<and>
     (status c = FUNC_NAME \<longrightarrow>
        length (buffer c) = 1 \<and> length (func_name c) \<le> unat (hd (buffer c))) \<and>
     (rank (status c) \<ge> 9 \<longrightarrow> length (func_name c) < 256) \<and>
     (status c = PARAM_LEN \<longrightarrow> length (buffer c) < 4) \<and>
     (status c = PARAM_STRING \<longrightarrow>
        length (buffer c) = 4 \<and> length (params c) \<le> unat (read_u32_be (buffer c))) \<and>
     (rank (status c) \<ge> 11 \<longrightarrow> length (params c) < 2 ^ 32)"

lemma ctx_wf_new [simp]: "ctx_wf new_context"
  by (simp add: ctx_wf_def new_context_def)

lemma unat_byte_less: "unat (b :: byte) < 256"
  using unsigned_less [of b] by simp

lemma unat_u32_less: "unat (w :: 32 word) < 4294967296"
  using unsigned_less [of w] by simp

text \<open>A finished counted field: its length byte is the length read.\<close>

lemma counted_done: "length s = unat b \<Longrightarrow> counted s = b # s"
  by (simp add: counted_def)

lemma read_var_Next:
  assumes "read_var len out put rest c k = Next r c'" and "length out \<le> len"
  obtains u where "rest = u @ drop (length u) rest" "length (out @ u) = len"
    "k (drop (length u) rest) (if out @ u = out then c else put (out @ u) c) = Next r c'"
proof (cases "len - length out")
  case 0
  with assms have "k rest c = Next r c'" by (simp add: read_var_def)
  with 0 assms(2) show ?thesis by (intro that [of "[]"]) simp_all
next
  case (Suc n)
  let ?u = "take (len - length out) rest"
  from assms Suc have l: "\<not> length (out @ ?u) < len"
    and k: "k (drop (min (len - length out) (length rest)) rest) (put (out @ ?u) c) = Next r c'"
    by (auto simp: read_var_def Let_def set_waiting_def min_def split: if_splits)
  then have lu: "length ?u = len - length out" by simp
  then have m: "min (len - length out) (length rest) = length ?u" by simp
  have ne: "out @ ?u \<noteq> out" using lu Suc by auto
  show ?thesis
  proof (rule that)
    show "rest = ?u @ drop (length ?u) rest" using lu by simp
    show "length (out @ ?u) = len" using lu assms(2) by simp
    show "k (drop (length ?u) rest) (if out @ ?u = out then c else put (out @ ?u) c) = Next r c'"
      using k m ne by simp
  qed
qed

lemma read_fixed_Next:
  assumes "read_fixed need rest c k = Next r c'" and "length (buffer c) \<le> need"
  obtains u where "rest = u @ drop (length u) rest" "length (buffer c @ u) = need"
    "k (drop (length u) rest) (c\<lparr>buffer := buffer c @ u\<rparr>) = Next r c'"
proof -
  let ?u = "take (need - length (buffer c)) rest"
  from assms have l: "\<not> length (buffer c @ ?u) < need"
    and k: "k (drop (need - length (buffer c)) rest) (c\<lparr>buffer := buffer c @ ?u\<rparr>) = Next r c'"
    by (auto simp: read_fixed_def fill_eq Let_def set_waiting_def split: if_splits)
  then have lu: "length ?u = need - length (buffer c)" by simp
  show ?thesis
  proof (rule that)
    show "rest = ?u @ drop (length ?u) rest" using lu by simp
    show "length (buffer c @ ?u) = need" using lu assms(2) by simp
    show "k (drop (length ?u) rest) (c\<lparr>buffer := buffer c @ ?u\<rparr>) = Next r c'" using k lu by simp
  qed
qed

lemma parse_step_SOA_Next:
  assumes "status c = SOA" and "parse_step xs c = Next r c'"
  obtains g where "kMagic0 \<notin> set g" "xs = g @ kMagic0 # r" "c' = c\<lparr>status := SOB\<rparr>"
proof -
  let ?d = "dropWhile (\<lambda>b. b \<noteq> kMagic0) xs"
  have step: "(case ?d of [] \<Rightarrow> set_waiting [] c | b # rest \<Rightarrow> Next rest (c\<lparr>status := SOB\<rparr>)) = Next r c'"
    using assms by (simp add: parse_step_def)
  obtain b where d: "?d = b # r" and c: "c' = c\<lparr>status := SOB\<rparr>"
  proof (cases ?d)
    case Nil
    from step have False unfolding Nil by (simp add: set_waiting_def)
    then show thesis ..
  next
    case (Cons b rest)
    from step have "rest = r" "c' = c\<lparr>status := SOB\<rparr>" unfolding Cons by simp_all
    then show thesis by (intro that [of b]) (simp_all only: Cons)
  qed
  have b: "b = kMagic0" using hd_dropWhile [of "\<lambda>b. b \<noteq> kMagic0" xs] unfolding d by simp
  let ?g = "takeWhile (\<lambda>b. b \<noteq> kMagic0) xs"
  have "kMagic0 \<notin> set ?g" by (auto dest: set_takeWhileD)
  moreover have "xs = ?g @ kMagic0 # r"
    using takeWhile_dropWhile_id [of "\<lambda>b. b \<noteq> kMagic0" xs] unfolding d b by (rule sym)
  ultimately show ?thesis using c by (rule that)
qed

lemma singleton_list: "length xs = 1 \<Longrightarrow> xs = [hd xs]"
  by (cases xs) auto

lemma parse_step_seen:
  assumes wf: "ctx_wf c" and st: "status c \<noteq> SOA" and step: "parse_step xs c = Next r c'"
  shows "\<exists>u. xs = u @ r \<and> ctx_wf c' \<and> seen c @ u = seen c'"
proof (cases "status c")
  case SOA
  with st show ?thesis by simp
next
  case REQUEST_ID
  let ?k = "\<lambda>rest c. let id = read_u64_be (buffer c) in if id = 0 then set_error rest c
    else Next rest (c\<lparr>request_id := id, buffer := [], status := ERROR_CODE\<rparr>)"
  have f: "read_fixed 8 xs c ?k = Next r c'" "length (buffer c) \<le> 8"
    using step wf REQUEST_ID by (simp_all add: parse_step_def ctx_wf_def)
  from f obtain u where u: "xs = u @ drop (length u) xs" "length (buffer c @ u) = 8"
    "?k (drop (length u) xs) (c\<lparr>buffer := buffer c @ u\<rparr>) = Next r c'" by (rule read_fixed_Next)
  then have "r = drop (length u) xs" "read_u64_be (buffer c @ u) \<noteq> 0"
    "c' = c\<lparr>buffer := [], request_id := read_u64_be (buffer c @ u), status := ERROR_CODE\<rparr>"
    by (auto simp: Let_def set_error_def split: if_splits)
  with u REQUEST_ID show ?thesis
    by (intro exI [of _ u]) (auto simp: ctx_wf_def be64_read_u64_be)
next
  case SERVICE_NAME
  let ?k = "\<lambda>rest c. Next rest (c\<lparr>buffer := [], status := FUNC_LEN\<rparr>)"
  let ?l = "hd (buffer c)"
  have b: "buffer c = [?l]" and le: "length (service_name c) \<le> unat ?l" and rid: "request_id c \<noteq> 0"
    using wf SERVICE_NAME singleton_list [of "buffer c"] by (simp_all add: ctx_wf_def)
  have "read_var (unat ?l) (service_name c) (\<lambda>s c. c\<lparr>service_name := s\<rparr>) xs c ?k = Next r c'"
    using step SERVICE_NAME b by (cases "buffer c") (simp_all add: parse_step_def)
  from this le obtain u where u: "xs = u @ drop (length u) xs" "length (service_name c @ u) = unat ?l"
    "?k (drop (length u) xs) (if service_name c @ u = service_name c then c
       else c\<lparr>service_name := service_name c @ u\<rparr>) = Next r c'" by (rule read_var_Next)
  then have c': "r = drop (length u) xs"
    "c' = c\<lparr>service_name := service_name c @ u, buffer := [], status := FUNC_LEN\<rparr>"
    by (auto split: if_splits)
  have "counted (service_name c @ u) = ?l # service_name c @ u" using u(2) by (rule counted_done)
  with u c' b rid SERVICE_NAME show ?thesis
    by (intro exI [of _ u]) (auto simp: ctx_wf_def unat_byte_less)
next
  case FUNC_NAME
  let ?k = "\<lambda>rest c. Next rest (c\<lparr>buffer := [], status := PARAM_LEN\<rparr>)"
  let ?l = "hd (buffer c)"
  have b: "buffer c = [?l]" and le: "length (func_name c) \<le> unat ?l" and rid: "request_id c \<noteq> 0"
    and svc: "length (service_name c) < 256"
    using wf FUNC_NAME singleton_list [of "buffer c"] by (simp_all add: ctx_wf_def)
  have "read_var (unat ?l) (func_name c) (\<lambda>s c. c\<lparr>func_name := s\<rparr>) xs c ?k = Next r c'"
    using step FUNC_NAME b by (cases "buffer c") (simp_all add: parse_step_def)
  from this le obtain u where u: "xs = u @ drop (length u) xs" "length (func_name c @ u) = unat ?l"
    "?k (drop (length u) xs) (if func_name c @ u = func_name c then c
       else c\<lparr>func_name := func_name c @ u\<rparr>) = Next r c'" by (rule read_var_Next)
  then have c': "r = drop (length u) xs"
    "c' = c\<lparr>func_name := func_name c @ u, buffer := [], status := PARAM_LEN\<rparr>"
    by (auto split: if_splits)
  have "counted (func_name c @ u) = ?l # func_name c @ u" using u(2) by (rule counted_done)
  with u c' b rid svc FUNC_NAME show ?thesis
    by (intro exI [of _ u]) (auto simp: ctx_wf_def unat_byte_less)
next
  case PARAM_LEN
  let ?k = "\<lambda>rest c. Next rest (c\<lparr>params := [], status := PARAM_STRING\<rparr>)"
  have f: "read_fixed 4 xs c ?k = Next r c'" "length (buffer c) \<le> 4"
    using step wf PARAM_LEN by (simp_all add: parse_step_def ctx_wf_def)
  from f obtain u where u: "xs = u @ drop (length u) xs" "length (buffer c @ u) = 4"
    "?k (drop (length u) xs) (c\<lparr>buffer := buffer c @ u\<rparr>) = Next r c'" by (rule read_fixed_Next)
  then have "r = drop (length u) xs"
    "c' = c\<lparr>buffer := buffer c @ u, params := [], status := PARAM_STRING\<rparr>" by auto
  with u wf PARAM_LEN show ?thesis by (intro exI [of _ u]) (auto simp: ctx_wf_def)
next
  case PARAM_STRING
  let ?k = "\<lambda>rest c. Next rest (c\<lparr>buffer := [], status := EOB\<rparr>)"
  let ?n = "read_u32_be (buffer c)"
  have b: "length (buffer c) = 4" and le: "length (params c) \<le> unat ?n" and rid: "request_id c \<noteq> 0"
    and svc: "length (service_name c) < 256" "length (func_name c) < 256"
    using wf PARAM_STRING by (simp_all add: ctx_wf_def)
  have "read_var (unat ?n) (params c) (\<lambda>s c. c\<lparr>params := s\<rparr>) xs c ?k = Next r c'"
    using step PARAM_STRING b by (simp add: parse_step_def)
  from this le obtain u where u: "xs = u @ drop (length u) xs" "length (params c @ u) = unat ?n"
    "?k (drop (length u) xs) (if params c @ u = params c then c
       else c\<lparr>params := params c @ u\<rparr>) = Next r c'" by (rule read_var_Next)
  then have c': "r = drop (length u) xs"
    "c' = c\<lparr>params := params c @ u, buffer := [], status := EOB\<rparr>"
    by (auto split: if_splits)
  have "be32 (of_nat (length (params c @ u))) = buffer c"
    using u(2) be32_read_u32_be [OF b] by simp
  with u c' b rid svc PARAM_STRING show ?thesis
    by (intro exI [of _ u]) (auto simp: ctx_wf_def unat_u32_less)
qed (use assms in \<open>auto simp: parse_step_def ctx_wf_def frame_head_def counted_def set_waiting_def
       set_error_def reset_message_def split: list.splits if_splits\<close>)

text \<open>The fields of the frame a completed context stands for.\<close>

definition frame_of :: "RpcContext \<Rightarrow> byte list" where
  "frame_of m = request_frame (request_id m) (service_name m) (func_name m) (params m)"

definition frame_ok_of :: "RpcContext \<Rightarrow> bool" where
  "frame_ok_of m = frame_ok (request_id m) (service_name m) (func_name m) (params m)"

lemma parse_step_complete_seen:
  assumes "ctx_wf c" and "parse_step xs c = Done r c'" and "result c' = COMPLETE" and "result c = WAITING"
  shows "\<exists>u. xs = u @ r \<and> seen c @ u = frame_of c' \<and> frame_ok_of c'"
proof -
  from assms(2-4) have "status c = EOC" "xs = kMagic2 # r" "c' = c\<lparr>status := SOA, result := COMPLETE\<rparr>"
    by (auto simp: parse_step_def set_waiting_def set_error_context read_fixed_def read_var_def Let_def
        split: ParserStatus.splits list.splits if_splits prod.splits)
  with assms(1) show ?thesis
    by (intro exI [of _ "[kMagic2]"])
      (simp add: frame_of_def frame_ok_of_def frame_ok_def request_frame_def ctx_wf_def frame_head_def counted_def)
qed

lemma parse_loop_seen:
  assumes "ctx_wf c" and "status c \<noteq> SOA" and "result c = WAITING"
    and "parse_loop xs c = (r, m)" and "result m = COMPLETE"
  shows "\<exists>u. xs = u @ r \<and> seen c @ u = frame_of m \<and> frame_ok_of m"
  using assms
proof (induction xs c rule: parse_loop.induct)
  case (1 xs c)
  have ne: "xs \<noteq> []" using "1.prems"(4,5) by auto
  show ?case
  proof (cases "parse_step xs c")
    case (Next r1 c1)
    obtain u where u: "xs = u @ r1" "ctx_wf c1" "seen c @ u = seen c1"
      using parse_step_seen [OF "1.prems"(1,2) Next] by blast
    have c1: "result c1 = WAITING" "status c1 \<noteq> SOA"
      using parse_step_result [OF Next] "1.prems"(3) parse_step_rank [OF Next] by auto
    have "parse_loop r1 c1 = (r, m)" using "1.prems"(4) Next ne by (simp add: parse_loop_Next)
    with "1.IH" [OF ne Next u(2) c1(2,1)] "1.prems"(5)
    obtain v where v: "r1 = v @ r" "seen c1 @ v = frame_of m" "frame_ok_of m" by blast
    have "xs = (u @ v) @ r" "seen c @ (u @ v) = frame_of m" using u v by (simp_all flip: append_assoc)
    with v(3) show ?thesis by blast
  next
    case (Done r1 c1)
    with "1.prems" ne show ?thesis
      by (intro parse_step_complete_seen) (simp_all add: parse_loop_Done)
  qed
qed

lemma parse_loop_sound:
  assumes "parse_loop xs new_context = (r, m)" and "result m = COMPLETE"
  shows "\<exists>g. kMagic0 \<notin> set g \<and> xs = g @ frame_of m @ r \<and> frame_ok_of m"
proof -
  have ne: "xs \<noteq> []" using assms by auto
  have soa: "status new_context = SOA" by (simp add: new_context_def)
  obtain r1 c1 where s: "parse_step xs new_context = Next r1 c1"
    using assms ne parse_step_SOA(2) [OF soa] by (cases "parse_step xs new_context") (auto simp: parse_loop_Done)
  obtain g where g: "kMagic0 \<notin> set g" "xs = g @ kMagic0 # r1" "c1 = new_context\<lparr>status := SOB\<rparr>"
    using parse_step_SOA_Next [OF soa s] .
  have "parse_loop r1 c1 = (r, m)" using assms(1) s ne by (simp add: parse_loop_Next)
  moreover have "ctx_wf c1" "status c1 \<noteq> SOA" "result c1 = WAITING" "seen c1 = [kMagic0]"
    using g(3) by (simp_all add: ctx_wf_def new_context_def)
  ultimately obtain u where "r1 = u @ r" "[kMagic0] @ u = frame_of m" "frame_ok_of m"
    using parse_loop_seen [of c1 r1 r m] assms(2) by auto
  with g have "kMagic0 \<notin> set g \<and> xs = g @ frame_of m @ r \<and> frame_ok_of m"
    by (metis append_Cons append_Nil append_assoc)
  then show ?thesis by blast
qed

end
