(* ===== verification/Rpc_Server.thy ===== *)
theory Rpc_Server
  imports Rpc_Frames
begin

text \<open>
  The response builders, the handler registry and the dispatcher of
  \<^verbatim>\<open>src/app/rpc/RpcServer.cpp\<close>, the \<^verbatim>\<open>registerFunction\<close> overloads of
  \<^verbatim>\<open>RpcServer.h\<close> and the server program \<^verbatim>\<open>src/rpc_server.cpp\<close>.

  Protobuf parsing and serialisation and the user's functions are parameters: a parse or a
  serialisation may fail (\<open>None\<close>), a user function may raise. So are the outcomes of
  \<^verbatim>\<open>bind\<close>, \<^verbatim>\<open>listen\<close> and the Nacos calls.
\<close>

section \<open>Responses\<close>

definition append_magic_begin :: "byte list \<Rightarrow> byte list" where
  "append_magic_begin out = (out @ [kMagic0]) @ [kMagic1]"

definition append_magic_end :: "byte list \<Rightarrow> byte list" where
  "append_magic_end out = (out @ [kMagic1]) @ [kMagic2]"

definition buildErrorResponse :: "64 word \<Rightarrow> byte \<Rightarrow> byte list" where
  "buildErrorResponse rid error_code =
     (let res = append_magic_begin [];
          res = res @ [request_type_byte REQ_ERROR];
          res = append_u64_be res rid;
          res = res @ [error_code];
          res = append_u32_be res 0
      in append_magic_end res)"

definition buildResponse :: "byte list \<Rightarrow> 64 word \<Rightarrow> byte list" where
  "buildResponse body rid =
     (let res = append_magic_begin [];
          res = res @ [request_type_byte RESPONSE];
          res = append_u64_be res rid;
          res = res @ [0];
          res = append_u32_be res (of_nat (length body));
          res = res @ body
      in append_magic_end res)"

text \<open>The client's reading of a response: type, request id, error code and body.\<close>

definition decode_response :: "byte list \<Rightarrow> (byte \<times> 64 word \<times> byte \<times> byte list) option" where
  "decode_response xs =
     (if length xs < 18 \<or> take 2 xs \<noteq> [kMagic0, kMagic1] then None
      else let n = unat (read_u32_be (drop 12 xs)) in
        if drop (16 + n) xs = [kMagic1, kMagic2]
        then Some (xs ! 2, read_u64_be (drop 3 xs), xs ! 11, take n (drop 16 xs))
        else None)"

definition response_frame :: "byte \<Rightarrow> 64 word \<Rightarrow> byte \<Rightarrow> 32 word \<Rightarrow> byte list \<Rightarrow> byte list" where
  "response_frame t rid code n body =
     [kMagic0, kMagic1, t] @ be64 rid @ [code] @ be32 n @ body @ [kMagic1, kMagic2]"

lemma buildErrorResponse_frame:
  "buildErrorResponse rid code = response_frame (request_type_byte REQ_ERROR) rid code 0 []"
  by (simp add: buildErrorResponse_def response_frame_def append_magic_begin_def append_magic_end_def
      append_u64_be_eq [of "_ # _"] append_u32_be_eq [of "_ # _"] Let_def)

lemma buildResponse_frame:
  "buildResponse body rid = response_frame (request_type_byte RESPONSE) rid 0 (of_nat (length body)) body"
  by (simp add: buildResponse_def response_frame_def append_magic_begin_def append_magic_end_def
      append_u64_be_eq [of "_ # _"] append_u32_be_eq [of "_ # _"] Let_def)

lemma length_response_frame: "length (response_frame t rid code n body) = 18 + length body"
  by (simp add: response_frame_def)

lemma response_frame_drops:
  "drop 3 (response_frame t rid code n body) = be64 rid @ [code] @ be32 n @ body @ [kMagic1, kMagic2]"
  "drop 12 (response_frame t rid code n body) = be32 n @ body @ [kMagic1, kMagic2]"
  "drop 16 (response_frame t rid code n body) = body @ [kMagic1, kMagic2]"
  "response_frame t rid code n body ! 2 = t"
  "response_frame t rid code n body ! 11 = code"
  "take 2 (response_frame t rid code n body) = [kMagic0, kMagic1]"
  by (simp_all add: response_frame_def nth_append numeral_eq_Suc)

lemma decode_response_frame:
  "decode_response (response_frame t rid code n body) =
     (if unat n = length body then Some (t, rid, code, body)
      else if drop (unat n) (body @ [kMagic1, kMagic2]) = [kMagic1, kMagic2]
      then Some (t, rid, code, take (unat n) (body @ [kMagic1, kMagic2])) else None)"
proof -
  have d: "drop (16 + k) (response_frame t rid code n body) = drop k (body @ [kMagic1, kMagic2])" for k
    unfolding response_frame_drops(3) [of t rid code n body, symmetric] by (simp add: add.commute)
  show ?thesis
    by (simp add: decode_response_def d response_frame_drops length_response_frame
        read_u64_be_append read_u32_be_append Let_def)
qed

section \<open>Handlers\<close>

datatype rpc_exn = BadParamException | BadResponseException | OtherException

type_synonym rpc_handler = "byte list \<Rightarrow> rpc_exn + byte list"

text \<open>The four overloads of \<^verbatim>\<open>registerFunction\<close>: what the registered handler does.\<close>

definition handler_arg_ret ::
  "(byte list \<Rightarrow> 'a option) \<Rightarrow> ('r \<Rightarrow> byte list option) \<Rightarrow> ('a \<Rightarrow> rpc_exn + 'r) \<Rightarrow> rpc_handler" where
  "handler_arg_ret parse_arg serialize func buf =
     (case parse_arg buf of
        None \<Rightarrow> Inl BadParamException
      | Some req \<Rightarrow>
          (case func req of
             Inl e \<Rightarrow> Inl e
           | Inr ret \<Rightarrow> (case serialize ret of None \<Rightarrow> Inl BadResponseException | Some out \<Rightarrow> Inr out)))"

definition handler_ret :: "('r \<Rightarrow> byte list option) \<Rightarrow> (unit \<Rightarrow> rpc_exn + 'r) \<Rightarrow> rpc_handler" where
  "handler_ret serialize func buf =
     (case func () of
        Inl e \<Rightarrow> Inl e
      | Inr ret \<Rightarrow> (case serialize ret of None \<Rightarrow> Inl BadResponseException | Some out \<Rightarrow> Inr out))"

definition handler_arg :: "(byte list \<Rightarrow> 'a option) \<Rightarrow> ('a \<Rightarrow> rpc_exn + unit) \<Rightarrow> rpc_handler" where
  "handler_arg parse_arg func buf =
     (case parse_arg buf of
        None \<Rightarrow> Inl BadParamException
      | Some req \<Rightarrow> (case func req of Inl e \<Rightarrow> Inl e | Inr _ \<Rightarrow> Inr []))"

definition handler_none :: "(unit \<Rightarrow> rpc_exn + unit) \<Rightarrow> rpc_handler" where
  "handler_none func buf = (case func () of Inl e \<Rightarrow> Inl e | Inr _ \<Rightarrow> Inr [])"

section \<open>The server\<close>

record server =
  handlers :: "byte list \<times> byte list \<Rightarrow> rpc_handler option"
  services :: nat
  server_ip :: string
  server_port :: int
  naming_service :: bool
  use_nacos :: bool
  instances :: "(byte list \<times> string \<times> int) list"

definition new_server :: server where
  "new_server = \<lparr>handlers = (\<lambda>_. None), services = 0, server_ip = [], server_port = 0,
     naming_service = False, use_nacos = True, instances = []\<rparr>"

definition addHandler :: "byte list \<Rightarrow> byte list \<Rightarrow> rpc_handler \<Rightarrow> server \<Rightarrow> server" where
  "addHandler grp name h s = s\<lparr>handlers := (handlers s)((grp, name) \<mapsto> h)\<rparr>"

text \<open>
  \<^verbatim>\<open>dispatch\<close>: the bytes it writes to the client. \<open>None\<close> is the failed assertion on
  a waiting context.
\<close>

definition dispatch :: "server \<Rightarrow> RpcContext \<Rightarrow> byte list option" where
  "dispatch s c =
     (case result c of
        WAITING \<Rightarrow> None
      | ERROR \<Rightarrow> Some (buildErrorResponse (request_id c) (error_code_byte ERR_BAD_REQUEST))
      | COMPLETE \<Rightarrow>
          (case handlers s (service_name c, func_name c) of
             None \<Rightarrow> Some (buildErrorResponse (request_id c) (error_code_byte ERR_UNKNOWN_FUNCTION))
           | Some h \<Rightarrow>
               (case h (params c) of
                  Inr res \<Rightarrow> Some (buildResponse res (request_id c))
                | Inl BadParamException \<Rightarrow>
                    Some (buildErrorResponse (request_id c) (error_code_byte ERR_UNKNOWN_PARAM))
                | Inl BadResponseException \<Rightarrow>
                    Some (buildErrorResponse (request_id c) (error_code_byte ERR_UNKNOWN_RESPONSE))
                | Inl OtherException \<Rightarrow>
                    Some (buildErrorResponse (request_id c) (error_code_byte ERR_BAD_INTERNAL)))))"

text \<open>
  \<^verbatim>\<open>bindAndListen\<close>: the naming service exists only when Nacos could be reached; an
  exception from Nacos switches discovery off.
\<close>

definition bindAndListen ::
  "string \<Rightarrow> int \<Rightarrow> bool \<Rightarrow> bool \<Rightarrow> bool \<Rightarrow> server \<Rightarrow> bool \<times> server" where
  "bindAndListen ip port bind_ok listen_ok nacos_ok s =
     (if bind_ok \<and> listen_ok then
        let s = s\<lparr>server_ip := ip, server_port := port\<rparr> in
        (True, if nacos_ok then s\<lparr>naming_service := True\<rparr> else s\<lparr>use_nacos := False\<rparr>)
      else (False, s))"

text \<open>
  \<^verbatim>\<open>registerDiscovery\<close>: \<open>None\<close> is the call through the null
  \<^verbatim>\<open>namingService_\<close>; a Nacos exception is logged and dropped.
\<close>

definition registerDiscovery :: "byte list \<Rightarrow> bool \<Rightarrow> server \<Rightarrow> server option" where
  "registerDiscovery name nacos_ok s =
     (if \<not> use_nacos s then Some s
      else if \<not> naming_service s then None
      else if nacos_ok then Some (s\<lparr>instances := instances s @ [(name, server_ip s, server_port s)]\<rparr>)
      else Some s)"

text \<open>\<^verbatim>\<open>registerService\<close>: the service's set-up, then the server keeps it.\<close>

definition registerService :: "(server \<Rightarrow> server option) \<Rightarrow> server \<Rightarrow> server option" where
  "registerService setup s =
     (case setup s of None \<Rightarrow> None | Some s \<Rightarrow> Some (s\<lparr>services := services s + 1\<rparr>))"

section \<open>The example server\<close>

definition ascii :: "string \<Rightarrow> byte list" where
  "ascii s = map (\<lambda>c. of_nat (of_char c)) s"

definition hello :: "string \<Rightarrow> rpc_exn + string" where
  "hello msg = Inr (if msg = ''hello'' then ''world'' else msg)"

definition hello_setup ::
  "(byte list \<Rightarrow> string option) \<Rightarrow> (string \<Rightarrow> byte list option) \<Rightarrow> bool \<Rightarrow> server \<Rightarrow> server option" where
  "hello_setup parse_arg serialize nacos_ok s =
     (case registerDiscovery (ascii ''HelloService'') nacos_ok s of
        None \<Rightarrow> None
      | Some s \<Rightarrow> Some (addHandler (ascii ''HelloService'') (ascii ''hello'')
                         (handler_arg_ret parse_arg serialize hello) s))"

text \<open>\<^verbatim>\<open>main\<close> up to \<^verbatim>\<open>server.run\<close>: a failed bind is reported and ignored.\<close>

definition rpc_server_main ::
  "(byte list \<Rightarrow> string option) \<Rightarrow> (string \<Rightarrow> byte list option) \<Rightarrow> bool \<Rightarrow> bool \<Rightarrow> bool \<Rightarrow> server option" where
  "rpc_server_main parse_arg serialize bind_ok listen_ok nacos_ok =
     (case bindAndListen ''127.0.0.1'' 8891 bind_ok listen_ok nacos_ok new_server of
        (_, s) \<Rightarrow> registerService (hello_setup parse_arg serialize nacos_ok) s)"

section \<open>Request streams\<close>

lemma parse_loop_frame_new:
  "frame_ok rid svc fn ps \<Longrightarrow>
   parse_loop (request_frame rid svc fn ps @ xs) (c\<lparr>result := WAITING\<rparr>) = (xs, message rid svc fn ps)"
  if "status c = SOA" for c
  using parse_loop_frame [of rid svc fn ps "c\<lparr>result := WAITING\<rparr>" "[]" xs] that by simp

lemma feed_frame:
  "frame_ok rid svc fn ps \<Longrightarrow>
   feed (request_frame rid svc fn ps @ xs) new_context =
     (case feed xs new_context of (out, c) \<Rightarrow> (message rid svc fn ps # out, c))"
  using parse_loop_frame_new [of new_context rid svc fn ps xs]
  by (subst feed.simps) (simp add: request_frame_def message_def new_context_def)

type_synonym request = "64 word \<times> byte list \<times> byte list \<times> byte list"

definition frames :: "request list \<Rightarrow> byte list" where
  "frames qs = concat (map (\<lambda>(rid, svc, fn, ps). request_frame rid svc fn ps) qs)"

lemma feed_frames:
  "\<forall>(rid, svc, fn, ps) \<in> set qs. frame_ok rid svc fn ps \<Longrightarrow>
   feed (frames qs) new_context = (map (\<lambda>(rid, svc, fn, ps). message rid svc fn ps) qs, new_context)"
proof (induction qs)
  case Nil
  then show ?case by (simp add: frames_def)
next
  case (Cons q qs)
  obtain rid svc fn ps where q: "q = (rid, svc, fn, ps)" by (cases q) auto
  have "feed (request_frame rid svc fn ps @ frames qs) new_context =
      (case feed (frames qs) new_context of (out, c) \<Rightarrow> (message rid svc fn ps # out, c))"
    using Cons.prems q by (intro feed_frame) simp
  with Cons q show ?case by (simp add: frames_def)
qed

end
