(* ===== verification/Rpc_Properties.thy ===== *)
theory Rpc_Properties
  imports Rpc_Server
begin

text \<open>
  What the RPC server promises its clients: the messages of a connection do not depend on how
  the stream is cut into reads, valid requests are parsed with their fields and answered with
  their ids, whatever is accepted was a well-formed frame, and every answer can be decoded.
\<close>

section \<open>From reads to messages\<close>

text \<open>The read callback on the successive reads of a connection: buffer and size of each.\<close>

fun run_reads :: "(byte list \<times> nat) list \<Rightarrow> RpcContext \<Rightarrow> RpcContext list \<times> RpcContext" where
  "run_reads [] c = ([], c)"
| "run_reads ((buf, sz) # reads) c =
     (case on_read buf sz c of
        (_, CloseClient, c) \<Rightarrow> ([], c)
      | (_, Dispatch out, c) \<Rightarrow> (case run_reads reads c of (out', c) \<Rightarrow> (out @ out', c)))"

lemma run_reads_feed:
  "\<forall>(buf, sz) \<in> set reads. 0 < sz \<and> sz \<le> length buf \<Longrightarrow>
   run_reads reads c = feed (concat (map (\<lambda>(buf, sz). take sz buf) reads)) c"
proof (induction reads arbitrary: c)
  case Nil
  then show ?case by simp
next
  case (Cons r reads)
  obtain buf sz where r: "r = (buf, sz)" by (cases r)
  with Cons.prems have "on_read buf sz c =
      (sz, Dispatch (fst (feed (take sz buf) c)), snd (feed (take sz buf) c))"
    by (intro on_read_feed) simp_all
  with Cons r show ?case by (simp add: feed_append split: prod.splits)
qed

lemma run_reads_messages:
  "\<forall>(buf, sz) \<in> set reads. 0 < sz \<and> sz \<le> length buf \<Longrightarrow> m \<in> set (fst (run_reads reads c)) \<Longrightarrow>
   result m = COMPLETE \<or> m = error_context"
  using feed_results by (simp add: run_reads_feed)

declare run_reads.simps [simp del]

text \<open>C14: the messages of a connection, and the parser state kept between reads, depend only on
  the bytes received, not on how the network cuts them into reads: two sequences of non-empty
  reads with the same bytes give the same messages in the same order and the same state.\<close>

theorem reads_chunking:
  assumes "\<forall>(buf, sz) \<in> set reads. 0 < sz \<and> sz \<le> length buf"
    and "\<forall>(buf, sz) \<in> set reads'. 0 < sz \<and> sz \<le> length buf"
    and "concat (map (\<lambda>(buf, sz). take sz buf) reads) = concat (map (\<lambda>(buf, sz). take sz buf) reads')"
  shows "run_reads reads c = run_reads reads' c"
  using assms by (simp add: run_reads_feed)

theorem reads_chunking_witness:
  "run_reads [([0x0a, 0x0b, 9], 2), ([1, 2], 1)] new_context =
   run_reads [([0x0a], 1), ([0x0b, 1, 7, 7], 2)] new_context"
  by (rule reads_chunking) simp_all

text \<open>Valid requests are understood. When a client sends any sequence of requests with
  non-zero ids, names of less than 256 bytes and parameters of less than four gigabytes, cut
  into reads in any way, the server hands exactly these requests to its workers, in their order
  and with their fields, and is ready for the next one.\<close>

theorem requests_parsed:
  assumes "\<forall>(buf, sz) \<in> set reads. 0 < sz \<and> sz \<le> length buf"
    and "concat (map (\<lambda>(buf, sz). take sz buf) reads) = frames qs"
    and "\<forall>(rid, svc, fn, ps) \<in> set qs. frame_ok rid svc fn ps"
  shows "run_reads reads new_context =
    (map (\<lambda>(rid, svc, fn, ps). message rid svc fn ps) qs, new_context)"
  using run_reads_feed [OF assms(1)] feed_frames [OF assms(3)] assms(2) by simp

theorem requests_parsed_witness:
  "run_reads [(frames [(7, [1], [2], []), (8, [], [], [3])], 20), (drop 20 (frames [(7, [1], [2], []), (8, [], [], [3])]), 23)]
     new_context =
   (map (\<lambda>(rid, svc, fn, ps). message rid svc fn ps) [(7, [1], [2], []), (8, [], [], [3])], new_context)"
proof (rule requests_parsed)
  let ?f = "frames [(7, [1], [2], []), (8, [], [], [3])]"
  have len: "length ?f = 43" by (simp add: frames_def request_frame_def)
  show "\<forall>(buf, sz) \<in> set [(?f, 20), (drop 20 ?f, 23)]. 0 < sz \<and> sz \<le> length buf"
    using len by simp
  show "concat (map (\<lambda>(buf, sz). take sz buf) [(?f, 20), (drop 20 ?f, 23)]) = ?f"
    using len by simp
qed (simp add: frame_ok_def)

text \<open>C7: whatever the server accepts was a well-formed frame. If a parse from the start state
  completes, the bytes it consumed are bytes without a start marker followed by exactly the frame
  of the fields it delivers; the id is not zero and the lengths fit their fields.\<close>

theorem rpc_parse_complete:
  assumes "rpc_parse buf start stop new_context = (parsed, m)" and "result m = COMPLETE"
    and "stop \<le> length buf"
  shows "\<exists>g. kMagic0 \<notin> set g \<and> take parsed (drop start buf) = g @ frame_of m \<and> frame_ok_of m
    \<and> start + parsed \<le> stop"
proof -
  have lt: "start < stop" using assms(1,2) by (auto simp: rpc_parse_def split: if_splits)
  let ?w = "take (stop - start) (drop start buf)"
  have len: "length ?w = stop - start" using assms(3) by simp
  have "new_context\<lparr>result := WAITING\<rparr> = new_context" by (simp add: new_context_def)
  then obtain r where r: "parse_loop ?w new_context = (r, m)" "parsed = stop - start - length r"
    using assms(1) lt by (auto simp: rpc_parse_def split: prod.splits)
  from parse_loop_sound [OF r(1) assms(2)] obtain g
    where g: "kMagic0 \<notin> set g" "?w = g @ frame_of m @ r" "frame_ok_of m" by blast
  have pl: "parsed = length (g @ frame_of m)"
    using arg_cong [OF g(2), of length] len r(2) by simp
  have "take parsed ?w = g @ frame_of m" unfolding g(2) pl by simp
  moreover have "take parsed ?w = take parsed (drop start buf)" using r(2) by (simp add: min_def)
  ultimately show ?thesis using g r(2) lt by auto
qed

theorem rpc_parse_complete_witness:
  "\<exists>g. kMagic0 \<notin> set g \<and>
     take 24 (drop 1 ([9] @ [5, 6] @ request_frame 3 [1] [2] [])) = g @ frame_of (message 3 [1] [2] []) \<and>
     frame_ok_of (message 3 [1] [2] []) \<and> 1 + 24 \<le> (25 :: nat)"
proof (rule rpc_parse_complete)
  have "new_context\<lparr>result := WAITING\<rparr> = new_context" by (simp add: new_context_def)
  moreover have "take 24 (drop 1 ([9] @ [5, 6] @ request_frame 3 [1] [2] [])) = [5, 6] @ request_frame 3 [1] [2] [] @ []"
    by (simp add: request_frame_def)
  moreover have "parse_loop ([5, 6] @ request_frame 3 [1] [2] [] @ []) new_context = ([], message 3 [1] [2] [])"
    by (rule parse_loop_frame) (simp_all add: frame_ok_def new_context_def kMagic0_def)
  ultimately show "rpc_parse ([9] @ [5, 6] @ request_frame 3 [1] [2] []) 1 25 new_context = (24, message 3 [1] [2] [])"
    by (simp add: rpc_parse_def)
qed (simp_all add: message_def request_frame_def)

text \<open>Every message a connection hands to a worker is either a complete request or an error
  message that is answered by a bad-request response with the id 0: an answer to a malformed
  frame never carries the id of the request it answers, and no worker hits the assertion against
  waiting messages.\<close>

theorem dispatched_contexts:
  assumes "\<forall>(buf, sz) \<in> set reads. 0 < sz \<and> sz \<le> length buf"
    and "m \<in> set (fst (run_reads reads c))"
  shows "result m = COMPLETE \<or>
    result m = ERROR \<and> dispatch s m = Some (buildErrorResponse 0 (error_code_byte ERR_BAD_REQUEST))"
  using run_reads_messages [OF assms] by (auto simp: dispatch_def)

theorem dispatched_contexts_witness:
  "result error_context = COMPLETE \<or> result error_context = ERROR \<and>
    dispatch new_server error_context = Some (buildErrorResponse 0 (error_code_byte ERR_BAD_REQUEST))"
proof (rule dispatched_contexts [where reads = "[([0x0a, 9], 2)]" and c = new_context])
  have "new_context\<lparr>result := WAITING\<rparr> = new_context" by (simp add: new_context_def)
  moreover have "parse_loop [0x0a, 9] new_context = ([9], error_context)"
    by (simp add: parse_loop.simps parse_step_def new_context_def kMagic0_def kMagic1_def set_error_def
        error_context_def reset_message_def)
  moreover have "parse_loop [9] new_context = ([], new_context)"
    by (simp add: parse_loop.simps parse_step_def new_context_def kMagic0_def set_waiting_def)
  ultimately show "error_context \<in> set (fst (run_reads [([0x0a, 9], 2)] new_context))"
    by (subst run_reads_feed) (simp_all add: feed.simps [of "_ # _"] new_context_def)
qed simp

section \<open>From messages to answers\<close>

text \<open>The answer the protocol prescribes: kind, id, error code and body.\<close>

definition answer :: "server \<Rightarrow> RpcContext \<Rightarrow> byte \<times> 64 word \<times> byte \<times> byte list" where
  "answer s c =
     (if result c = ERROR then (request_type_byte REQ_ERROR, 0, error_code_byte ERR_BAD_REQUEST, [])
      else case handlers s (service_name c, func_name c) of
             None \<Rightarrow> (request_type_byte REQ_ERROR, request_id c, error_code_byte ERR_UNKNOWN_FUNCTION, [])
           | Some h \<Rightarrow>
               (case h (params c) of
                  Inr body \<Rightarrow> (request_type_byte RESPONSE, request_id c, 0, body)
                | Inl e \<Rightarrow> (request_type_byte REQ_ERROR, request_id c,
                    (case e of BadParamException \<Rightarrow> error_code_byte ERR_UNKNOWN_PARAM
                     | BadResponseException \<Rightarrow> error_code_byte ERR_UNKNOWN_RESPONSE
                     | OtherException \<Rightarrow> error_code_byte ERR_BAD_INTERNAL), [])))"

lemma decode_buildErrorResponse: "decode_response (buildErrorResponse rid code) =
    Some (request_type_byte REQ_ERROR, rid, code, [])"
  by (simp add: buildErrorResponse_frame decode_response_frame)

lemma decode_buildResponse: "length body < 2 ^ 32 \<Longrightarrow>
   decode_response (buildResponse body rid) = Some (request_type_byte RESPONSE, rid, 0, body)"
  by (simp add: buildResponse_frame decode_response_frame unat_of_nat_u32)

lemma dispatch_decodes:
  assumes "result m = COMPLETE \<or> m = error_context"
    and "\<And>k h ps body. handlers s k = Some h \<Longrightarrow> h ps = Inr body \<Longrightarrow> length body < 2 ^ 32"
  shows "\<exists>resp. dispatch s m = Some resp \<and> decode_response resp = Some (answer s m)"
  using assms
  by (auto simp: dispatch_def answer_def decode_buildErrorResponse decode_buildResponse
      split: option.splits sum.splits rpc_exn.splits)

text \<open>C13: every message of a connection is answered, on every branch of the dispatcher, and the
  client can decode the answer: it carries the id of the request, the body of the handler, or
  the error code of the failure (unknown function, bad parameters, bad response, other), as long
  as no handler returns four gigabytes.\<close>

theorem dispatch_answers:
  assumes "\<forall>(buf, sz) \<in> set reads. 0 < sz \<and> sz \<le> length buf"
    and "m \<in> set (fst (run_reads reads c))"
    and "\<And>k h ps body. handlers s k = Some h \<Longrightarrow> h ps = Inr body \<Longrightarrow> length body < 2 ^ 32"
  shows "\<exists>resp. dispatch s m = Some resp \<and> decode_response resp = Some (answer s m)"
  using run_reads_messages [OF assms(1,2)] assms(3) by (rule dispatch_decodes)

theorem dispatch_answers_witness:
  "\<exists>resp. dispatch (addHandler [1] [2] (\<lambda>ps. Inr (rev ps)) new_server\<lparr>handlers := Map.empty\<rparr>) (message 3 [1] [2] []) = Some resp \<and>
    decode_response resp = Some (answer (addHandler [1] [2] (\<lambda>ps. Inr (rev ps)) new_server\<lparr>handlers := Map.empty\<rparr>) (message 3 [1] [2] []))"
proof (rule dispatch_answers [where reads = "[(request_frame 3 [1] [2] [], 22)]" and c = new_context])
  have "length (request_frame 3 [1] [2] []) = 22" by (simp add: request_frame_def)
  then show "\<forall>(buf, sz) \<in> set [(request_frame 3 [1] [2] [], 22 :: nat)]. 0 < sz \<and> sz \<le> length buf"
    and "message 3 [1] [2] [] \<in> set (fst (run_reads [(request_frame 3 [1] [2] [], 22)] new_context))"
    using feed_frame [of 3 "[1]" "[2]" "[]" "[]"]
    by (simp_all add: run_reads_feed frame_ok_def)
qed (simp add: addHandler_def)

text \<open>C24: the example server answers \<^verbatim>\<open>world\<close> to the greeting, from the client's bytes to the
  decoded answer: started with a successful bind, given any request id but zero and any
  serialisation that parses back, the only answer to the request frame is a response with the
  request's id and the serialised greeting.\<close>

theorem hello_end_to_end:
  assumes "rid \<noteq> 0" and "parse_arg ps = Some ''hello''" and "serialize ''world'' = Some out"
    and "length ps < 2 ^ 32" and "length out < 2 ^ 32"
  shows "\<exists>s resp. rpc_server_main parse_arg serialize True True nacos_ok = Some s \<and>
    map (dispatch s) (fst (run_reads
      [(request_frame rid (ascii ''HelloService'') (ascii ''hello'') ps,
        length (request_frame rid (ascii ''HelloService'') (ascii ''hello'') ps))] new_context)) = [Some resp] \<and>
    decode_response resp = Some (request_type_byte RESPONSE, rid, 0, out)"
proof -
  let ?svc = "ascii ''HelloService''" and ?fn = "ascii ''hello''"
  obtain s where s: "rpc_server_main parse_arg serialize True True nacos_ok = Some s"
    "handlers s (?svc, ?fn) = Some (handler_arg_ret parse_arg serialize hello)"
    by (cases nacos_ok) (simp_all add: rpc_server_main_def bindAndListen_def registerService_def hello_setup_def
        registerDiscovery_def addHandler_def new_server_def)
  have ok: "frame_ok rid ?svc ?fn ps" using assms by (simp add: frame_ok_def ascii_def)
  have "request_frame rid ?svc ?fn ps \<noteq> []" by (simp add: request_frame_def)
  then have "run_reads [(request_frame rid ?svc ?fn ps, length (request_frame rid ?svc ?fn ps))] new_context =
      ([message rid ?svc ?fn ps], new_context)"
    using feed_frame [OF ok, of "[]"] by (simp add: run_reads_feed)
  moreover have "dispatch s (message rid ?svc ?fn ps) = Some (buildResponse out rid)"
    using s(2) assms(2,3) by (simp add: dispatch_def message_def handler_arg_ret_def hello_def)
  ultimately show ?thesis using s(1) decode_buildResponse [OF assms(5)] by fastforce
qed

theorem hello_end_to_end_witness:
  "\<exists>s resp. rpc_server_main (\<lambda>_. Some ''hello'') (\<lambda>m. Some (ascii m)) True True True = Some s \<and>
    map (dispatch s) (fst (run_reads
      [(request_frame 9 (ascii ''HelloService'') (ascii ''hello'') [1],
        length (request_frame 9 (ascii ''HelloService'') (ascii ''hello'') [1]))] new_context)) = [Some resp] \<and>
    decode_response resp = Some (request_type_byte RESPONSE, 9, 0, ascii ''world'')"
  by (rule hello_end_to_end) (simp_all add: ascii_def)

text \<open>A failed bind is not survived: \<^verbatim>\<open>main\<close> only prints a message and goes on to register
  the service, and the registration calls the naming service that was never created.\<close>

theorem rpc_server_main_bind_failure:
  "rpc_server_main parse_arg serialize bind_ok listen_ok nacos_ok = None \<longleftrightarrow> \<not> (bind_ok \<and> listen_ok)"
  by (cases nacos_ok) (simp_all add: rpc_server_main_def bindAndListen_def registerService_def hello_setup_def
      registerDiscovery_def new_server_def Let_def)

end
