(* ===== verification/Event_Loop.thy ===== *)
theory Event_Loop
  imports Queues
begin

text \<open>
  One event loop thread of \<^verbatim>\<open>src/net/context/EpollContext.cpp\<close> and the receive buffer of
  \<^verbatim>\<open>EpollContext.h\<close>: the state of its connections, the interest set it keeps in epoll,
  and every handler that runs on the thread.

  A callback of the application is a function on the application's state \<open>'a\<close>; an empty
  \<^verbatim>\<open>std::function\<close> is \<open>None\<close>. The answers of the system calls come from a
  record of functions, so that the theorems hold for every behaviour of the kernel that its
  stated contract allows. Shared pointers to a socket are the socket's descriptor.
\<close>

section \<open>The receive buffer\<close>

record simple_buffer =
  bytes :: "byte list"
  data_size :: nat

definition sb_resize :: "nat \<Rightarrow> simple_buffer \<Rightarrow> simple_buffer" where
  "sb_resize n b = b\<lparr>bytes := take n (bytes b) @ replicate (n - length (bytes b)) 0\<rparr>"

definition sb_size :: "simple_buffer \<Rightarrow> nat" where
  "sb_size b = length (bytes b)"

definition sb_clear :: "simple_buffer \<Rightarrow> simple_buffer" where
  "sb_clear b = b\<lparr>data_size := 0, bytes := replicate (length (bytes b)) 0\<rparr>"

definition sb_read :: "nat \<Rightarrow> simple_buffer \<Rightarrow> simple_buffer" where
  "sb_read n b =
     (if n \<ge> data_size b then sb_clear b
      else let left = data_size b - n in
        b\<lparr>bytes := take left (drop n (bytes b)) @ replicate (length (bytes b) - left) 0,
          data_size := left\<rparr>)"

text \<open>What \<^verbatim>\<open>socket->read(buf + data_size, ...)\<close> does to the bytes.\<close>

definition sb_fill :: "byte list \<Rightarrow> simple_buffer \<Rightarrow> simple_buffer" where
  "sb_fill xs b =
     b\<lparr>bytes := take (data_size b) (bytes b) @ xs @ drop (data_size b + length xs) (bytes b)\<rparr>"

section \<open>Connections\<close>

type_synonym 'a write_cb = "bool \<Rightarrow> 'a \<Rightarrow> 'a"
type_synonym 'a batch_cb = "bool \<Rightarrow> int \<Rightarrow> 'a \<Rightarrow> 'a"
type_synonym 'a socket_cb = "fd \<Rightarrow> 'a \<Rightarrow> 'a"
type_synonym 'a accept_fun = "fd option \<Rightarrow> 'a \<Rightarrow> 'a"
type_synonym 'a read_fun = "byte list \<Rightarrow> nat \<Rightarrow> 'a \<Rightarrow> nat \<times> 'a"

record 'a write_meta =
  wbuffer :: "byte list"
  offset :: nat
  callback :: "'a write_cb option"

record 'a connection =
  socket :: fd
  read_cb :: "'a read_fun option"
  read_buffer :: simple_buffer
  write_queue :: "'a write_meta list"
  queued_bytes :: int
  high_level_callback :: "'a socket_cb option"
  low_level_callback :: "'a socket_cb option"
  closing_callback :: "'a socket_cb option"
  high_level_callback_set :: bool
  read_registered :: bool
  write_registered :: bool
  peer_closed :: bool

definition buffer_size :: nat where "buffer_size = 4096"
definition high_level_size :: int where "high_level_size = 1024 * 512"
definition low_level_size :: int where "low_level_size = 1024 * 8"
definition iov_max :: nat where "iov_max = 1024"

definition new_connection :: "fd \<Rightarrow> 'a read_fun option \<Rightarrow> 'a connection" where
  "new_connection s cb =
     \<lparr>socket = s, read_cb = cb, read_buffer = sb_resize buffer_size \<lparr>bytes = [], data_size = 0\<rparr>,
      write_queue = [], queued_bytes = 0, high_level_callback = None, low_level_callback = None,
      closing_callback = None, high_level_callback_set = False, read_registered = False,
      write_registered = False, peer_closed = False\<rparr>"

text \<open>\<^verbatim>\<open>int\<close> arithmetic: 32-bit two's complement.\<close>

definition to_int32 :: "int \<Rightarrow> int" where
  "to_int32 i = (i + 2 ^ 31) mod 2 ^ 32 - 2 ^ 31"

lemma to_int32_id: "- (2 ^ 31) \<le> i \<Longrightarrow> i < 2 ^ 31 \<Longrightarrow> to_int32 i = i"
  by (simp add: to_int32_def)

section \<open>The loop\<close>

text \<open>The events a descriptor is watched for: readable, writable.\<close>

type_synonym interest = "bool \<times> bool"

datatype 'a task =
    RegisterAccept fd "'a accept_fun option"
  | RegisterRead fd "'a read_fun option"
  | WriteOnce fd "'a write_cb option" "byte list"
  | WriteBatch fd "'a batch_cb" "byte list list"
  | CloseSocket fd
  | RegisterHigh fd "'a socket_cb option"
  | RegisterLow fd "'a socket_cb option"
  | RegisterClose fd "'a socket_cb option"
  | UserTask "'a \<Rightarrow> 'a"

record 'a loop =
  connections :: "fd \<Rightarrow> 'a connection option"
  accept_set :: "fd \<Rightarrow> 'a accept_fun option option"
  timer_fds :: "fd \<Rightarrow> ('a \<Rightarrow> 'a) option option"
  epoll :: "fd \<Rightarrow> interest option"
  wire :: "fd \<Rightarrow> byte list"
  task_queue :: "'a task mp_queue"
  awake :: bool
  wakeups :: nat
  app :: 'a

text \<open>\<^verbatim>\<open>epoll_ctl\<close>: adding a watched descriptor, modifying or deleting an unwatched one fail
  and change nothing; the callers do not look at the result.\<close>

definition epoll_add :: "fd \<Rightarrow> interest \<Rightarrow> 'a loop \<Rightarrow> 'a loop" where
  "epoll_add k ev l = (if epoll l k = None then l\<lparr>epoll := (epoll l)(k \<mapsto> ev)\<rparr> else l)"

definition modifyEpollEvents :: "fd \<Rightarrow> interest \<Rightarrow> 'a loop \<Rightarrow> 'a loop" where
  "modifyEpollEvents k ev l = (if epoll l k = None then l else l\<lparr>epoll := (epoll l)(k \<mapsto> ev)\<rparr>)"

definition epoll_del :: "fd \<Rightarrow> 'a loop \<Rightarrow> 'a loop" where
  "epoll_del k l = l\<lparr>epoll := (epoll l)(k := None)\<rparr>"

definition call :: "('a \<Rightarrow> 'a) \<Rightarrow> 'a loop \<Rightarrow> 'a loop" where
  "call f l = l\<lparr>app := f (app l)\<rparr>"

definition put_conn :: "fd \<Rightarrow> 'a connection \<Rightarrow> 'a loop \<Rightarrow> 'a loop" where
  "put_conn k c l = l\<lparr>connections := (connections l)(k \<mapsto> c)\<rparr>"

definition call_opt :: "('b \<Rightarrow> 'a \<Rightarrow> 'a) option \<Rightarrow> 'b \<Rightarrow> 'a \<Rightarrow> 'a" where
  "call_opt cb x = (case cb of None \<Rightarrow> (\<lambda>a. a) | Some f \<Rightarrow> f x)"

section \<open>Closing\<close>

text \<open>Every pending write is completed with \<^verbatim>\<open>false\<close>, from the front.\<close>

fun fail_writes :: "'a write_meta list \<Rightarrow> 'a \<Rightarrow> 'a" where
  "fail_writes [] a = a"
| "fail_writes (m # ms) a = fail_writes ms (call_opt (callback m) False a)"

definition failAllPendingWrites :: "'a connection \<Rightarrow> 'a \<Rightarrow> 'a connection \<times> 'a" where
  "failAllPendingWrites c a =
     (if write_queue c \<noteq> [] then
        (c\<lparr>write_queue := [], queued_bytes := 0\<rparr>, fail_writes (write_queue c) a)
      else (c, a))"

definition closeConnection :: "fd \<Rightarrow> 'a loop \<Rightarrow> 'a loop" where
  "closeConnection k l =
     (let l = epoll_del k l in
      if accept_set l k \<noteq> None then l\<lparr>accept_set := (accept_set l)(k := None)\<rparr>
      else case connections l k of
             None \<Rightarrow> l
           | Some c \<Rightarrow>
               let l = call (call_opt (closing_callback c) (socket c)) l;
                   l = l\<lparr>connections := (connections l)(k := None)\<rparr>;
                   (c, a) = failAllPendingWrites c (app l)
               in l\<lparr>app := a\<rparr>)"

section \<open>Reading\<close>

datatype read_result = ReadData "byte list" | ReadEof | ReadAgain | ReadFail
datatype write_result = Wrote nat | WriteAgain | WriteFail

record kernel =
  k_read :: "nat \<Rightarrow> read_result"
  k_writev :: "byte list list \<Rightarrow> write_result"
  k_accept :: "fd option"

text \<open>The documented behaviour of \<^verbatim>\<open>read\<close> and \<^verbatim>\<open>writev\<close>: never more
  bytes than asked for, and a positive count is never zero.\<close>

definition kernel_ok :: "kernel \<Rightarrow> bool" where
  "kernel_ok kn \<longleftrightarrow>
     (\<forall>n xs. k_read kn n = ReadData xs \<longrightarrow> xs \<noteq> [] \<and> length xs \<le> n) \<and>
     (\<forall>iovs n. k_writev kn iovs = Wrote n \<longrightarrow> 0 < n \<and> n \<le> length (concat iovs))"

definition handleAccept :: "kernel \<Rightarrow> 'a accept_fun option \<Rightarrow> 'a loop \<Rightarrow> 'a loop" where
  "handleAccept kn cb l = call (call_opt cb (k_accept kn)) l"

definition handleTimer :: "fd \<Rightarrow> ('a \<Rightarrow> 'a) option \<Rightarrow> 'a loop \<Rightarrow> 'a loop" where
  "handleTimer k cb l =
     (let l = (case cb of None \<Rightarrow> l | Some f \<Rightarrow> call f l);
          l = epoll_del k l
      in l\<lparr>timer_fds := (timer_fds l)(k := None)\<rparr>)"

definition handleRead :: "kernel \<Rightarrow> fd \<Rightarrow> 'a loop \<Rightarrow> 'a loop" where
  "handleRead kn k l =
     (case accept_set l k of
        Some cb \<Rightarrow> handleAccept kn cb l
      | None \<Rightarrow>
     (case timer_fds l k of
        Some cb \<Rightarrow> handleTimer k cb l
      | None \<Rightarrow>
     (case connections l k of
        None \<Rightarrow> l
      | Some c \<Rightarrow>
          (let b = read_buffer c in
           case k_read kn (sb_size b - data_size b) of
             ReadData xs \<Rightarrow>
               let b = sb_fill xs b in
               (case read_cb c of
                  None \<Rightarrow> put_conn k (c\<lparr>read_buffer := sb_clear b\<rparr>) l
                | Some cb \<Rightarrow>
                    let b = b\<lparr>data_size := data_size b + length xs\<rparr>;
                        (consumed, a) = cb (bytes b) (data_size b) (app l);
                        consumed = (if consumed > data_size b then data_size b else consumed)
                    in put_conn k (c\<lparr>read_buffer := sb_read consumed b\<rparr>) (l\<lparr>app := a\<rparr>))
           | ReadEof \<Rightarrow>
               let c = c\<lparr>peer_closed := True, read_registered := False\<rparr>;
                   (c, l) =
                     (if write_queue c \<noteq> []
                      then (c\<lparr>write_registered := True\<rparr>, modifyEpollEvents k (False, True) l)
                      else (c\<lparr>write_registered := False\<rparr>, epoll_del k l));
                   l = put_conn k c l
               in (case read_cb c of
                     None \<Rightarrow> l
                   | Some cb \<Rightarrow> l\<lparr>app := snd (cb (bytes (read_buffer c)) 0 (app l))\<rparr>)
           | ReadAgain \<Rightarrow> l
           | ReadFail \<Rightarrow> closeConnection k l))))"

section \<open>Writing\<close>

definition unsent :: "'a write_meta \<Rightarrow> byte list" where
  "unsent m = drop (offset m) (wbuffer m)"

text \<open>The vectors handed to \<^verbatim>\<open>writev\<close>: the non-empty rests of the first entries.\<close>

definition iovecs :: "'a write_meta list \<Rightarrow> byte list list" where
  "iovecs q = filter (\<lambda>xs. xs \<noteq> []) (map unsent (take iov_max q))"

text \<open>The loop over the written bytes: entries they cover are completed and leave the queue.\<close>

fun complete_writes :: "nat \<Rightarrow> 'a write_meta list \<Rightarrow> 'a \<Rightarrow> 'a write_meta list \<times> 'a" where
  "complete_writes remaining [] a = ([], a)"
| "complete_writes remaining (m # ms) a =
     (if remaining = 0 then (m # ms, a)
      else let un_sent = length (wbuffer m) - offset m in
        if remaining \<ge> un_sent
        then complete_writes (remaining - un_sent) ms (call_opt (callback m) True a)
        else (m\<lparr>offset := offset m + remaining\<rparr> # ms, a))"

definition account_sent :: "nat \<Rightarrow> 'a connection \<Rightarrow> 'a connection" where
  "account_sent n c =
     (let q = to_int32 (queued_bytes c - to_int32 (int n))
      in c\<lparr>queued_bytes := (if q < 0 then 0 else q)\<rparr>)"

text \<open>An empty queue is no longer watched for writing, and not at all without a reader.\<close>

definition queue_drained :: "fd \<Rightarrow> 'a connection \<Rightarrow> 'a loop \<Rightarrow> 'a connection \<times> 'a loop" where
  "queue_drained k c l =
     (if write_queue c = [] then
        let c = c\<lparr>write_registered := False\<rparr> in
        if peer_closed c then (c, epoll_del k l)
        else if read_registered c then (c, modifyEpollEvents k (True, False) l)
        else (c, epoll_del k l)
      else (c, l))"

definition low_water :: "'a connection \<Rightarrow> 'a loop \<Rightarrow> 'a connection \<times> 'a loop" where
  "low_water c l =
     (if high_level_callback_set c \<and> queued_bytes c < low_level_size then
        case low_level_callback c of
          None \<Rightarrow> (c, l)
        | Some f \<Rightarrow> (c\<lparr>high_level_callback_set := False\<rparr>, call (f (socket c)) l)
      else (c, l))"

definition handleWrite :: "kernel \<Rightarrow> fd \<Rightarrow> 'a loop \<Rightarrow> 'a loop" where
  "handleWrite kn k l =
     (case connections l k of
        None \<Rightarrow> l
      | Some c \<Rightarrow>
          (let iovs = iovecs (write_queue c) in
           if iovs = [] then l
           else case k_writev kn iovs of
             WriteAgain \<Rightarrow> l
           | WriteFail \<Rightarrow>
               let (c, a) = failAllPendingWrites c (app l)
               in closeConnection k (put_conn k c (l\<lparr>app := a\<rparr>))
           | Wrote n \<Rightarrow>
               let l = l\<lparr>wire := (wire l)(k := wire l k @ take n (concat iovs))\<rparr>;
                   c = account_sent n c;
                   (q, a) = complete_writes n (write_queue c) (app l);
                   (c, l) = queue_drained k (c\<lparr>write_queue := q\<rparr>) (l\<lparr>app := a\<rparr>);
                   (c, l) = low_water c l
               in put_conn k c l))"

section \<open>The operations that arrive as tasks\<close>

definition doRegisterAccept :: "fd \<Rightarrow> 'a accept_fun option \<Rightarrow> 'a loop \<Rightarrow> 'a loop" where
  "doRegisterAccept k cb l =
     (if accept_set l k \<noteq> None then l\<lparr>accept_set := (accept_set l)(k \<mapsto> cb)\<rparr>
      else epoll_add k (True, False) (l\<lparr>accept_set := (accept_set l)(k \<mapsto> cb)\<rparr>))"

definition doRegisterRead :: "fd \<Rightarrow> 'a read_fun option \<Rightarrow> 'a loop \<Rightarrow> 'a loop" where
  "doRegisterRead k cb l =
     (case connections l k of
        Some c \<Rightarrow>
          let c = c\<lparr>read_cb := cb\<rparr> in
          if peer_closed c then put_conn k c l
          else if \<not> read_registered c then
            put_conn k (c\<lparr>read_registered := True\<rparr>)
              (modifyEpollEvents k (True, write_registered c) l)
          else put_conn k c l
      | None \<Rightarrow>
          epoll_add k (True, False) (put_conn k ((new_connection k cb)\<lparr>read_registered := True\<rparr>) l))"

text \<open>The connection an asynchronous write works on: an existing one, or a new one that only writes.\<close>

definition write_connection :: "fd \<Rightarrow> 'a loop \<Rightarrow> 'a connection \<times> 'a loop" where
  "write_connection k l =
     (case connections l k of
        Some c \<Rightarrow> (c, l)
      | None \<Rightarrow>
          let c = (new_connection k None)\<lparr>write_registered := True\<rparr>
          in (c, epoll_add k (False, True) (put_conn k c l)))"

definition high_water :: "'a connection \<Rightarrow> 'a loop \<Rightarrow> 'a connection \<times> 'a loop" where
  "high_water c l =
     (if queued_bytes c > high_level_size then
        case high_level_callback c of
          None \<Rightarrow> (c, l)
        | Some f \<Rightarrow>
            if high_level_callback_set c then (c, l)
            else (c\<lparr>high_level_callback_set := True\<rparr>, call (f (socket c)) l)
      else (c, l))"

definition register_write :: "fd \<Rightarrow> 'a connection \<Rightarrow> 'a loop \<Rightarrow> 'a connection \<times> 'a loop" where
  "register_write k c l =
     (if write_registered c then (c, l)
      else (c\<lparr>write_registered := True\<rparr>, modifyEpollEvents k (read_registered c, True) l))"

definition enqueue_write :: "'a write_cb option \<Rightarrow> byte list \<Rightarrow> 'a connection \<Rightarrow> 'a connection" where
  "enqueue_write cb buf c =
     c\<lparr>write_queue := write_queue c @ [\<lparr>wbuffer = buf, offset = 0, callback = cb\<rparr>],
       queued_bytes := to_int32 (queued_bytes c + to_int32 (int (length buf)))\<rparr>"

definition doAsyncWriteOnce :: "fd \<Rightarrow> 'a write_cb option \<Rightarrow> byte list \<Rightarrow> 'a loop \<Rightarrow> 'a loop" where
  "doAsyncWriteOnce k cb buf l =
     (let (c, l) = write_connection k l;
          c = enqueue_write cb buf c;
          (c, l) = high_water c l;
          (c, l) = register_write k c l
      in put_conn k c l)"

fun enqueue_batch :: "'a batch_cb \<Rightarrow> nat \<Rightarrow> byte list list \<Rightarrow> 'a connection \<Rightarrow> 'a connection" where
  "enqueue_batch cbs i [] c = c"
| "enqueue_batch cbs i (buf # bufs) c =
     enqueue_batch cbs (i + 1) bufs (enqueue_write (Some (\<lambda>r. cbs r (int i))) buf c)"

definition doAsyncWriteBatch :: "fd \<Rightarrow> 'a batch_cb \<Rightarrow> byte list list \<Rightarrow> 'a loop \<Rightarrow> 'a loop" where
  "doAsyncWriteBatch k cbs bufs l =
     (let (c, l) = write_connection k l;
          c = enqueue_batch cbs 0 bufs c;
          (c, l) = high_water c l;
          (c, l) = register_write k c l
      in put_conn k c l)"

definition doRegisterHighLevelCallback :: "fd \<Rightarrow> 'a socket_cb option \<Rightarrow> 'a loop \<Rightarrow> 'a loop" where
  "doRegisterHighLevelCallback k cb l =
     (case connections l k of None \<Rightarrow> l | Some c \<Rightarrow> put_conn k (c\<lparr>high_level_callback := cb\<rparr>) l)"

definition doRegisterLowLevelCallback :: "fd \<Rightarrow> 'a socket_cb option \<Rightarrow> 'a loop \<Rightarrow> 'a loop" where
  "doRegisterLowLevelCallback k cb l =
     (case connections l k of None \<Rightarrow> l | Some c \<Rightarrow> put_conn k (c\<lparr>low_level_callback := cb\<rparr>) l)"

definition doRegisterCloseCallback :: "fd \<Rightarrow> 'a socket_cb option \<Rightarrow> 'a loop \<Rightarrow> 'a loop" where
  "doRegisterCloseCallback k cb l =
     (case connections l k of None \<Rightarrow> l | Some c \<Rightarrow> put_conn k (c\<lparr>closing_callback := cb\<rparr>) l)"

definition doClose :: "fd \<Rightarrow> 'a loop \<Rightarrow> 'a loop" where
  "doClose k l = closeConnection k l"

fun exec_task :: "'a task \<Rightarrow> 'a loop \<Rightarrow> 'a loop" where
  "exec_task (RegisterAccept k cb) l = doRegisterAccept k cb l"
| "exec_task (RegisterRead k cb) l = doRegisterRead k cb l"
| "exec_task (WriteOnce k cb buf) l = doAsyncWriteOnce k cb buf l"
| "exec_task (WriteBatch k cbs bufs) l = doAsyncWriteBatch k cbs bufs l"
| "exec_task (CloseSocket k) l = doClose k l"
| "exec_task (RegisterHigh k cb) l = doRegisterHighLevelCallback k cb l"
| "exec_task (RegisterLow k cb) l = doRegisterLowLevelCallback k cb l"
| "exec_task (RegisterClose k cb) l = doRegisterCloseCallback k cb l"
| "exec_task (UserTask f) l = call f l"

section \<open>Timers, posting and dispatch\<close>

text \<open>
  \<^verbatim>\<open>addTimer\<close>: the new descriptor, or the error value when one of the three system calls
  fails; the callback is stored before the descriptor is watched, and removed again when watching
  fails.
\<close>

definition addTimer :: "fd option \<Rightarrow> bool \<Rightarrow> bool \<Rightarrow> ('a \<Rightarrow> 'a) option \<Rightarrow> 'a loop \<Rightarrow> fd \<times> 'a loop" where
  "addTimer created settime_ok ctl_ok cb l =
     (case created of
        None \<Rightarrow> (-1, l)
      | Some k \<Rightarrow>
          if \<not> settime_ok then (-1, l)
          else let l = (if timer_fds l k = None then l\<lparr>timer_fds := (timer_fds l)(k \<mapsto> cb)\<rparr> else l) in
            if ctl_ok then (k, epoll_add k (True, False) l)
            else (-1, l\<lparr>timer_fds := (timer_fds l)(k := None)\<rparr>))"

text \<open>
  \<^verbatim>\<open>postTask\<close>: \<open>None\<close> while the queue is full, when the caller spins. The thread that turns
  \<^verbatim>\<open>awake\<close> on writes to the wake-up descriptor.
\<close>

definition wake :: "'a loop \<Rightarrow> 'a loop" where
  "wake l = (if awake l then l else l\<lparr>awake := True, wakeups := wakeups l + 1\<rparr>)"

definition postTask :: "'a task \<Rightarrow> 'a loop \<Rightarrow> 'a loop option" where
  "postTask t l =
     (case mpsc_push t (task_queue l) of
        Some (True, q) \<Rightarrow> Some (wake (l\<lparr>task_queue := q\<rparr>))
      | _ \<Rightarrow> None)"

text \<open>\<^verbatim>\<open>postTaskBatch\<close>: all the pushes, then one look at the flag.\<close>

fun push_tasks :: "'a task list \<Rightarrow> 'a loop \<Rightarrow> 'a loop option" where
  "push_tasks [] l = Some l"
| "push_tasks (t # ts) l =
     (case mpsc_push t (task_queue l) of
        Some (True, q) \<Rightarrow> push_tasks ts (l\<lparr>task_queue := q\<rparr>)
      | _ \<Rightarrow> None)"

definition postTaskBatch :: "'a task list \<Rightarrow> 'a loop \<Rightarrow> 'a loop option" where
  "postTaskBatch ts l = map_option wake (push_tasks ts l)"

text \<open>\<^verbatim>\<open>drainTasks\<close>: the tasks in the queue, then the flag, then the second look at the queue.\<close>

fun drain_loop :: "nat \<Rightarrow> 'a loop \<Rightarrow> 'a loop option" where
  "drain_loop 0 l = None"
| "drain_loop (Suc f) l =
     (case mpsc_pop (task_queue l) of
        None \<Rightarrow> None
      | Some (None, q) \<Rightarrow> Some (l\<lparr>task_queue := q\<rparr>)
      | Some (Some t, q) \<Rightarrow> drain_loop f (exec_task t (l\<lparr>task_queue := q\<rparr>)))"

definition drainTasks :: "nat \<Rightarrow> 'a loop \<Rightarrow> 'a loop option" where
  "drainTasks f l =
     (case drain_loop f l of
        None \<Rightarrow> None
      | Some l \<Rightarrow>
          let l = l\<lparr>awake := False\<rparr> in
          Some (if \<not> mp_empty (task_queue l) then wake l else l))"

text \<open>One event of \<^verbatim>\<open>epoll_wait\<close>: the wake-up descriptor, or a descriptor with its flags.\<close>

datatype event = Wakeup | Ready fd bool bool bool

fun dispatch_event :: "nat \<Rightarrow> kernel \<Rightarrow> event \<Rightarrow> 'a loop \<Rightarrow> 'a loop option" where
  "dispatch_event f kn Wakeup l = drainTasks f (l\<lparr>wakeups := 0\<rparr>)"
| "dispatch_event f kn (Ready k err rd wr) l =
     (if err then Some (closeConnection k l)
      else let l = (if rd then handleRead kn k l else l);
               l = (if wr then handleWrite kn k l else l)
           in Some l)"

fun dispatch_events :: "nat \<Rightarrow> (event \<times> kernel) list \<Rightarrow> 'a loop \<Rightarrow> 'a loop option" where
  "dispatch_events f [] l = Some l"
| "dispatch_events f ((e, kn) # es) l =
     (case dispatch_event f kn e l of None \<Rightarrow> None | Some l \<Rightarrow> dispatch_events f es l)"

text \<open>After the loop has stopped, the tasks that are left are still executed.\<close>

fun run_exit :: "nat \<Rightarrow> 'a loop \<Rightarrow> 'a loop option" where
  "run_exit 0 l = None"
| "run_exit (Suc f) l =
     (if mp_empty (task_queue l) then Some l
      else case mpsc_pop (task_queue l) of
             None \<Rightarrow> None
           | Some (None, q) \<Rightarrow> run_exit f (l\<lparr>task_queue := q\<rparr>)
           | Some (Some t, q) \<Rightarrow> run_exit f (exec_task t (l\<lparr>task_queue := q\<rparr>)))"

definition new_loop :: "'a task \<Rightarrow> 'a \<Rightarrow> 'a loop" where
  "new_loop t a =
     \<lparr>connections = (\<lambda>_. None), accept_set = (\<lambda>_. None), timer_fds = (\<lambda>_. None), epoll = (\<lambda>_. None),
      wire = (\<lambda>_. []), task_queue = mp_new 512 t, awake = False, wakeups = 0, app = a\<rparr>"

end
