(* ===== verification/Loop_Writes.thy ===== *)
theory Loop_Writes
  imports Event_Loop
begin

text \<open>
  The write path of the event loop: what the bytes of a socket and the completion callbacks of its
  writes go through from \<^verbatim>\<open>asyncWrite\<close> to \<^verbatim>\<open>writev\<close>, for any sequence of submissions,
  readiness events and closings.
\<close>

section \<open>Pending bytes\<close>

definition pending :: "'a write_meta list \<Rightarrow> byte list" where
  "pending q = concat (map unsent q)"

definition queue_of :: "fd \<Rightarrow> 'a loop \<Rightarrow> 'a write_meta list" where
  "queue_of k l = (case connections l k of None \<Rightarrow> [] | Some c \<Rightarrow> write_queue c)"

lemma pending_simps [simp]:
  "pending [] = []" "pending (m # q) = unsent m @ pending q" "pending (q @ r) = pending q @ pending r"
  by (simp_all add: pending_def)

lemma concat_filter_nonempty: "concat (filter (\<lambda>xs. xs \<noteq> []) xss) = concat xss"
  by (induction xss) simp_all

lemma concat_iovecs: "concat (iovecs q) = pending (take iov_max q)"
  by (simp add: iovecs_def concat_filter_nonempty pending_def)

lemma pending_take_prefix: "pending q = pending (take n q) @ pending (drop n q)"
  by (metis append_take_drop_id pending_simps(3))

lemma iovecs_take: "n \<le> length (concat (iovecs q)) \<Longrightarrow> take n (concat (iovecs q)) = take n (pending q)"
  by (simp add: concat_iovecs pending_take_prefix [of q iov_max])

lemma iovecs_length: "length (concat (iovecs q)) \<le> length (pending q)"
  by (simp add: concat_iovecs pending_take_prefix [of q iov_max])

text \<open>Completing \<open>n\<close> bytes drops \<open>n\<close> pending bytes.\<close>

lemma complete_writes_pending:
  "n \<le> length (pending q) \<Longrightarrow> pending (fst (complete_writes n q a)) = drop n (pending q)"
proof (induction n q a rule: complete_writes.induct)
  case (1 n a)
  then show ?case by simp
next
  case (2 n m ms a)
  show ?case
  proof (cases "n = 0 \<or> n < length (wbuffer m) - offset m")
    case True
    then show ?thesis by (auto simp: unsent_def Let_def ac_simps)
  next
    case False
    then have n: "length (wbuffer m) - offset m \<le> n" "n \<noteq> 0" by simp_all
    have "n - (length (wbuffer m) - offset m) \<le> length (pending ms)"
      using 2 n by (simp add: unsent_def)
    with 2 n show ?thesis by (simp add: unsent_def Let_def)
  qed
qed

text \<open>The entries that leave the queue form a prefix; each is called back once, with success.\<close>

fun succeed_writes :: "'a write_meta list \<Rightarrow> 'a \<Rightarrow> 'a" where
  "succeed_writes [] a = a"
| "succeed_writes (m # ms) a = succeed_writes ms (call_opt (callback m) True a)"

lemma succeed_writes_append: "succeed_writes (xs @ ys) a = succeed_writes ys (succeed_writes xs a)"
  by (induction xs arbitrary: a) simp_all

lemma fail_writes_append: "fail_writes (xs @ ys) a = fail_writes ys (fail_writes xs a)"
  by (induction xs arbitrary: a) simp_all

text \<open>What was submitted with an entry, whatever of it has been written.\<close>

definition submission :: "'a write_meta \<Rightarrow> 'a write_cb option \<times> byte list" where
  "submission m = (callback m, wbuffer m)"

lemma submission_callbacks: "map submission q = map submission q' \<Longrightarrow> map callback q = map callback q'"
  by (drule arg_cong [where f = "map fst"]) (simp add: submission_def comp_def)

lemma complete_writes_prefix:
  "\<exists>done rest. q = done @ rest \<and> snd (complete_writes n q a) = succeed_writes done a \<and>
     map submission (fst (complete_writes n q a)) = map submission rest"
proof (induction n q a rule: complete_writes.induct)
  case (1 n a)
  then show ?case by simp
next
  case (2 n m ms a)
  show ?case
  proof (cases "n = 0 \<or> n < length (wbuffer m) - offset m")
    case True
    then show ?thesis by (intro exI [of _ "[]"] exI [of _ "m # ms"]) (auto simp: Let_def submission_def)
  next
    case False
    with 2 obtain d r where "ms = d @ r"
      "snd (complete_writes (n - (length (wbuffer m) - offset m)) ms (call_opt (callback m) True a)) =
         succeed_writes d (call_opt (callback m) True a)"
      "map submission (fst (complete_writes (n - (length (wbuffer m) - offset m)) ms (call_opt (callback m) True a))) =
         map submission r" by auto
    with False show ?thesis by (intro exI [of _ "m # d"] exI [of _ r]) (simp add: Let_def)
  qed
qed

section \<open>Connections without surprises\<close>

text \<open>
  The offset of an entry stays inside its buffer, the byte count is the number of pending bytes,
  a non-empty queue is registered for writing, and a closed peer is not read from.
\<close>

definition conn_inv :: "'a connection \<Rightarrow> bool" where
  "conn_inv c \<longleftrightarrow>
     (\<forall>m \<in> set (write_queue c). offset m \<le> length (wbuffer m)) \<and>
     queued_bytes c = int (length (pending (write_queue c))) \<and>
     length (pending (write_queue c)) < 2 ^ 31 \<and>
     (write_queue c \<noteq> [] \<longrightarrow> write_registered c) \<and>
     (peer_closed c \<longrightarrow> \<not> read_registered c)"

lemma complete_writes_offsets:
  "\<forall>m \<in> set q. offset m \<le> length (wbuffer m) \<Longrightarrow>
   \<forall>m \<in> set (fst (complete_writes n q a)). offset m \<le> length (wbuffer m)"
  by (induction n q a rule: complete_writes.induct) (auto simp: Let_def)

lemma account_sent_exact:
  assumes "queued_bytes c = int p" and "p < 2 ^ 31" and "n \<le> p"
  shows "queued_bytes (account_sent n c) = int (p - n)"
proof -
  have "to_int32 (int n) = int n" using assms by (intro to_int32_id) auto
  moreover have "to_int32 (int p - int n) = int p - int n" using assms by (intro to_int32_id) auto
  ultimately show ?thesis using assms by (simp add: account_sent_def Let_def)
qed

lemma account_sent_fields [simp]:
  "write_queue (account_sent n c) = write_queue c" "read_registered (account_sent n c) = read_registered c"
  "write_registered (account_sent n c) = write_registered c" "peer_closed (account_sent n c) = peer_closed c"
  "read_cb (account_sent n c) = read_cb c" "closing_callback (account_sent n c) = closing_callback c"
  "high_level_callback (account_sent n c) = high_level_callback c" "socket (account_sent n c) = socket c"
  "low_level_callback (account_sent n c) = low_level_callback c" "read_buffer (account_sent n c) = read_buffer c"
  "high_level_callback_set (account_sent n c) = high_level_callback_set c"
  by (simp_all add: account_sent_def Let_def)

lemma enqueue_write_inv:
  assumes "queued_bytes c = int (length (pending (write_queue c)))"
    and "length (pending (write_queue c)) + length buf < 2 ^ 31"
  shows "queued_bytes (enqueue_write cb buf c) = int (length (pending (write_queue (enqueue_write cb buf c))))"
    and "pending (write_queue (enqueue_write cb buf c)) = pending (write_queue c) @ buf"
proof -
  have "to_int32 (int (length buf)) = int (length buf)" using assms by (intro to_int32_id) auto
  moreover have "to_int32 (int (length (pending (write_queue c))) + int (length buf)) =
      int (length (pending (write_queue c))) + int (length buf)"
    using assms by (intro to_int32_id) auto
  ultimately show "queued_bytes (enqueue_write cb buf c) = int (length (pending (write_queue (enqueue_write cb buf c))))"
    using assms by (simp add: enqueue_write_def unsent_def)
  show "pending (write_queue (enqueue_write cb buf c)) = pending (write_queue c) @ buf"
    by (simp add: enqueue_write_def unsent_def)
qed

lemma enqueue_write_fields [simp]:
  "read_registered (enqueue_write cb buf c) = read_registered c"
  "write_registered (enqueue_write cb buf c) = write_registered c" "peer_closed (enqueue_write cb buf c) = peer_closed c"
  "read_cb (enqueue_write cb buf c) = read_cb c" "closing_callback (enqueue_write cb buf c) = closing_callback c"
  "high_level_callback (enqueue_write cb buf c) = high_level_callback c" "socket (enqueue_write cb buf c) = socket c"
  "low_level_callback (enqueue_write cb buf c) = low_level_callback c" "read_buffer (enqueue_write cb buf c) = read_buffer c"
  "high_level_callback_set (enqueue_write cb buf c) = high_level_callback_set c"
  "write_queue (enqueue_write cb buf c) = write_queue c @ [\<lparr>wbuffer = buf, offset = 0, callback = cb\<rparr>]"
  by (simp_all add: enqueue_write_def)

text \<open>A batch is its buffers one by one, each with its index.\<close>

definition batch_metas :: "'a batch_cb \<Rightarrow> nat \<Rightarrow> byte list list \<Rightarrow> 'a write_meta list" where
  "batch_metas cbs i bufs =
     map (\<lambda>(j, buf). \<lparr>wbuffer = buf, offset = 0, callback = Some (\<lambda>r. cbs r (int j))\<rparr>)
       (zip [i..<i + length bufs] bufs)"

lemma batch_metas_simps [simp]:
  "batch_metas cbs i [] = []"
  "batch_metas cbs i (buf # bufs) =
     \<lparr>wbuffer = buf, offset = 0, callback = Some (\<lambda>r. cbs r (int i))\<rparr> # batch_metas cbs (i + 1) bufs"
  by (simp_all add: batch_metas_def upt_rec [of i] Suc_le_eq)

lemma pending_batch_metas [simp]: "pending (batch_metas cbs i bufs) = concat bufs"
  by (induction bufs arbitrary: i) (simp_all add: unsent_def)

lemma enqueue_batch_fields [simp]:
  "read_registered (enqueue_batch cbs i bufs c) = read_registered c"
  "write_registered (enqueue_batch cbs i bufs c) = write_registered c"
  "peer_closed (enqueue_batch cbs i bufs c) = peer_closed c"
  "read_cb (enqueue_batch cbs i bufs c) = read_cb c"
  "closing_callback (enqueue_batch cbs i bufs c) = closing_callback c"
  "high_level_callback (enqueue_batch cbs i bufs c) = high_level_callback c"
  "low_level_callback (enqueue_batch cbs i bufs c) = low_level_callback c"
  "socket (enqueue_batch cbs i bufs c) = socket c"
  "write_queue (enqueue_batch cbs i bufs c) = write_queue c @ batch_metas cbs i bufs"
  by (induction bufs arbitrary: i c) simp_all

lemma enqueue_batch_inv:
  "queued_bytes c = int (length (pending (write_queue c))) \<Longrightarrow>
   length (pending (write_queue c)) + length (concat bufs) < 2 ^ 31 \<Longrightarrow>
   queued_bytes (enqueue_batch cbs i bufs c) = int (length (pending (write_queue (enqueue_batch cbs i bufs c))))"
proof (induction bufs arbitrary: i c)
  case Nil
  then show ?case by simp
next
  case (Cons buf bufs)
  let ?c = "enqueue_write (Some (\<lambda>r. cbs r (int i))) buf c"
  have e: "queued_bytes ?c = int (length (pending (write_queue ?c)))"
    "pending (write_queue ?c) = pending (write_queue c) @ buf"
    using enqueue_write_inv [OF Cons.prems(1)] Cons.prems(2) by auto
  have "queued_bytes (enqueue_batch cbs (i + 1) bufs ?c) =
      int (length (pending (write_queue (enqueue_batch cbs (i + 1) bufs ?c))))"
    using Cons.prems(2) e by (intro Cons.IH) (simp_all del: enqueue_write_fields)
  then show ?case by (simp del: enqueue_batch_fields enqueue_write_fields)
qed

section \<open>Inputs of the loop\<close>

text \<open>
  What happens to a loop, one input after the other: a task from its queue, or an event of
  \<^verbatim>\<open>epoll_wait\<close> with the answers the kernel gives to the calls of its handlers.
\<close>

datatype 'a input = Task "'a task" | Event kernel fd bool bool bool

fun apply_input :: "'a input \<Rightarrow> 'a loop \<Rightarrow> 'a loop" where
  "apply_input (Task t) l = exec_task t l"
| "apply_input (Event kn k err rd wr) l =
     (case dispatch_event 0 kn (Ready k err rd wr) l of None \<Rightarrow> l | Some l \<Rightarrow> l)"

definition run_inputs :: "'a input list \<Rightarrow> 'a loop \<Rightarrow> 'a loop" where
  "run_inputs ins l = fold apply_input ins l"

lemma run_inputs_simps [simp]:
  "run_inputs [] l = l" "run_inputs (i # ins) l = run_inputs ins (apply_input i l)"
  by (simp_all add: run_inputs_def)

lemma apply_Event [simp]:
  "apply_input (Event kn k err rd wr) l =
     (if err then closeConnection k l
      else let l = (if rd then handleRead kn k l else l) in if wr then handleWrite kn k l else l)"
  by (simp add: Let_def)

declare apply_input.simps(2) [simp del]

text \<open>Every handler touches the descriptor it is called for and no other.\<close>

lemmas loop_defs =
  epoll_add_def modifyEpollEvents_def epoll_del_def call_def put_conn_def

lemma close_connections:
  "connections (closeConnection k l) =
     (if accept_set l k \<noteq> None then connections l else (connections l)(k := None))"
  by (auto simp: closeConnection_def loop_defs Let_def split: option.splits prod.splits)

lemma close_accept: "accept_set (closeConnection k l) = (accept_set l)(k := None)"
  by (auto simp: closeConnection_def loop_defs Let_def split: option.splits prod.splits)

lemma close_epoll: "epoll (closeConnection k l) = (epoll l)(k := None)"
  by (auto simp: closeConnection_def loop_defs Let_def split: option.splits prod.splits)

lemma close_frame [simp]:
  "j \<noteq> k \<Longrightarrow> connections (closeConnection j l) k = connections l k"
  "wire (closeConnection j l) = wire l"
  "task_queue (closeConnection j l) = task_queue l"
  "j \<noteq> k \<Longrightarrow> epoll (closeConnection j l) k = epoll l k"
  by (simp_all add: closeConnection_def loop_defs Let_def split: option.splits prod.splits)

lemma read_frame [simp]:
  "j \<noteq> k \<Longrightarrow> connections (handleRead kn j l) k = connections l k"
  "wire (handleRead kn j l) = wire l"
  "task_queue (handleRead kn j l) = task_queue l"
  "j \<noteq> k \<Longrightarrow> epoll (handleRead kn j l) k = epoll l k"
  by (simp_all add: handleRead_def handleAccept_def handleTimer_def loop_defs Let_def
      split: option.splits read_result.splits prod.splits)

lemma queue_drained_frame [simp]:
  "connections (snd (queue_drained j c l)) = connections l" "wire (snd (queue_drained j c l)) = wire l"
  "task_queue (snd (queue_drained j c l)) = task_queue l" "app (snd (queue_drained j c l)) = app l"
  "j \<noteq> k \<Longrightarrow> epoll (snd (queue_drained j c l)) k = epoll l k"
  "write_queue (fst (queue_drained j c l)) = write_queue c"
  "queued_bytes (fst (queue_drained j c l)) = queued_bytes c"
  by (simp_all add: queue_drained_def loop_defs Let_def)

lemma water_frame [simp]:
  "connections (snd (low_water c l)) = connections l" "wire (snd (low_water c l)) = wire l"
  "task_queue (snd (low_water c l)) = task_queue l" "epoll (snd (low_water c l)) = epoll l"
  "write_queue (fst (low_water c l)) = write_queue c" "queued_bytes (fst (low_water c l)) = queued_bytes c"
  "connections (snd (high_water c l)) = connections l" "wire (snd (high_water c l)) = wire l"
  "task_queue (snd (high_water c l)) = task_queue l" "epoll (snd (high_water c l)) = epoll l"
  "write_queue (fst (high_water c l)) = write_queue c" "queued_bytes (fst (high_water c l)) = queued_bytes c"
  by (simp_all add: low_water_def high_water_def call_def split: option.splits)

lemma register_write_frame [simp]:
  "connections (snd (register_write j c l)) = connections l" "wire (snd (register_write j c l)) = wire l"
  "task_queue (snd (register_write j c l)) = task_queue l" "app (snd (register_write j c l)) = app l"
  "j \<noteq> k \<Longrightarrow> epoll (snd (register_write j c l)) k = epoll l k"
  "write_queue (fst (register_write j c l)) = write_queue c"
  "queued_bytes (fst (register_write j c l)) = queued_bytes c"
  by (simp_all add: register_write_def loop_defs Let_def)

lemma write_connection_frame [simp]:
  "j \<noteq> k \<Longrightarrow> connections (snd (write_connection j l)) k = connections l k"
  "wire (snd (write_connection j l)) = wire l" "app (snd (write_connection j l)) = app l"
  "task_queue (snd (write_connection j l)) = task_queue l"
  "j \<noteq> k \<Longrightarrow> epoll (snd (write_connection j l)) k = epoll l k"
  by (simp_all add: write_connection_def loop_defs Let_def split: option.splits)

lemma write_frame [simp]:
  "j \<noteq> k \<Longrightarrow> connections (handleWrite kn j l) k = connections l k"
  "j \<noteq> k \<Longrightarrow> wire (handleWrite kn j l) k = wire l k"
  "task_queue (handleWrite kn j l) = task_queue l"
  "j \<noteq> k \<Longrightarrow> epoll (handleWrite kn j l) k = epoll l k"
  by (simp_all add: handleWrite_def put_conn_def case_prod_beta Let_def split: option.splits write_result.splits)

fun task_fd :: "'a task \<Rightarrow> fd option" where
  "task_fd (RegisterAccept k cb) = Some k"
| "task_fd (RegisterRead k cb) = Some k"
| "task_fd (WriteOnce k cb buf) = Some k"
| "task_fd (WriteBatch k cbs bufs) = Some k"
| "task_fd (CloseSocket k) = Some k"
| "task_fd (RegisterHigh k cb) = Some k"
| "task_fd (RegisterLow k cb) = Some k"
| "task_fd (RegisterClose k cb) = Some k"
| "task_fd (UserTask f) = None"

lemmas do_defs =
  doRegisterAccept_def doRegisterRead_def doAsyncWriteOnce_def doAsyncWriteBatch_def doClose_def
  doRegisterHighLevelCallback_def doRegisterLowLevelCallback_def doRegisterCloseCallback_def

lemma exec_frame [simp]:
  "task_fd t \<noteq> Some k \<Longrightarrow> connections (exec_task t l) k = connections l k"
  "wire (exec_task t l) = wire l"
  "task_queue (exec_task t l) = task_queue l"
  "task_fd t \<noteq> Some k \<Longrightarrow> epoll (exec_task t l) k = epoll l k"
  by (cases t; simp add: do_defs loop_defs case_prod_beta Let_def split: option.splits)+

section \<open>The byte stream of a socket\<close>

lemma handleWrite_cases:
  assumes "connections l k = Some c"
  obtains (idle) "iovecs (write_queue c) = []" "handleWrite kn k l = l"
  | (again) "k_writev kn (iovecs (write_queue c)) = WriteAgain" "handleWrite kn k l = l"
  | (failed) "k_writev kn (iovecs (write_queue c)) = WriteFail"
      "handleWrite kn k l = closeConnection k
         (put_conn k (fst (failAllPendingWrites c (app l))) (l\<lparr>app := snd (failAllPendingWrites c (app l))\<rparr>))"
  | (wrote) n c1 l1 where "k_writev kn (iovecs (write_queue c)) = Wrote n" "iovecs (write_queue c) \<noteq> []"
      "c1 = (account_sent n c)\<lparr>write_queue := fst (complete_writes n (write_queue c) (app l))\<rparr>"
      "l1 = l\<lparr>wire := (wire l)(k := wire l k @ take n (concat (iovecs (write_queue c)))),
              app := snd (complete_writes n (write_queue c) (app l))\<rparr>"
      "handleWrite kn k l = put_conn k (fst (low_water (fst (queue_drained k c1 l1)) (snd (queue_drained k c1 l1))))
         (snd (low_water (fst (queue_drained k c1 l1)) (snd (queue_drained k c1 l1))))"
proof -
  consider "iovecs (write_queue c) = []"
    | "iovecs (write_queue c) \<noteq> []" "k_writev kn (iovecs (write_queue c)) = WriteAgain"
    | "iovecs (write_queue c) \<noteq> []" "k_writev kn (iovecs (write_queue c)) = WriteFail"
    | n where "iovecs (write_queue c) \<noteq> []" "k_writev kn (iovecs (write_queue c)) = Wrote n"
    by (cases "k_writev kn (iovecs (write_queue c))") auto
  then show thesis
  proof cases
    case 1
    with assms show ?thesis by (intro idle) (simp_all add: handleWrite_def)
  next
    case 2
    with assms show ?thesis by (intro again) (simp_all add: handleWrite_def)
  next
    case 3
    with assms show ?thesis by (intro failed) (simp_all add: handleWrite_def case_prod_beta)
  next
    case 4
    with assms show ?thesis
      by (intro wrote [OF 4(2,1) refl refl]) (simp add: handleWrite_def case_prod_beta Let_def)
  qed
qed

lemma handleWrite_None [simp]: "connections l k = None \<Longrightarrow> handleWrite kn k l = l"
  by (simp add: handleWrite_def)

text \<open>Bytes go from the queue to the wire; none is lost, repeated or reordered.\<close>

definition stream :: "fd \<Rightarrow> 'a loop \<Rightarrow> byte list" where
  "stream k l = wire l k @ pending (queue_of k l)"

lemma close_None: "accept_set l k = None \<Longrightarrow> connections (closeConnection k l) k = None"
  by (simp add: close_connections)

lemma handleWrite_stream:
  assumes "kernel_ok kn" and "accept_set l k = None"
    and "connections (handleWrite kn k l) k = None \<Longrightarrow> connections l k = None"
  shows "stream k (handleWrite kn k l) = stream k l"
proof (cases "connections l k")
  case None
  then show ?thesis by simp
next
  case (Some c)
  then show ?thesis
  proof (cases rule: handleWrite_cases [where kn = kn])
    case failed
    with assms Some show ?thesis by (simp add: close_None put_conn_def)
  next
    case (wrote n c1 l1)
    have n: "n \<le> length (concat (iovecs (write_queue c)))"
      using assms(1) wrote(1) by (simp add: kernel_ok_def)
    then have "n \<le> length (pending (write_queue c))" using iovecs_length le_trans by blast
    then have "pending (fst (complete_writes n (write_queue c) (app l))) = drop n (pending (write_queue c))"
      by (rule complete_writes_pending)
    then show ?thesis using wrote Some n
      by (simp add: stream_def queue_of_def put_conn_def iovecs_take)
  qed simp_all
qed

text \<open>What a readable event does to its connection.\<close>

lemma handleRead_cases:
  obtains (other) "connections (handleRead kn k l) = connections l"
      "accept_set (handleRead kn k l) = accept_set l" "accept_set l k = None \<Longrightarrow> timer_fds l k = None \<Longrightarrow> handleRead kn k l = l"
  | (data) c xs b where "accept_set l k = None" "timer_fds l k = None" "connections l k = Some c"
      "k_read kn (sb_size (read_buffer c) - data_size (read_buffer c)) = ReadData xs"
      "connections (handleRead kn k l) = (connections l)(k \<mapsto> c\<lparr>read_buffer := b\<rparr>)"
      "accept_set (handleRead kn k l) = accept_set l" "epoll (handleRead kn k l) = epoll l"
  | (eof) c where "accept_set l k = None" "timer_fds l k = None" "connections l k = Some c"
      "k_read kn (sb_size (read_buffer c) - data_size (read_buffer c)) = ReadEof"
      "connections (handleRead kn k l) = (connections l)(k \<mapsto>
         c\<lparr>peer_closed := True, read_registered := False, write_registered := (write_queue c \<noteq> [])\<rparr>)"
      "accept_set (handleRead kn k l) = accept_set l"
      "epoll (handleRead kn k l) =
        (if write_queue c \<noteq> [] then epoll (modifyEpollEvents k (False, True) l) else (epoll l)(k := None))"
  | (failed) c where "accept_set l k = None" "timer_fds l k = None" "connections l k = Some c"
      "k_read kn (sb_size (read_buffer c) - data_size (read_buffer c)) = ReadFail"
      "handleRead kn k l = closeConnection k l"
proof (cases "accept_set l k = None \<and> timer_fds l k = None \<and> connections l k \<noteq> None")
  case False
  then show ?thesis
    by (intro other) (auto simp: handleRead_def handleAccept_def handleTimer_def loop_defs Let_def
        split: option.splits)
next
  case True
  then obtain c where c: "connections l k = Some c" by auto
  from True have acc: "accept_set l k = None" "timer_fds l k = None" by simp_all
  show ?thesis
  proof (cases "k_read kn (sb_size (read_buffer c) - data_size (read_buffer c))")
    case (ReadData xs)
    show ?thesis
    proof (cases "read_cb c")
      case None
      show ?thesis
        by (rule data [OF acc c ReadData, of "sb_clear (sb_fill xs (read_buffer c))"])
          (simp_all add: handleRead_def acc c ReadData None loop_defs)
    next
      case (Some cb)
      let ?b = "sb_fill xs (read_buffer c)\<lparr>data_size := data_size (sb_fill xs (read_buffer c)) + length xs\<rparr>"
      let ?n = "fst (cb (bytes ?b) (data_size ?b) (app l))"
      show ?thesis
        by (rule data [OF acc c ReadData, of "sb_read (if ?n > data_size ?b then data_size ?b else ?n) ?b"])
          (simp_all add: handleRead_def acc c ReadData Some loop_defs Let_def case_prod_beta)
    qed
  next
    case ReadEof
    show ?thesis
      by (rule eof [OF acc c ReadEof])
        (simp_all add: handleRead_def acc c ReadEof loop_defs Let_def split: option.splits)
  next
    case ReadAgain
    then show ?thesis by (intro other) (simp_all add: handleRead_def acc c)
  next
    case ReadFail
    then show ?thesis by (intro failed [OF acc c]) (simp_all add: handleRead_def acc c)
  qed
qed

lemma handleRead_queue:
  assumes "connections (handleRead kn k l) k = None \<Longrightarrow> connections l k = None"
  shows "queue_of k (handleRead kn k l) = queue_of k l"
proof (cases rule: handleRead_cases [where kn = kn and k = k and l = l])
  case failed
  with assms show ?thesis by (simp add: close_None)
qed (simp_all add: queue_of_def)

lemma handleRead_accept: "accept_set l k = None \<Longrightarrow> accept_set (handleRead kn k l) k = None"
  by (rule handleRead_cases [where kn = kn and k = k and l = l]) (simp_all add: close_accept)

lemma handleRead_None: "connections l k = None \<Longrightarrow> connections (handleRead kn k l) k = None"
  by (rule handleRead_cases [where kn = kn and k = k and l = l]) simp_all

text \<open>The bytes a list of inputs submits for a socket.\<close>

fun task_bytes :: "fd \<Rightarrow> 'a task \<Rightarrow> byte list" where
  "task_bytes k (WriteOnce j cb buf) = (if j = k then buf else [])"
| "task_bytes k (WriteBatch j cbs bufs) = (if j = k then concat bufs else [])"
| "task_bytes k _ = []"

fun submitted :: "fd \<Rightarrow> 'a input list \<Rightarrow> byte list" where
  "submitted k [] = []"
| "submitted k (Task t # ins) = task_bytes k t @ submitted k ins"
| "submitted k (Event kn j err rd wr # ins) = submitted k ins"

text \<open>The socket is a connection that is not closed on the way, and not a listening socket.\<close>

fun stays_open :: "fd \<Rightarrow> 'a input list \<Rightarrow> 'a loop \<Rightarrow> bool" where
  "stays_open k [] l \<longleftrightarrow> accept_set l k = None"
| "stays_open k (i # ins) l \<longleftrightarrow>
     accept_set l k = None \<and>
     (connections (apply_input i l) k = None \<longrightarrow> connections l k = None) \<and>
     stays_open k ins (apply_input i l)"

fun kernels_ok :: "'a input list \<Rightarrow> bool" where
  "kernels_ok [] \<longleftrightarrow> True"
| "kernels_ok (Event kn j err rd wr # ins) \<longleftrightarrow> kernel_ok kn \<and> kernels_ok ins"
| "kernels_ok (Task t # ins) \<longleftrightarrow> kernels_ok ins"

lemma write_connection_queue [simp]:
  "write_queue (fst (write_connection k l)) = queue_of k l"
  by (simp add: write_connection_def queue_of_def new_connection_def Let_def split: option.splits)

lemma queue_of_put [simp]: "queue_of k (put_conn k c l) = write_queue c"
  by (simp add: queue_of_def put_conn_def)

lemma async_write_queue:
  "queue_of k (doAsyncWriteOnce k cb buf l) = queue_of k l @ [\<lparr>wbuffer = buf, offset = 0, callback = cb\<rparr>]"
  "queue_of k (doAsyncWriteBatch k cbs bufs l) = queue_of k l @ batch_metas cbs 0 bufs"
  by (simp_all add: do_defs case_prod_beta Let_def)

lemma exec_task_stream:
  assumes "connections (exec_task t l) k = None \<Longrightarrow> connections l k = None"
  shows "stream k (exec_task t l) = stream k l @ task_bytes k t"
proof (cases "task_fd t = Some k")
  case False
  moreover from False have "task_bytes k t = []" by (cases t) simp_all
  ultimately show ?thesis by (simp add: stream_def queue_of_def)
next
  case True
  show ?thesis
  proof (cases t)
    case (WriteOnce j cb buf)
    with True show ?thesis by (simp add: stream_def async_write_queue unsent_def del: exec_task.simps) (simp add: async_write_queue unsent_def)
  next
    case (WriteBatch j cbs bufs)
    with True show ?thesis by (simp add: stream_def async_write_queue del: exec_task.simps) (simp add: async_write_queue)
  next
    case (CloseSocket j)
    with True assms show ?thesis
      by (cases "accept_set l k") (auto simp: stream_def queue_of_def doClose_def close_connections)
  qed (use True in \<open>auto simp: stream_def queue_of_def do_defs loop_defs Let_def new_connection_def
         split: option.splits\<close>)
qed

lemma apply_Event_stream:
  assumes "kernel_ok kn" and "accept_set l k = None"
    and "connections (apply_input (Event kn j err rd wr) l) k = None \<Longrightarrow> connections l k = None"
  shows "stream k (apply_input (Event kn j err rd wr) l) = stream k l"
proof (cases "j = k")
  case False
  then show ?thesis by (simp add: stream_def queue_of_def Let_def)
next
  case True
  show ?thesis
  proof (cases "err")
    case True
    with assms(2,3) \<open>j = k\<close> show ?thesis
      by (auto simp: stream_def queue_of_def close_None)
  next
    case False
    let ?l = "if rd then handleRead kn k l else l"
    have acc: "accept_set ?l k = None" using assms(2) by (simp add: handleRead_accept)
    have eq: "apply_input (Event kn j err rd wr) l = (if wr then handleWrite kn k ?l else ?l)"
      using False \<open>j = k\<close> by simp
    have op: "connections l k = None" if "connections (if wr then handleWrite kn k ?l else ?l) k = None"
      using assms(3) that unfolding eq by blast
    have open1: "connections l k = None" if "connections ?l k = None"
      by (rule op) (use that in simp)
    have q: "stream k ?l = stream k l"
    proof (cases rd)
      case True
      have "queue_of k (handleRead kn k l) = queue_of k l"
        by (rule handleRead_queue) (use open1 True in simp)
      with True show ?thesis by (simp add: stream_def)
    qed simp
    have "stream k (if wr then handleWrite kn k ?l else ?l) = stream k ?l"
    proof (cases wr)
      case True
      have "connections ?l k = None" if "connections (handleWrite kn k ?l) k = None"
      proof -
        from that True have "connections l k = None" by (intro op) simp
        then show ?thesis by (simp add: handleRead_None)
      qed
      from handleWrite_stream [OF assms(1) acc this] True show ?thesis by simp
    qed simp
    with q eq show ?thesis by metis
  qed
qed

lemma run_inputs_stream:
  "kernels_ok ins \<Longrightarrow> stays_open k ins l \<Longrightarrow>
   stream k (run_inputs ins l) = stream k l @ submitted k ins"
proof (induction ins arbitrary: l)
  case Nil
  then show ?case by simp
next
  case (Cons i ins)
  show ?case
  proof (cases i)
    case (Task t)
    with Cons exec_task_stream [of t l k] show ?thesis by simp
  next
    case (Event kn j err rd wr)
    with Cons.prems have "stream k (apply_input i l) = stream k l"
      using apply_Event_stream [of kn l k j err rd wr] by (simp del: apply_Event)
    with Event Cons show ?thesis by (simp del: apply_Event)
  qed
qed

end
