(* ===== verification/Loop_Interest.thy ===== *)
theory Loop_Interest
  imports Loop_Writes
begin

text \<open>
  What the event loop keeps true of every descriptor: the byte count and the offsets of a
  connection, and that epoll watches it for exactly what its flags say. Then what happens to a
  connection that epoll does not watch any more.
\<close>

section \<open>Descriptors do not disturb each other\<close>

definition same_fd :: "fd \<Rightarrow> 'a loop \<Rightarrow> 'a loop \<Rightarrow> bool" where
  "same_fd k l l' \<longleftrightarrow> connections l' k = connections l k \<and> accept_set l' k = accept_set l k \<and>
     timer_fds l' k = timer_fds l k \<and> epoll l' k = epoll l k \<and> wire l' k = wire l k"

lemma same_fd_trans: "same_fd k l l' \<Longrightarrow> same_fd k l' l'' \<Longrightarrow> same_fd k l l''"
  by (simp add: same_fd_def)

lemma same_fd_refl [simp]: "same_fd k l l"
  by (simp add: same_fd_def)

lemma close_timers [simp]: "timer_fds (closeConnection j l) = timer_fds l"
  by (simp add: closeConnection_def loop_defs Let_def split: option.splits prod.splits)

lemma same_fd_close: "j \<noteq> k \<Longrightarrow> same_fd k l (closeConnection j l)"
  by (simp add: same_fd_def close_connections close_accept close_epoll)

lemma same_fd_read: "j \<noteq> k \<Longrightarrow> same_fd k l (handleRead kn j l)"
  by (simp add: same_fd_def handleRead_def handleAccept_def handleTimer_def loop_defs Let_def
      close_accept split: option.splits read_result.splits prod.splits)

lemma drained_water_frame [simp]:
  "accept_set (snd (queue_drained j c l)) = accept_set l" "timer_fds (snd (queue_drained j c l)) = timer_fds l"
  "accept_set (snd (low_water c l)) = accept_set l" "timer_fds (snd (low_water c l)) = timer_fds l"
  by (simp_all add: queue_drained_def low_water_def loop_defs Let_def split: option.splits)

lemma write_accept_timers:
  "j \<noteq> k \<Longrightarrow> accept_set (handleWrite kn j l) k = accept_set l k"
  "timer_fds (handleWrite kn j l) = timer_fds l"
  by (simp_all add: handleWrite_def put_conn_def case_prod_beta Let_def close_accept
      split: option.splits write_result.splits)

lemma same_fd_write: "j \<noteq> k \<Longrightarrow> same_fd k l (handleWrite kn j l)"
  by (simp add: same_fd_def write_accept_timers)

lemma same_fd_exec: "task_fd t \<noteq> Some k \<Longrightarrow> same_fd k l (exec_task t l)"
  by (cases t; simp add: same_fd_def do_defs loop_defs case_prod_beta Let_def high_water_def
      register_write_def write_connection_def close_accept split: option.splits)

lemma same_fd_event: "j \<noteq> k \<Longrightarrow> same_fd k l (apply_input (Event kn j err rd wr) l)"
  using same_fd_trans [OF same_fd_read same_fd_write]
  by (auto simp: Let_def same_fd_close same_fd_read same_fd_write)

section \<open>The invariant of a descriptor\<close>

definition conn_watched :: "fd \<Rightarrow> 'a connection \<Rightarrow> 'a loop \<Rightarrow> bool" where
  "conn_watched k c l \<longleftrightarrow> (\<forall>ev. epoll l k = Some ev \<longrightarrow> ev = (read_registered c, write_registered c))"

definition fd_inv :: "fd \<Rightarrow> 'a loop \<Rightarrow> bool" where
  "fd_inv k l \<longleftrightarrow>
     (case connections l k of
        None \<Rightarrow> accept_set l k = None \<and> timer_fds l k = None \<longrightarrow> epoll l k = None
      | Some c \<Rightarrow> accept_set l k = None \<and> timer_fds l k = None \<and> socket c = k \<and> conn_inv c \<and> conn_watched k c l)"

lemma fd_inv_same: "same_fd k l l' \<Longrightarrow> fd_inv k l' = fd_inv k l"
  by (simp add: same_fd_def fd_inv_def conn_watched_def split: option.splits)

lemma fd_inv_conn:
  "fd_inv k l \<Longrightarrow> connections l k = Some c \<Longrightarrow>
   accept_set l k = None \<and> timer_fds l k = None \<and> socket c = k \<and> conn_inv c \<and> conn_watched k c l"
  by (simp add: fd_inv_def)

lemma fd_inv_intro:
  "connections l k = Some c \<Longrightarrow> accept_set l k = None \<Longrightarrow> timer_fds l k = None \<Longrightarrow> socket c = k \<Longrightarrow>
   conn_inv c \<Longrightarrow> conn_watched k c l \<Longrightarrow> fd_inv k l"
  by (simp add: fd_inv_def)

lemma fd_inv_close: "fd_inv k l \<Longrightarrow> fd_inv k (closeConnection k l)"
  by (simp add: fd_inv_def close_connections close_accept close_epoll split: option.splits)

lemma conn_inv_read:
  "conn_inv c \<Longrightarrow> conn_inv (c\<lparr>read_buffer := b\<rparr>)"
  "conn_inv c \<Longrightarrow> conn_inv (c\<lparr>peer_closed := True, read_registered := False, write_registered := write_queue c \<noteq> []\<rparr>)"
  by (simp_all add: conn_inv_def)

lemma fd_inv_read:
  assumes inv: "fd_inv k l"
  shows "fd_inv k (handleRead kn k l)"
proof (cases rule: handleRead_cases [where kn = kn and k = k and l = l])
  case other
  show ?thesis
  proof (cases "accept_set l k = None \<and> timer_fds l k = None")
    case True
    with other(3) inv show ?thesis by simp
  next
    case False
    with inv have "connections l k = None" by (auto simp: fd_inv_def split: option.splits)
    with other(1,2) False show ?thesis
      by (auto simp: fd_inv_def handleRead_def handleTimer_def handleAccept_def loop_defs Let_def split: option.splits)
  qed
next
  case (data c xs b)
  have t: "timer_fds (handleRead kn k l) = timer_fds l"
    using data(1-3) by (simp add: handleRead_def loop_defs Let_def case_prod_beta
        split: read_result.splits option.splits)
  from fd_inv_conn [OF inv data(3)] data t show ?thesis
    by (simp add: fd_inv_def conn_watched_def conn_inv_read)
next
  case (eof c)
  have t: "timer_fds (handleRead kn k l) = timer_fds l"
    using eof(1-3) by (simp add: handleRead_def loop_defs Let_def case_prod_beta
        split: read_result.splits option.splits)
  have e: "ev = (False, write_queue c \<noteq> [])" if "epoll (handleRead kn k l) k = Some ev" for ev
    using that eof(7) by (auto simp: modifyEpollEvents_def split: if_splits)
  from fd_inv_conn [OF inv eof(3)] have "conn_inv (c\<lparr>peer_closed := True, read_registered := False, write_registered := write_queue c \<noteq> []\<rparr>)"
    "socket c = k" by (simp_all add: conn_inv_read)
  with eof(1,2,5,6) t e show ?thesis by (simp add: fd_inv_def conn_watched_def)
next
  case (failed c)
  with inv show ?thesis by (simp add: fd_inv_close)
qed

lemma fail_writes_conn [simp]:
  "fst (failAllPendingWrites c a) = (if write_queue c \<noteq> [] then c\<lparr>write_queue := [], queued_bytes := 0\<rparr> else c)"
  by (simp add: failAllPendingWrites_def)

lemma queue_drained_conn:
  "fst (queue_drained k c l) = (if write_queue c = [] then c\<lparr>write_registered := False\<rparr> else c)"
  by (simp add: queue_drained_def Let_def)

lemma queue_drained_epoll:
  "epoll (snd (queue_drained k c l)) k =
     (if write_queue c \<noteq> [] then epoll l k
      else if peer_closed c \<or> \<not> read_registered c then None
      else map_option (\<lambda>_. (True, False)) (epoll l k))"
  by (auto simp: queue_drained_def loop_defs Let_def)

lemma low_water_conn:
  "\<exists>b. fst (low_water c l) = c\<lparr>high_level_callback_set := b\<rparr>"
  by (auto simp: low_water_def split: option.splits intro: exI [of _ "high_level_callback_set c"] exI [of _ False])

lemma high_water_conn:
  "\<exists>b. fst (high_water c l) = c\<lparr>high_level_callback_set := b\<rparr>"
  by (auto simp: high_water_def split: option.splits intro: exI [of _ "high_level_callback_set c"] exI [of _ True])

lemma conn_inv_flag [simp]: "conn_inv (c\<lparr>high_level_callback_set := b\<rparr>) = conn_inv c"
  by (simp add: conn_inv_def)

lemma conn_inv_sent:
  assumes "conn_inv c" and "n \<le> length (pending (write_queue c))"
  shows "conn_inv (fst (queue_drained k
    ((account_sent n c)\<lparr>write_queue := fst (complete_writes n (write_queue c) a)\<rparr>) l))"
proof -
  let ?q = "fst (complete_writes n (write_queue c) a)"
  have "pending ?q = drop n (pending (write_queue c))" using assms(2) by (rule complete_writes_pending)
  moreover have "queued_bytes (account_sent n c) = int (length (pending (write_queue c)) - n)"
    using assms by (intro account_sent_exact) (simp_all add: conn_inv_def)
  moreover have "\<forall>m \<in> set ?q. offset m \<le> length (wbuffer m)"
    using assms(1) by (intro complete_writes_offsets) (simp add: conn_inv_def)
  moreover have "write_queue c \<noteq> [] \<or> ?q = []" by (cases "write_queue c") simp_all
  ultimately show ?thesis
    using assms by (auto simp: conn_inv_def queue_drained_conn)
qed

lemma fd_inv_write:
  assumes inv: "fd_inv k l" and "kernel_ok kn"
  shows "fd_inv k (handleWrite kn k l)"
proof (cases "connections l k")
  case None
  with inv show ?thesis by simp
next
  case (Some c)
  note ci = fd_inv_conn [OF inv Some]
  from Some show ?thesis
  proof (cases rule: handleWrite_cases [where kn = kn])
    case failed
    have "connections (handleWrite kn k l) k = None" "epoll (handleWrite kn k l) k = None"
      using ci by (simp_all add: failed(2) put_conn_def close_connections close_epoll)
    then show ?thesis by (simp add: fd_inv_def)
  next
    case (wrote n c1 l1)
    have "n \<le> length (concat (iovecs (write_queue c)))"
      using assms(2) wrote(1) by (simp add: kernel_ok_def)
    then have n: "n \<le> length (pending (write_queue c))" using iovecs_length le_trans by blast
    let ?c = "fst (queue_drained k c1 l1)" and ?l = "snd (queue_drained k c1 l1)"
    obtain b where b: "fst (low_water ?c ?l) = ?c\<lparr>high_level_callback_set := b\<rparr>"
      using low_water_conn by blast
    have "conn_inv ?c" unfolding wrote(3) using ci n by (intro conn_inv_sent) simp_all
    moreover have "epoll l1 k = epoll l k" by (simp add: wrote(4))
    then have "conn_watched k ?c ?l" using ci
      by (auto simp: conn_watched_def queue_drained_epoll queue_drained_conn wrote(3))
    moreover have "socket ?c = k" using ci by (simp add: queue_drained_conn wrote(3))
    moreover have "accept_set ?l = accept_set l" "timer_fds ?l = timer_fds l" by (simp_all add: wrote(4))
    ultimately show ?thesis using ci
      by (simp add: fd_inv_def wrote(5) b put_conn_def conn_watched_def)
  qed (use inv in simp_all)
qed

text \<open>The tasks a client may post: a descriptor is a connection, a listening socket or a timer, and
  a connection never has two gigabytes pending.\<close>

definition task_fits :: "'a task \<Rightarrow> 'a loop \<Rightarrow> bool" where
  "task_fits t l \<longleftrightarrow>
     (case task_fd t of
        None \<Rightarrow> True
      | Some k \<Rightarrow>
          (case t of
             RegisterAccept j cb \<Rightarrow> connections l k = None \<and> timer_fds l k = None
           | CloseSocket j \<Rightarrow> True
           | _ \<Rightarrow> accept_set l k = None \<and> timer_fds l k = None) \<and>
          length (pending (queue_of k l)) + length (task_bytes k t) < 2 ^ 31)"

lemma conn_inv_new [simp]: "conn_inv (new_connection k cb)" "conn_inv ((new_connection k cb)\<lparr>read_registered := True\<rparr>)"
  "conn_inv ((new_connection k cb)\<lparr>write_registered := True\<rparr>)"
  by (simp_all add: conn_inv_def new_connection_def)

lemma new_connection_fields [simp]:
  "socket (new_connection k cb) = k" "read_registered (new_connection k cb) = False"
  "write_registered (new_connection k cb) = False" "write_queue (new_connection k cb) = []"
  "peer_closed (new_connection k cb) = False"
  by (simp_all add: new_connection_def)

lemma register_write_conn:
  "fst (register_write k c l) = c\<lparr>write_registered := True\<rparr>"
  "epoll (snd (register_write k c l)) k =
     (if write_registered c then epoll l k else map_option (\<lambda>_. (read_registered c, True)) (epoll l k))"
  by (auto simp: register_write_def loop_defs)

lemma write_connection_inv:
  assumes "fd_inv k l" and "accept_set l k = None" and "timer_fds l k = None"
  shows "conn_inv (fst (write_connection k l))" "conn_watched k (fst (write_connection k l)) (snd (write_connection k l))"
    "socket (fst (write_connection k l)) = k" "accept_set (snd (write_connection k l)) k = None"
    "timer_fds (snd (write_connection k l)) k = None"
  using assms
  by (auto simp: write_connection_def fd_inv_def conn_watched_def loop_defs Let_def split: option.splits)

lemma submit_inv:
  assumes "conn_inv c" and "conn_watched k c l" and "socket c = k" and "accept_set l k = None" and "timer_fds l k = None"
    and "write_queue c' = write_queue c @ ms" and "\<forall>m \<in> set ms. offset m \<le> length (wbuffer m)"
    and "queued_bytes c' = int (length (pending (write_queue c')))" and "length (pending (write_queue c')) < 2 ^ 31"
    and "socket c' = socket c" and "read_registered c' = read_registered c"
    and "write_registered c' = write_registered c" and "peer_closed c' = peer_closed c"
  shows "fd_inv k (put_conn k (fst (register_write k (fst (high_water c' l)) (snd (high_water c' l))))
    (snd (register_write k (fst (high_water c' l)) (snd (high_water c' l)))))"
proof -
  obtain b where b: "fst (high_water c' l) = c'\<lparr>high_level_callback_set := b\<rparr>"
    using high_water_conn by blast
  let ?l = "snd (high_water c' l)"
  have "accept_set (snd (register_write k d ?l)) = accept_set l" "timer_fds (snd (register_write k d ?l)) = timer_fds l" for d
    by (simp_all add: register_write_def loop_defs high_water_def Let_def split: option.splits)
  moreover have "conn_inv (c'\<lparr>high_level_callback_set := b, write_registered := True\<rparr>)"
    using assms by (auto simp: conn_inv_def)
  moreover have "ev = (read_registered c', True)"
    if "epoll (snd (register_write k (c'\<lparr>high_level_callback_set := b\<rparr>) ?l)) k = Some ev" for ev
    using that assms(2,11,12) by (cases ev) (auto simp: register_write_conn conn_watched_def split: if_splits)
  ultimately show ?thesis
    using assms by (simp add: fd_inv_def b put_conn_def register_write_conn conn_watched_def)
qed

lemma task_fits_conn:
  assumes "task_fits t l" and "task_fd t = Some k" and "\<forall>cb. t \<noteq> RegisterAccept k cb" and "t \<noteq> CloseSocket k"
  shows "accept_set l k = None" and "timer_fds l k = None"
  using assms by (auto simp: task_fits_def split: task.splits)

lemma fd_inv_exec:
  assumes inv: "fd_inv k l" and fits: "task_fits t l" and fd: "task_fd t = Some k"
  shows "fd_inv k (exec_task t l)"
proof (cases t)
  case (RegisterAccept j cb)
  with fits fd inv show ?thesis
    by (auto simp: task_fits_def doRegisterAccept_def fd_inv_def epoll_add_def split: option.splits)
next
  case (RegisterRead j cb)
  then have j: "j = k" and free: "accept_set l k = None" "timer_fds l k = None"
    using task_fits_conn [OF fits fd] fd by simp_all
  show ?thesis
  proof (cases "connections l k")
    case None
    with inv free have "epoll l k = None" by (simp add: fd_inv_def)
    with None free RegisterRead j show ?thesis
      by (simp add: fd_inv_def doRegisterRead_def loop_defs conn_watched_def)
  next
    case (Some c)
    note ci = fd_inv_conn [OF inv Some]
    have "conn_inv (c\<lparr>read_cb := cb\<rparr>)" "\<not> peer_closed c \<Longrightarrow> conn_inv (c\<lparr>read_cb := cb, read_registered := True\<rparr>)"
      using ci by (simp_all add: conn_inv_def)
    with ci Some RegisterRead j show ?thesis
      by (auto simp: fd_inv_def doRegisterRead_def loop_defs conn_watched_def Let_def)
  qed
next
  case (WriteOnce j cb buf)
  then have j: "j = k" and free: "accept_set l k = None" "timer_fds l k = None"
    using task_fits_conn [OF fits fd] fd by simp_all
  let ?c = "fst (write_connection k l)"
  note w = write_connection_inv [OF inv free]
  have len: "length (pending (write_queue ?c)) + length buf < 2 ^ 31"
    using fits fd WriteOnce j by (simp add: task_fits_def)
  have "queued_bytes ?c = int (length (pending (write_queue ?c)))" using w(1) by (simp add: conn_inv_def)
  from enqueue_write_inv [OF this len, of cb] len
  have "queued_bytes (enqueue_write cb buf ?c) = int (length (pending (write_queue (enqueue_write cb buf ?c))))"
    "length (pending (write_queue (enqueue_write cb buf ?c))) < 2 ^ 31" by simp_all
  then have "fd_inv k (doAsyncWriteOnce k cb buf l)"
    unfolding doAsyncWriteOnce_def case_prod_beta Let_def
    by (intro submit_inv [OF w, where ms = "[\<lparr>wbuffer = buf, offset = 0, callback = cb\<rparr>]"]) simp_all
  with WriteOnce j show ?thesis by simp
next
  case (WriteBatch j cbs bufs)
  then have j: "j = k" and free: "accept_set l k = None" "timer_fds l k = None"
    using task_fits_conn [OF fits fd] fd by simp_all
  let ?c = "fst (write_connection k l)"
  note w = write_connection_inv [OF inv free]
  have len: "length (pending (write_queue ?c)) + length (concat bufs) < 2 ^ 31"
    using fits fd WriteBatch j by (simp add: task_fits_def)
  have "queued_bytes ?c = int (length (pending (write_queue ?c)))" using w(1) by (simp add: conn_inv_def)
  then have "queued_bytes (enqueue_batch cbs 0 bufs ?c) = int (length (pending (write_queue (enqueue_batch cbs 0 bufs ?c))))"
    using len by (rule enqueue_batch_inv)
  moreover have "length (pending (write_queue (enqueue_batch cbs 0 bufs ?c))) < 2 ^ 31"
    using len by simp
  moreover have "\<forall>m \<in> set (batch_metas cbs 0 bufs). offset m \<le> length (wbuffer m)"
    by (auto simp: batch_metas_def)
  ultimately have "fd_inv k (doAsyncWriteBatch k cbs bufs l)"
    unfolding doAsyncWriteBatch_def case_prod_beta Let_def
    by (intro submit_inv [OF w, where ms = "batch_metas cbs 0 bufs"]) simp_all
  with WriteBatch j show ?thesis by simp
next
  case (CloseSocket j)
  with fd inv show ?thesis by (simp add: doClose_def fd_inv_close)
qed (use assms in \<open>auto simp: fd_inv_def do_defs put_conn_def conn_watched_def conn_inv_def split: option.splits\<close>)

lemma fd_inv_event:
  assumes "fd_inv k l" and "kernel_ok kn"
  shows "fd_inv k (apply_input (Event kn k err rd wr) l)"
  using assms by (simp add: fd_inv_close fd_inv_read fd_inv_write Let_def)

fun input_fits :: "'a input \<Rightarrow> 'a loop \<Rightarrow> bool" where
  "input_fits (Task t) l \<longleftrightarrow> task_fits t l"
| "input_fits (Event kn k err rd wr) l \<longleftrightarrow> kernel_ok kn"

lemma fd_inv_apply:
  assumes "fd_inv k l" and "input_fits i l"
  shows "fd_inv k (apply_input i l)"
proof (cases i)
  case (Task t)
  with assms show ?thesis
    using fd_inv_exec [of k l t] fd_inv_same [OF same_fd_exec [of t k l]]
    by (cases "task_fd t = Some k") simp_all
next
  case (Event kn j err rd wr)
  with assms show ?thesis
    using fd_inv_event [of k l kn err rd wr] fd_inv_same [OF same_fd_event [of j k l kn err rd wr]]
    by (cases "j = k") (simp_all del: apply_Event)
qed

fun inputs_fit :: "'a input list \<Rightarrow> 'a loop \<Rightarrow> bool" where
  "inputs_fit [] l \<longleftrightarrow> True"
| "inputs_fit (i # ins) l \<longleftrightarrow> input_fits i l \<and> inputs_fit ins (apply_input i l)"

lemma fd_inv_run: "inputs_fit ins l \<Longrightarrow> fd_inv k l \<Longrightarrow> fd_inv k (run_inputs ins l)"
  by (induction ins arbitrary: l) (simp_all add: fd_inv_apply)

lemma fd_inv_new: "fd_inv k (new_loop t a)"
  by (simp add: fd_inv_def new_loop_def)

section \<open>Unwatched connections\<close>

text \<open>Once epoll does not watch a connection, no task but closing makes it watched again.\<close>

definition unwatched :: "fd \<Rightarrow> 'a loop \<Rightarrow> bool" where
  "unwatched k l \<longleftrightarrow> connections l k \<noteq> None \<and> epoll l k = None \<and> accept_set l k = None"

fun leaves_alone :: "fd \<Rightarrow> 'a input \<Rightarrow> bool" where
  "leaves_alone k (Task t) \<longleftrightarrow> t \<noteq> CloseSocket k \<and> (\<forall>cb. t \<noteq> RegisterAccept k cb)"
| "leaves_alone k (Event kn j err rd wr) \<longleftrightarrow> j \<noteq> k"

lemma unwatched_same: "same_fd k l l' \<Longrightarrow> unwatched k l \<Longrightarrow> unwatched k l' \<and> wire l' k = wire l k"
  by (simp add: same_fd_def unwatched_def)

lemma high_water_loop [simp]: "accept_set (snd (high_water c l)) = accept_set l"
  by (simp add: high_water_def call_def split: option.splits)

lemma register_write_loop [simp]: "accept_set (snd (register_write k c l)) = accept_set l"
  by (simp add: register_write_def loop_defs)

lemma unwatched_exec:
  assumes "unwatched k l" and "leaves_alone k (Task t)"
  shows "unwatched k (exec_task t l) \<and> wire (exec_task t l) k = wire l k"
proof (cases "task_fd t = Some k")
  case False
  then show ?thesis using unwatched_same [OF same_fd_exec] assms(1) by blast
next
  case True
  with assms obtain c where "connections l k = Some c" "epoll l k = None" "accept_set l k = None"
    by (auto simp: unwatched_def)
  then have "write_connection k l = (c, l)" by (simp add: write_connection_def)
  with True assms \<open>connections l k = Some c\<close> show ?thesis
    by (cases t) (auto simp: unwatched_def do_defs put_conn_def modifyEpollEvents_def case_prod_beta Let_def
        register_write_conn)
qed

lemma unwatched_run:
  assumes "unwatched k l" and "list_all (leaves_alone k) ins"
  shows "unwatched k (run_inputs ins l) \<and> wire (run_inputs ins l) k = wire l k"
  using assms
proof (induction ins arbitrary: l)
  case Nil
  then show ?case by simp
next
  case (Cons i ins)
  have "unwatched k (apply_input i l) \<and> wire (apply_input i l) k = wire l k"
  proof (cases i)
    case (Task t)
    with Cons.prems unwatched_exec [of k l t] show ?thesis by simp
  next
    case (Event kn j err rd wr)
    with Cons.prems have "j \<noteq> k" "unwatched k l" by simp_all
    with unwatched_same [OF same_fd_event [of j k l kn err rd wr]] Event show ?thesis
      by (simp del: apply_Event)
  qed
  with Cons show ?case by simp
qed

text \<open>Two ways into that state: the peer closes its side while nothing is pending, and the queue of a
  connection that was never registered for reading runs empty.\<close>

lemma eof_unwatched:
  assumes "connections l k = Some c" and "accept_set l k = None" and "timer_fds l k = None"
    and "write_queue c = []" and "k_read kn (sb_size (read_buffer c) - data_size (read_buffer c)) = ReadEof"
  shows "unwatched k (handleRead kn k l)"
  using assms by (simp add: unwatched_def handleRead_def loop_defs Let_def split: option.splits)

lemma drained_unwatched:
  assumes "connections l k = Some c" and "accept_set l k = None" and "\<not> read_registered c"
    and "k_writev kn (iovecs (write_queue c)) = Wrote (length (pending (write_queue c)))"
    and "iovecs (write_queue c) \<noteq> []"
    and "fst (complete_writes (length (pending (write_queue c))) (write_queue c) (app l)) = []"
  shows "unwatched k (handleWrite kn k l)"
  using assms(1)
proof (cases rule: handleWrite_cases [where kn = kn])
  case (wrote n c1 l1)
  with assms have "write_queue c1 = []" "\<not> read_registered c1" "accept_set l1 k = None" by simp_all
  then show ?thesis
    by (simp add: unwatched_def wrote(5) put_conn_def queue_drained_epoll)
qed (use assms in simp_all)

end
