(* ===== verification/Loop_Reading.thy ===== *)
theory Loop_Reading
  imports Loop_Interest
begin

text \<open>
  The read path of the event loop: the receive buffer is always the unconsumed bytes followed by
  zeros, a read callback sees them with the new bytes behind, and what it does not consume is kept
  in order. Then the tasks of the loop: what a drained queue has executed.
\<close>

section \<open>The receive buffer\<close>

definition buffer_ok :: "simple_buffer \<Rightarrow> bool" where
  "buffer_ok b \<longleftrightarrow> sb_size b = buffer_size \<and> data_size b \<le> buffer_size \<and>
     drop (data_size b) (bytes b) = replicate (buffer_size - data_size b) 0"

definition unread :: "simple_buffer \<Rightarrow> byte list" where
  "unread b = take (data_size b) (bytes b)"

lemma buffer_ok_bytes: "buffer_ok b \<Longrightarrow> bytes b = unread b @ replicate (buffer_size - data_size b) 0"
  by (metis append_take_drop_id buffer_ok_def unread_def)

lemma length_unread: "buffer_ok b \<Longrightarrow> length (unread b) = data_size b"
  by (simp add: buffer_ok_def unread_def sb_size_def)

lemma buffer_ok_clear: "sb_size b = buffer_size \<Longrightarrow> buffer_ok (sb_clear b)"
  by (simp add: buffer_ok_def sb_clear_def sb_size_def)

lemma unread_clear [simp]: "unread (sb_clear b) = []"
  by (simp add: unread_def sb_clear_def)

lemma sb_size_fill:
  "data_size b + length xs \<le> sb_size b \<Longrightarrow> sb_size (sb_fill xs b) = sb_size b"
  by (simp add: sb_fill_def sb_size_def)

lemma fill_ok:
  assumes "buffer_ok b" and "data_size b + length xs \<le> buffer_size"
  shows "buffer_ok (sb_fill xs b\<lparr>data_size := data_size b + length xs\<rparr>)"
    and "unread (sb_fill xs b\<lparr>data_size := data_size b + length xs\<rparr>) = unread b @ xs"
proof -
  let ?n = "buffer_size - data_size b"
  have len: "length (unread b) = data_size b" using assms(1) by (rule length_unread)
  have "drop (data_size b + length xs) (bytes b) = replicate (buffer_size - (data_size b + length xs)) 0"
    using len by (subst buffer_ok_bytes [OF assms(1)]) (simp add: drop_replicate)
  then have b: "bytes (sb_fill xs b) = unread b @ xs @ replicate (buffer_size - (data_size b + length xs)) 0"
    by (simp add: sb_fill_def unread_def)
  show "buffer_ok (sb_fill xs b\<lparr>data_size := data_size b + length xs\<rparr>)"
    using assms(2) len by (simp add: buffer_ok_def b sb_size_def)
  show "unread (sb_fill xs b\<lparr>data_size := data_size b + length xs\<rparr>) = unread b @ xs"
    using len by (simp add: unread_def b)
qed

lemma read_ok:
  assumes "buffer_ok b"
  shows "buffer_ok (sb_read n b)" and "unread (sb_read n b) = drop n (unread b)"
proof -
  have len: "length (unread b) = data_size b" using assms by (rule length_unread)
  have "buffer_ok (sb_read n b) \<and> unread (sb_read n b) = drop n (unread b)"
  proof (cases "data_size b \<le> n")
    case True
    moreover have "sb_size b = buffer_size" using assms by (simp add: buffer_ok_def)
    ultimately show ?thesis using len by (simp add: sb_read_def buffer_ok_clear)
  next
    case False
    have "take (data_size b - n) (drop n (bytes b)) = drop n (unread b)"
      by (simp add: unread_def drop_take)
    with False assms len show ?thesis
      by (auto simp: sb_read_def Let_def buffer_ok_def sb_size_def unread_def)
  qed
  then show "buffer_ok (sb_read n b)" and "unread (sb_read n b) = drop n (unread b)" by simp_all
qed

lemma buffer_ok_new: "buffer_ok (read_buffer (new_connection k cb))" "unread (read_buffer (new_connection k cb)) = []"
  by (simp_all add: buffer_ok_def new_connection_def sb_resize_def sb_size_def unread_def)

section \<open>A readable event\<close>

text \<open>What the callback is shown, what it leaves, and what it does to the application.\<close>

lemma handleRead_data:
  assumes "accept_set l k = None" and "timer_fds l k = None" and "connections l k = Some c"
    and "buffer_ok (read_buffer c)" and "kernel_ok kn" and "read_cb c = Some f"
    and "k_read kn (buffer_size - data_size (read_buffer c)) = ReadData xs"
  defines "got \<equiv> unread (read_buffer c) @ xs"
  defines "res \<equiv> f (got @ replicate (buffer_size - length got) 0) (length got) (app l)"
  shows "length got \<le> buffer_size"
    and "\<exists>b. connections (handleRead kn k l) = (connections l)(k \<mapsto> c\<lparr>read_buffer := b\<rparr>) \<and>
      buffer_ok b \<and> unread b = drop (fst res) got"
    and "app (handleRead kn k l) = snd res"
proof -
  let ?b = "sb_fill xs (read_buffer c)\<lparr>data_size := data_size (read_buffer c) + length xs\<rparr>"
  have len: "length (unread (read_buffer c)) = data_size (read_buffer c)" using assms(4) by (rule length_unread)
  have xs: "length xs \<le> buffer_size - data_size (read_buffer c)" using assms(5,7) by (simp add: kernel_ok_def)
  have le: "data_size (read_buffer c) \<le> buffer_size" using assms(4) by (simp add: buffer_ok_def)
  with xs have fits: "data_size (read_buffer c) + length xs \<le> buffer_size" by simp
  then show "length got \<le> buffer_size" by (simp add: got_def len)
  note b = fill_ok [OF assms(4) fits]
  have size: "sb_size (read_buffer c) = buffer_size" using assms(4) by (simp add: buffer_ok_def)
  have bytes: "bytes ?b = got @ replicate (buffer_size - length got) 0"
    using buffer_ok_bytes [OF b(1)] b(2) len by (simp add: got_def)
  have res: "f (bytes ?b) (data_size (read_buffer c) + length xs) (app l) = res"
    unfolding bytes res_def by (simp add: got_def len)
  have ds: "data_size (sb_fill xs (read_buffer c)) = data_size (read_buffer c)" by (simp add: sb_fill_def)
  have step: "handleRead kn k l = put_conn k (c\<lparr>read_buffer :=
      sb_read (if fst res > data_size ?b then data_size ?b else fst res) ?b\<rparr>) (l\<lparr>app := snd res\<rparr>)"
    using res by (simp add: handleRead_def assms(1,2,3,6,7) size ds Let_def case_prod_beta)
  let ?n = "if fst res > data_size ?b then data_size ?b else fst res"
  have "unread (sb_read ?n ?b) = drop (fst res) got"
    using b(2) length_unread [OF b(1)] by (simp add: read_ok(2) [OF b(1)] got_def [symmetric])
  then show "\<exists>b. connections (handleRead kn k l) = (connections l)(k \<mapsto> c\<lparr>read_buffer := b\<rparr>) \<and>
      buffer_ok b \<and> unread b = drop (fst res) got"
    using read_ok(1) [OF b(1), of ?n] by (intro exI [of _ "sb_read ?n ?b"]) (simp add: step put_conn_def)
  show "app (handleRead kn k l) = snd res" by (simp add: step put_conn_def)
qed

section \<open>Every connection's buffer, always\<close>

definition buffers_ok :: "'a loop \<Rightarrow> bool" where
  "buffers_ok l \<longleftrightarrow> (\<forall>k c. connections l k = Some c \<longrightarrow> buffer_ok (read_buffer c))"

lemma buffers_ok_put: "buffers_ok l \<Longrightarrow> buffer_ok (read_buffer c) \<Longrightarrow> connections l' = (connections l)(k \<mapsto> c) \<Longrightarrow> buffers_ok l'"
  by (auto simp: buffers_ok_def)

lemma buffers_ok_same: "buffers_ok l \<Longrightarrow> connections l' = connections l \<Longrightarrow> buffers_ok l'"
  by (simp add: buffers_ok_def)

lemma buffers_ok_close: "buffers_ok l \<Longrightarrow> buffers_ok (closeConnection k l)"
  by (auto simp: buffers_ok_def close_connections split: if_splits)

lemma buffers_ok_read:
  assumes ok: "buffers_ok l" and kn: "kernel_ok kn"
  shows "buffers_ok (handleRead kn k l)"
proof (cases rule: handleRead_cases [where kn = kn and k = k and l = l])
  case other
  with ok show ?thesis by (blast intro: buffers_ok_same)
next
  case (data c xs b)
  have c: "buffer_ok (read_buffer c)" using ok data(3) by (simp add: buffers_ok_def)
  then have k: "k_read kn (buffer_size - data_size (read_buffer c)) = ReadData xs"
    using data(4) by (simp add: buffer_ok_def)
  show ?thesis
  proof (cases "read_cb c")
    case None
    have "length xs \<le> buffer_size - data_size (read_buffer c)" using kn k by (simp add: kernel_ok_def)
    with c have "sb_size (sb_fill xs (read_buffer c)) = buffer_size"
      by (subst sb_size_fill) (auto simp: buffer_ok_def)
    then have "buffer_ok (sb_clear (sb_fill xs (read_buffer c)))" by (rule buffer_ok_clear)
    moreover have "connections (handleRead kn k l) = (connections l)(k \<mapsto>
        c\<lparr>read_buffer := sb_clear (sb_fill xs (read_buffer c))\<rparr>)"
      using data(1-4) None by (simp add: handleRead_def put_conn_def)
    ultimately show ?thesis by (intro buffers_ok_put [OF ok]) simp_all
  next
    case (Some f)
    from handleRead_data(2) [OF data(1-3) c kn Some k] obtain b' where
      "connections (handleRead kn k l) = (connections l)(k \<mapsto> c\<lparr>read_buffer := b'\<rparr>)" "buffer_ok b'" by blast
    then show ?thesis by (intro buffers_ok_put [OF ok]) simp_all
  qed
next
  case (eof c)
  then show ?thesis using ok by (intro buffers_ok_put [OF ok _ eof(5)]) (simp add: buffers_ok_def)
next
  case (failed c)
  with ok show ?thesis by (simp add: buffers_ok_close)
qed

lemma buffers_ok_write:
  assumes ok: "buffers_ok l"
  shows "buffers_ok (handleWrite kn k l)"
proof (cases "connections l k")
  case None
  with ok show ?thesis by simp
next
  case (Some c)
  then have c: "buffer_ok (read_buffer c)" using ok by (simp add: buffers_ok_def)
  from Some show ?thesis
  proof (cases rule: handleWrite_cases [where kn = kn])
    case failed
    have "buffers_ok (put_conn k (fst (failAllPendingWrites c (app l))) (l\<lparr>app := snd (failAllPendingWrites c (app l))\<rparr>))"
      using c by (intro buffers_ok_put [OF ok]) (simp_all add: put_conn_def)
    then show ?thesis unfolding failed(2) by (rule buffers_ok_close)
  next
    case (wrote n c1 l1)
    obtain b where "fst (low_water (fst (queue_drained k c1 l1)) (snd (queue_drained k c1 l1))) =
        (fst (queue_drained k c1 l1))\<lparr>high_level_callback_set := b\<rparr>" using low_water_conn by blast
    moreover have "connections l1 = connections l" by (simp add: wrote(4))
    ultimately show ?thesis
      using c by (intro buffers_ok_put [OF ok]) (simp_all add: wrote(3,5) put_conn_def queue_drained_conn)
  qed (use ok in simp_all)
qed

lemma enqueue_batch_buffer [simp]: "read_buffer (enqueue_batch cbs i bufs c) = read_buffer c"
  by (induction bufs arbitrary: i c) simp_all

lemma buffers_ok_submit:
  assumes ok: "buffers_ok l" and l': "l' = put_conn j
      (fst (register_write j (fst (high_water c (snd (write_connection j l)))) (snd (high_water c (snd (write_connection j l))))))
      (snd (register_write j (fst (high_water c (snd (write_connection j l)))) (snd (high_water c (snd (write_connection j l))))))"
    and c: "read_buffer c = read_buffer (fst (write_connection j l))"
  shows "buffers_ok l'"
proof (rule buffers_ok_put [OF ok])
  let ?L = "snd (write_connection j l)"
  have upd: "(connections (snd (write_connection j l)))(j \<mapsto> d) = (connections l)(j \<mapsto> d)" for d
    by (simp add: write_connection_def loop_defs Let_def split: option.splits)
  show "connections l' = (connections l)(j \<mapsto> fst (register_write j (fst (high_water c ?L)) (snd (high_water c ?L))))"
    by (simp add: l' put_conn_def upd)
  obtain b where "fst (high_water c ?L) = c\<lparr>high_level_callback_set := b\<rparr>" using high_water_conn by blast
  moreover have "buffer_ok (read_buffer (fst (write_connection j l)))"
    using ok by (auto simp: write_connection_def Let_def buffers_ok_def buffer_ok_new split: option.splits)
  ultimately show "buffer_ok (read_buffer (fst (register_write j (fst (high_water c ?L)) (snd (high_water c ?L)))))"
    by (simp add: register_write_conn c)
qed

lemma buffers_ok_exec:
  assumes ok: "buffers_ok l"
  shows "buffers_ok (exec_task t l)"
proof (cases t)
  case (WriteOnce j cb buf)
  show ?thesis
    by (rule buffers_ok_submit [OF ok, where j = j and c = "enqueue_write cb buf (fst (write_connection j l))"])
      (simp_all add: WriteOnce doAsyncWriteOnce_def case_prod_beta Let_def)
next
  case (WriteBatch j cbs bufs)
  show ?thesis
    by (rule buffers_ok_submit [OF ok, where j = j and c = "enqueue_batch cbs 0 bufs (fst (write_connection j l))"])
      (simp_all add: WriteBatch doAsyncWriteBatch_def case_prod_beta Let_def)
next
  case (CloseSocket j)
  with ok show ?thesis by (simp add: doClose_def buffers_ok_close)
qed (use ok in \<open>auto simp: do_defs loop_defs Let_def buffers_ok_close buffers_ok_def buffer_ok_new split: option.splits if_splits\<close>)

lemma buffers_ok_apply:
  assumes "buffers_ok l" and "input_fits i l"
  shows "buffers_ok (apply_input i l)"
proof (cases i)
  case (Task t)
  with assms buffers_ok_exec show ?thesis by simp
next
  case (Event kn j err rd wr)
  with assms show ?thesis by (simp add: buffers_ok_close buffers_ok_read buffers_ok_write Let_def)
qed

lemma buffers_ok_run: "buffers_ok l \<Longrightarrow> inputs_fit ins l \<Longrightarrow> buffers_ok (run_inputs ins l)"
  by (induction ins arbitrary: l) (simp_all add: buffers_ok_apply)

lemma buffers_ok_new_loop: "buffers_ok (new_loop t a)"
  by (simp add: buffers_ok_def new_loop_def)

text \<open>A kernel with some bytes to read and nothing to write.\<close>

definition read_kernel :: "byte list \<Rightarrow> kernel" where
  "read_kernel xs = \<lparr>k_read = (\<lambda>n. if n = 0 then ReadEof else if take n xs = [] then ReadAgain else ReadData (take n xs)),
     k_writev = (\<lambda>_. WriteAgain), k_accept = None\<rparr>"

lemma kernel_ok_read [simp]: "kernel_ok (read_kernel xs)"
  by (auto simp: kernel_ok_def read_kernel_def split: if_splits)

text \<open>A run of readable events, one piece of the stream each.\<close>

definition read_pieces :: "fd \<Rightarrow> byte list list \<Rightarrow> 'a loop \<Rightarrow> 'a loop" where
  "read_pieces k xss l = fold (\<lambda>xs. handleRead (read_kernel xs) k) xss l"

lemma handleRead_timers:
  "accept_set l k = None \<Longrightarrow> timer_fds l k = None \<Longrightarrow> timer_fds (handleRead kn k l) k = None"
  by (simp add: handleRead_def loop_defs Let_def case_prod_beta split: option.splits read_result.splits)

section \<open>A full buffer\<close>

text \<open>POSIX: a read of no bytes returns 0, which is also how the end of the stream is reported.\<close>

lemma full_buffer_eof:
  assumes "accept_set l k = None" and "timer_fds l k = None" and "connections l k = Some c"
    and "buffer_ok (read_buffer c)" and "data_size (read_buffer c) = buffer_size" and "k_read kn 0 = ReadEof"
  shows "\<exists>c'. connections (handleRead kn k l) k = Some c' \<and> peer_closed c' \<and> \<not> read_registered c' \<and>
    unread (read_buffer c') = unread (read_buffer c)"
proof -
  have "k_read kn (sb_size (read_buffer c) - data_size (read_buffer c)) = ReadEof"
    using assms(4-6) by (simp add: buffer_ok_def)
  with assms(1-3) show ?thesis
    by (simp add: handleRead_def loop_defs Let_def split: option.splits)
qed

section \<open>The task queue\<close>

lemma exec_task_queue: "exec_task t (l\<lparr>task_queue := q\<rparr>) = (exec_task t l)\<lparr>task_queue := q\<rparr>"
proof -
  have close: "closeConnection k (l\<lparr>task_queue := q\<rparr>) = (closeConnection k l)\<lparr>task_queue := q\<rparr>" for k
    by (simp add: closeConnection_def loop_defs Let_def case_prod_beta split: option.splits)
  have wc: "fst (write_connection k (l\<lparr>task_queue := q\<rparr>)) = fst (write_connection k l)"
    "snd (write_connection k (l\<lparr>task_queue := q\<rparr>)) = (snd (write_connection k l))\<lparr>task_queue := q\<rparr>" for k
    by (simp_all add: write_connection_def loop_defs Let_def split: option.splits)
  have hw: "fst (high_water c (m\<lparr>task_queue := q\<rparr>)) = fst (high_water c m)"
    "snd (high_water c (m\<lparr>task_queue := q\<rparr>)) = (snd (high_water c m))\<lparr>task_queue := q\<rparr>" for c and m :: "'a loop"
    by (simp_all add: high_water_def call_def split: option.splits)
  have rw: "fst (register_write k c (m\<lparr>task_queue := q\<rparr>)) = fst (register_write k c m)"
    "snd (register_write k c (m\<lparr>task_queue := q\<rparr>)) = (snd (register_write k c m))\<lparr>task_queue := q\<rparr>" for k c and m :: "'a loop"
    by (simp_all add: register_write_def loop_defs)
  show ?thesis
    by (cases t) (simp_all add: do_defs close wc hw rw case_prod_beta Let_def, simp_all add: loop_defs Let_def split: option.splits)
qed

lemma fold_exec_queue: "fold exec_task ts (l\<lparr>task_queue := q\<rparr>) = (fold exec_task ts l)\<lparr>task_queue := q\<rparr>"
  by (induction ts arbitrary: l) (simp_all add: exec_task_queue)

text \<open>Draining executes the items the queue hands out, in their order.\<close>

lemma drain_loop_drain:
  "drain_loop f l =
     map_option (\<lambda>(ts, q). (fold exec_task ts l)\<lparr>task_queue := q\<rparr>) (drain mpsc_pop f (task_queue l))"
proof (induction f arbitrary: l)
  case 0
  then show ?case by simp
next
  case (Suc f)
  show ?case
  proof (cases "mpsc_pop (task_queue l)")
    case None
    then show ?thesis by simp
  next
    case (Some r)
    obtain x q where r: "r = (x, q)" by (cases r)
    show ?thesis
    proof (cases x)
      case None
      with Some r show ?thesis by simp
    next
      case (Some t)
      with \<open>mpsc_pop (task_queue l) = Some r\<close> r
      have "drain_loop (Suc f) l = drain_loop f ((exec_task t l)\<lparr>task_queue := q\<rparr>)" by (simp add: exec_task_queue)
      also have "\<dots> = map_option (\<lambda>(ts, q'). (fold exec_task ts ((exec_task t l)\<lparr>task_queue := q\<rparr>))\<lparr>task_queue := q'\<rparr>)
          (drain mpsc_pop f q)" by (simp add: Suc.IH)
      finally show ?thesis
        using \<open>mpsc_pop (task_queue l) = Some r\<close> r Some
        by (cases "drain mpsc_pop f q") (simp_all add: fold_exec_queue case_prod_beta)
    qed
  qed
qed

lemma drain_tasks:
  assumes "mp_inv (task_queue l)" and "length (mp_contents (task_queue l)) < f"
  shows "\<exists>q. drainTasks f l = Some ((fold exec_task (mp_contents (task_queue l)) l)\<lparr>task_queue := q, awake := False\<rparr>) \<and>
    mp_inv q \<and> mp_contents q = []"
proof -
  from mpsc.drain_all [OF assms] obtain q where
    q: "drain mpsc_pop f (task_queue l) = Some (mp_contents (task_queue l), q)" "mp_inv q" "mp_contents q = []" by blast
  then have "mp_empty q" by (simp add: mpsc.is_empty_iff)
  with q show ?thesis by (intro exI [of _ q]) (simp add: drainTasks_def drain_loop_drain)
qed

lemma run_exit_tasks:
  "mp_inv (task_queue l) \<Longrightarrow> length (mp_contents (task_queue l)) < f \<Longrightarrow>
   \<exists>q. run_exit f l = Some ((fold exec_task (mp_contents (task_queue l)) l)\<lparr>task_queue := q\<rparr>) \<and>
     mp_inv q \<and> mp_contents q = []"
proof (induction f arbitrary: l)
  case 0
  then show ?case by simp
next
  case (Suc f)
  show ?case
  proof (cases "mp_contents (task_queue l)")
    case Nil
    with Suc.prems(1) have "mp_empty (task_queue l)" by (simp add: mpsc.is_empty_iff)
    with Nil Suc.prems(1) show ?thesis by (intro exI [of _ "task_queue l"]) simp
  next
    case (Cons t ts)
    with Suc.prems(1) have "\<not> mp_empty (task_queue l)" by (simp add: mpsc.is_empty_iff)
    moreover from mpsc.pop_some [OF Suc.prems(1) Cons] obtain q' where
      q': "mpsc_pop (task_queue l) = Some (Some t, q')" "mp_inv q'" "mp_contents q' = ts" by blast
    ultimately have step: "run_exit (Suc f) l = run_exit f ((exec_task t l)\<lparr>task_queue := q'\<rparr>)"
      by (simp add: exec_task_queue)
    from Suc.IH [of "(exec_task t l)\<lparr>task_queue := q'\<rparr>"] q' Suc.prems(2) Cons obtain q where
      "run_exit f ((exec_task t l)\<lparr>task_queue := q'\<rparr>) =
         Some ((fold exec_task ts ((exec_task t l)\<lparr>task_queue := q'\<rparr>))\<lparr>task_queue := q\<rparr>)"
      "mp_inv q" "mp_contents q = []" by auto
    with Cons show ?thesis by (intro exI [of _ q]) (simp add: step fold_exec_queue del: run_exit.simps)
  qed
qed

lemma post_task:
  assumes "mp_inv (task_queue l)" and "length (mp_contents (task_queue l)) + 1 < mp_cap (task_queue l)"
  shows "\<exists>q. postTask t l = Some (wake (l\<lparr>task_queue := q\<rparr>)) \<and> mp_inv q \<and>
    mp_contents q = mp_contents (task_queue l) @ [t] \<and> mp_cap q = mp_cap (task_queue l)"
  using mpsc.push_room [OF assms, of t] by (auto simp: postTask_def)

lemma post_task_full:
  assumes "mp_inv (task_queue l)" and "length (mp_contents (task_queue l)) + 1 = mp_cap (task_queue l)"
  shows "postTask t l = None"
  using mpsc.push_full [OF assms, of t] by (simp add: postTask_def)

text \<open>Several tasks posted one after the other.\<close>

fun post_all :: "'a task list \<Rightarrow> 'a loop \<Rightarrow> 'a loop option" where
  "post_all [] l = Some l"
| "post_all (t # ts) l = (case postTask t l of None \<Rightarrow> None | Some l \<Rightarrow> post_all ts l)"

lemma wake_simps [simp]:
  "task_queue (wake l) = task_queue l" "wake (wake l) = wake l" "awake (wake l)"
  "wakeups (wake l) = (if awake l then wakeups l else wakeups l + 1)"
  "(wake l)\<lparr>task_queue := q\<rparr> = wake (l\<lparr>task_queue := q\<rparr>)"
  by (simp_all add: wake_def)

lemma push_tasks_wake: "push_tasks ts (wake l) = map_option wake (push_tasks ts l)"
  by (induction ts arbitrary: l) (simp_all split: option.splits prod.splits bool.splits)

lemma post_all_batch: "ts \<noteq> [] \<Longrightarrow> post_all ts l = map_option wake (push_tasks ts l)"
proof (induction ts arbitrary: l)
  case Nil
  then show ?case by simp
next
  case (Cons t ts)
  show ?case
  proof (cases "mpsc_push t (task_queue l)")
    case None
    then show ?thesis by (simp add: postTask_def)
  next
    case (Some r)
    obtain b q where r: "r = (b, q)" by (cases r)
    show ?thesis
    proof (cases "ts = []")
      case True
      with Some r show ?thesis by (cases b) (simp_all add: postTask_def)
    next
      case False
      with Some r Cons.IH [of "wake (l\<lparr>task_queue := q\<rparr>)"] show ?thesis
        by (cases b) (simp_all add: postTask_def push_tasks_wake option.map_comp comp_def)
    qed
  qed
qed

lemma push_tasks_contents:
  "mp_inv (task_queue l) \<Longrightarrow> length (mp_contents (task_queue l)) + length ts < mp_cap (task_queue l) \<Longrightarrow>
   \<exists>q. push_tasks ts l = Some (l\<lparr>task_queue := q\<rparr>) \<and> mp_inv q \<and>
     mp_contents q = mp_contents (task_queue l) @ ts \<and> mp_cap q = mp_cap (task_queue l)"
proof (induction ts arbitrary: l)
  case Nil
  then show ?case by (intro exI [of _ "task_queue l"]) simp
next
  case (Cons t ts)
  then have room: "length (mp_contents (task_queue l)) + 1 < mp_cap (task_queue l)" by simp
  from mpsc.push_room [OF Cons.prems(1) this, of t] obtain q where
    q: "mpsc_push t (task_queue l) = Some (True, q)" "mp_inv q"
      "mp_contents q = mp_contents (task_queue l) @ [t]" "mp_cap q = mp_cap (task_queue l)" by blast
  with Cons.IH [of "l\<lparr>task_queue := q\<rparr>"] Cons.prems(2) show ?case by simp
qed

end
