(* ===== verification/Epoll_Context.thy ===== *)
theory Epoll_Context
  imports Loop_Reading
begin

text \<open>
  \<^verbatim>\<open>EpollContextImpl\<close> of \<^verbatim>\<open>src/net/context/EpollContext.cpp\<close>: the four
  event loop threads, their life cycle, and the operations a program calls from any thread. Each
  operation checks the socket, picks the loop by the hash of the descriptor and posts a task to it.

  \<^verbatim>\<open>std::hash<int>\<close> is left open by the C++ standard: it is the argument \<open>hash\<close>.
  A shared pointer to a socket is its descriptor, or \<open>None\<close> for the null pointer.
\<close>

section \<open>Threads\<close>

record 'a event_thread =
  event_loop :: "'a loop"
  running :: bool
  joinable :: bool

definition start :: "'a event_thread \<Rightarrow> 'a event_thread" where
  "start t = (if running t then t else t\<lparr>running := True, joinable := True\<rparr>)"

definition stop :: "'a event_thread \<Rightarrow> 'a event_thread" where
  "stop t =
     (if running t
      then t\<lparr>running := False, joinable := False,
             event_loop := (event_loop t)\<lparr>wakeups := wakeups (event_loop t) + 1\<rparr>\<rparr>
      else t)"

text \<open>Joining a thread that is not joinable raises.\<close>

definition join :: "'a event_thread \<Rightarrow> 'a event_thread option" where
  "join t = (if joinable t then Some (t\<lparr>joinable := False\<rparr>) else None)"

section \<open>The context\<close>

record 'a epoll_context =
  loops :: "'a event_thread list"
  next_id :: nat

definition LOOP_SIZE :: nat where
  "LOOP_SIZE = 4"

definition new_epoll_context :: "'a task \<Rightarrow> 'a \<Rightarrow> 'a epoll_context" where
  "new_epoll_context t a =
     \<lparr>loops = replicate LOOP_SIZE \<lparr>event_loop = new_loop t a, running = False, joinable = False\<rparr>, next_id = 0\<rparr>"

fun checkSocket :: "fd option \<Rightarrow> fd option" where
  "checkSocket None = None"
| "checkSocket (Some fd) = (if fd = -1 then None else Some fd)"

text \<open>
  What a call comes to: the context with the task posted; \<open>Waiting\<close> while the queue is full
  and the caller spins; or a socket that is refused, with what the call does to the application on
  the caller's thread.
\<close>

datatype 'a ctx_result = Posted "'a epoll_context" | Waiting | Rejected "'a \<Rightarrow> 'a"

definition with_loop :: "nat \<Rightarrow> 'a loop \<Rightarrow> 'a epoll_context \<Rightarrow> 'a epoll_context" where
  "with_loop i l ctx = ctx\<lparr>loops := (loops ctx)[i := (loops ctx ! i)\<lparr>event_loop := l\<rparr>]\<rparr>"

definition post_to :: "(fd \<Rightarrow> nat) \<Rightarrow> fd \<Rightarrow> 'a task \<Rightarrow> 'a epoll_context \<Rightarrow> 'a ctx_result" where
  "post_to hash fd t ctx =
     (let index = hash fd mod length (loops ctx) in
      case postTask t (event_loop (loops ctx ! index)) of
        None \<Rightarrow> Waiting
      | Some l \<Rightarrow> Posted (with_loop index l ctx))"

definition registerAccept :: "(fd \<Rightarrow> nat) \<Rightarrow> fd option \<Rightarrow> 'a accept_fun option \<Rightarrow> 'a epoll_context \<Rightarrow> 'a ctx_result" where
  "registerAccept hash s cb ctx =
     (case checkSocket s of
        Some fd \<Rightarrow> post_to hash fd (RegisterAccept fd cb) ctx
      | None \<Rightarrow> Rejected (\<lambda>a. a))"

definition registerRead :: "(fd \<Rightarrow> nat) \<Rightarrow> fd option \<Rightarrow> 'a read_fun option \<Rightarrow> 'a epoll_context \<Rightarrow> 'a ctx_result" where
  "registerRead hash s cb ctx =
     (case checkSocket s of
        Some fd \<Rightarrow> post_to hash fd (RegisterRead fd cb) ctx
      | None \<Rightarrow> Rejected (\<lambda>a. a))"

definition asyncWriteOnce :: "(fd \<Rightarrow> nat) \<Rightarrow> fd option \<Rightarrow> 'a write_cb option \<Rightarrow> byte list \<Rightarrow> 'a epoll_context \<Rightarrow> 'a ctx_result" where
  "asyncWriteOnce hash s cb buf ctx =
     (case checkSocket s of
        Some fd \<Rightarrow> post_to hash fd (WriteOnce fd cb buf) ctx
      | None \<Rightarrow> Rejected (call_opt cb False))"

definition asyncWriteBatch :: "(fd \<Rightarrow> nat) \<Rightarrow> fd option \<Rightarrow> 'a batch_cb \<Rightarrow> byte list list \<Rightarrow> 'a epoll_context \<Rightarrow> 'a ctx_result" where
  "asyncWriteBatch hash s cbs bufs ctx =
     (case checkSocket s of
        Some fd \<Rightarrow> post_to hash fd (WriteBatch fd cbs bufs) ctx
      | None \<Rightarrow> Rejected (cbs False (- 1)))"

definition removeSocket :: "(fd \<Rightarrow> nat) \<Rightarrow> fd option \<Rightarrow> 'a epoll_context \<Rightarrow> 'a ctx_result" where
  "removeSocket hash s ctx =
     (case checkSocket s of
        Some fd \<Rightarrow> post_to hash fd (CloseSocket fd) ctx
      | None \<Rightarrow> Rejected (\<lambda>a. a))"

definition registerHighLevel :: "(fd \<Rightarrow> nat) \<Rightarrow> fd option \<Rightarrow> 'a socket_cb option \<Rightarrow> 'a epoll_context \<Rightarrow> 'a ctx_result" where
  "registerHighLevel hash s cb ctx =
     (case checkSocket s of
        Some fd \<Rightarrow> post_to hash fd (RegisterHigh fd cb) ctx
      | None \<Rightarrow> Rejected (\<lambda>a. a))"

definition registerLowLevel :: "(fd \<Rightarrow> nat) \<Rightarrow> fd option \<Rightarrow> 'a socket_cb option \<Rightarrow> 'a epoll_context \<Rightarrow> 'a ctx_result" where
  "registerLowLevel hash s cb ctx =
     (case checkSocket s of
        Some fd \<Rightarrow> post_to hash fd (RegisterLow fd cb) ctx
      | None \<Rightarrow> Rejected (\<lambda>a. a))"

definition registerCloseCallback :: "(fd \<Rightarrow> nat) \<Rightarrow> fd option \<Rightarrow> 'a socket_cb option \<Rightarrow> 'a epoll_context \<Rightarrow> 'a ctx_result" where
  "registerCloseCallback hash s cb ctx =
     (case checkSocket s of
        Some fd \<Rightarrow> post_to hash fd (RegisterClose fd cb) ctx
      | None \<Rightarrow> Rejected (\<lambda>a. a))"

definition ctx_postTask :: "(fd \<Rightarrow> nat) \<Rightarrow> fd option \<Rightarrow> ('a \<Rightarrow> 'a) \<Rightarrow> 'a epoll_context \<Rightarrow> 'a ctx_result" where
  "ctx_postTask hash s f ctx =
     (case checkSocket s of
        Some fd \<Rightarrow> post_to hash fd (UserTask f) ctx
      | None \<Rightarrow> Rejected (\<lambda>a. a))"

text \<open>Timers are added by the calling thread itself; without a socket, a counter picks the loop.\<close>

definition addTimer_at :: "(fd \<Rightarrow> nat) \<Rightarrow> fd \<Rightarrow> fd option \<Rightarrow> bool \<Rightarrow> bool \<Rightarrow> ('a \<Rightarrow> 'a) option \<Rightarrow> 'a epoll_context \<Rightarrow>
    fd \<times> 'a epoll_context" where
  "addTimer_at hash fd created settime_ok ctl_ok cb ctx =
     (let index = hash fd mod length (loops ctx);
          (h, l) = addTimer created settime_ok ctl_ok cb (event_loop (loops ctx ! index))
      in (h, with_loop index l ctx))"

definition addTimer_socket :: "(fd \<Rightarrow> nat) \<Rightarrow> fd option \<Rightarrow> fd option \<Rightarrow> bool \<Rightarrow> bool \<Rightarrow> ('a \<Rightarrow> 'a) option \<Rightarrow>
    'a epoll_context \<Rightarrow> fd \<times> 'a epoll_context" where
  "addTimer_socket hash s created settime_ok ctl_ok cb ctx =
     (case checkSocket s of
        Some fd \<Rightarrow> addTimer_at hash fd created settime_ok ctl_ok cb ctx
      | None \<Rightarrow> (-1, ctx))"

definition addTimer_free :: "(fd \<Rightarrow> nat) \<Rightarrow> fd option \<Rightarrow> bool \<Rightarrow> bool \<Rightarrow> ('a \<Rightarrow> 'a) option \<Rightarrow>
    'a epoll_context \<Rightarrow> fd \<times> 'a epoll_context" where
  "addTimer_free hash created settime_ok ctl_ok cb ctx =
     (let ctx = ctx\<lparr>next_id := next_id ctx + 1\<rparr>
      in addTimer_at hash (int (next_id ctx)) created settime_ok ctl_ok cb ctx)"

text \<open>
  \<^verbatim>\<open>run\<close> starts every thread and joins them when it blocks; \<^verbatim>\<open>close\<close> stops them.
\<close>

fun join_all :: "'a event_thread list \<Rightarrow> 'a event_thread list option" where
  "join_all [] = Some []"
| "join_all (t # ts) =
     (case join t of None \<Rightarrow> None | Some t \<Rightarrow> map_option ((#) t) (join_all ts))"

definition ctx_run :: "bool \<Rightarrow> 'a epoll_context \<Rightarrow> 'a epoll_context option" where
  "ctx_run block ctx =
     (let ctx = ctx\<lparr>loops := map start (loops ctx)\<rparr> in
      if \<not> block then Some ctx
      else map_option (\<lambda>ts. ctx\<lparr>loops := ts\<rparr>) (join_all (loops ctx)))"

definition ctx_close :: "'a epoll_context \<Rightarrow> 'a epoll_context" where
  "ctx_close ctx = ctx\<lparr>loops := map stop (loops ctx)\<rparr>"

section \<open>Sequences of calls\<close>

datatype 'a api =
    ApiAccept "fd option" "'a accept_fun option"
  | ApiRead "fd option" "'a read_fun option"
  | ApiWrite "fd option" "'a write_cb option" "byte list"
  | ApiBatch "fd option" "'a batch_cb" "byte list list"
  | ApiRemove "fd option"
  | ApiHigh "fd option" "'a socket_cb option"
  | ApiLow "fd option" "'a socket_cb option"
  | ApiClosing "fd option" "'a socket_cb option"
  | ApiTask "fd option" "'a \<Rightarrow> 'a"

fun api_call :: "(fd \<Rightarrow> nat) \<Rightarrow> 'a api \<Rightarrow> 'a epoll_context \<Rightarrow> 'a ctx_result" where
  "api_call hash (ApiAccept s cb) ctx = registerAccept hash s cb ctx"
| "api_call hash (ApiRead s cb) ctx = registerRead hash s cb ctx"
| "api_call hash (ApiWrite s cb buf) ctx = asyncWriteOnce hash s cb buf ctx"
| "api_call hash (ApiBatch s cbs bufs) ctx = asyncWriteBatch hash s cbs bufs ctx"
| "api_call hash (ApiRemove s) ctx = removeSocket hash s ctx"
| "api_call hash (ApiHigh s cb) ctx = registerHighLevel hash s cb ctx"
| "api_call hash (ApiLow s cb) ctx = registerLowLevel hash s cb ctx"
| "api_call hash (ApiClosing s cb) ctx = registerCloseCallback hash s cb ctx"
| "api_call hash (ApiTask s f) ctx = ctx_postTask hash s f ctx"

text \<open>The calls one after the other; \<open>None\<close> when one would have to wait.\<close>

fun api_calls :: "(fd \<Rightarrow> nat) \<Rightarrow> 'a api list \<Rightarrow> 'a epoll_context \<Rightarrow> 'a epoll_context option" where
  "api_calls hash [] ctx = Some ctx"
| "api_calls hash (c # cs) ctx =
     (case api_call hash c ctx of
        Posted ctx \<Rightarrow> api_calls hash cs ctx
      | Waiting \<Rightarrow> None
      | Rejected f \<Rightarrow> api_calls hash cs ctx)"

text \<open>What a call posts, and for which descriptor.\<close>

fun api_task :: "'a api \<Rightarrow> (fd \<times> 'a task) option" where
  "api_task (ApiAccept s cb) = map_option (\<lambda>fd. (fd, RegisterAccept fd cb)) (checkSocket s)"
| "api_task (ApiRead s cb) = map_option (\<lambda>fd. (fd, RegisterRead fd cb)) (checkSocket s)"
| "api_task (ApiWrite s cb buf) = map_option (\<lambda>fd. (fd, WriteOnce fd cb buf)) (checkSocket s)"
| "api_task (ApiBatch s cbs bufs) = map_option (\<lambda>fd. (fd, WriteBatch fd cbs bufs)) (checkSocket s)"
| "api_task (ApiRemove s) = map_option (\<lambda>fd. (fd, CloseSocket fd)) (checkSocket s)"
| "api_task (ApiHigh s cb) = map_option (\<lambda>fd. (fd, RegisterHigh fd cb)) (checkSocket s)"
| "api_task (ApiLow s cb) = map_option (\<lambda>fd. (fd, RegisterLow fd cb)) (checkSocket s)"
| "api_task (ApiClosing s cb) = map_option (\<lambda>fd. (fd, RegisterClose fd cb)) (checkSocket s)"
| "api_task (ApiTask s f) = map_option (\<lambda>fd. (fd, UserTask f)) (checkSocket s)"

lemmas api_defs =
  registerAccept_def registerRead_def asyncWriteOnce_def asyncWriteBatch_def removeSocket_def
  registerHighLevel_def registerLowLevel_def registerCloseCallback_def ctx_postTask_def

lemma api_call_post: "api_task c = Some (fd, t) \<Longrightarrow> api_call hash c ctx = post_to hash fd t ctx"
  by (cases c) (auto simp: api_defs)

lemma api_call_reject: "api_task c = None \<Longrightarrow> \<exists>f. api_call hash c ctx = Rejected f"
  by (cases c) (auto simp: api_defs)

text \<open>The tasks that calls post to one loop, in the order of the calls.\<close>

definition routed :: "(fd \<Rightarrow> nat) \<Rightarrow> nat \<Rightarrow> nat \<Rightarrow> 'a api list \<Rightarrow> 'a task list" where
  "routed hash n i cs = map snd (filter (\<lambda>(fd, t). hash fd mod n = i) (List.map_filter api_task cs))"

lemma routed_simps [simp]:
  "routed hash n i [] = []"
  "routed hash n i (c # cs) =
     (case api_task c of
        None \<Rightarrow> routed hash n i cs
      | Some (fd, t) \<Rightarrow> if hash fd mod n = i then t # routed hash n i cs else routed hash n i cs)"
  by (auto simp: routed_def List.map_filter_def split: option.splits)

text \<open>Everything but the queue, the flag and the wake-up counter of the loops is untouched.\<close>

definition same_but_queue :: "'a loop \<Rightarrow> 'a loop \<Rightarrow> bool" where
  "same_but_queue l l' \<longleftrightarrow>
     (\<exists>q b w. l' = l\<lparr>task_queue := q, awake := b, wakeups := w\<rparr>)"

lemma same_but_queueI: "l' = l\<lparr>task_queue := q, awake := b, wakeups := w\<rparr> \<Longrightarrow> same_but_queue l l'"
  by (auto simp: same_but_queue_def)

lemma same_but_queue_refl [simp]: "same_but_queue l l"
  by (rule same_but_queueI [where q = "task_queue l" and b = "awake l" and w = "wakeups l"]) simp

lemma same_but_queue_trans: "same_but_queue l l' \<Longrightarrow> same_but_queue l' l'' \<Longrightarrow> same_but_queue l l''"
  unfolding same_but_queue_def by (elim exE) (rule exI, rule exI, rule exI, simp)

lemma same_but_queue_wake [simp]: "same_but_queue l (wake (l\<lparr>task_queue := q\<rparr>))"
  by (rule same_but_queueI [where q = q and b = True and w = "if awake l then wakeups l else wakeups l + 1"]) (simp add: wake_def)

definition loop_at :: "nat \<Rightarrow> 'a epoll_context \<Rightarrow> 'a loop" where
  "loop_at i ctx = event_loop (loops ctx ! i)"

lemma with_loop_simps [simp]:
  "length (loops (with_loop i l ctx)) = length (loops ctx)"
  "i < length (loops ctx) \<Longrightarrow> loop_at j (with_loop i l ctx) = (if j = i then l else loop_at j ctx)"
  by (simp_all add: with_loop_def loop_at_def)

lemma api_calls_routed:
  assumes "\<forall>i < length (loops ctx). mp_inv (task_queue (loop_at i ctx))"
    and "\<forall>i < length (loops ctx). length (mp_contents (task_queue (loop_at i ctx))) + length cs < mp_cap (task_queue (loop_at i ctx))"
    and "0 < length (loops ctx)"
  shows "\<exists>ctx'. api_calls hash cs ctx = Some ctx' \<and> length (loops ctx') = length (loops ctx) \<and>
    (\<forall>i < length (loops ctx). mp_inv (task_queue (loop_at i ctx')) \<and>
       mp_contents (task_queue (loop_at i ctx')) =
         mp_contents (task_queue (loop_at i ctx)) @ routed hash (length (loops ctx)) i cs \<and>
       same_but_queue (loop_at i ctx) (loop_at i ctx'))"
  using assms
proof (induction cs arbitrary: ctx)
  case Nil
  then show ?case by simp
next
  case (Cons c cs)
  show ?case
  proof (cases "api_task c")
    case None
    then obtain f where "api_calls hash (c # cs) ctx = api_calls hash cs ctx"
      using api_call_reject [OF None, of hash ctx] by auto
    moreover have "routed hash n i (c # cs) = routed hash n i cs" for n i using None by simp
    moreover have "\<forall>i < length (loops ctx).
        length (mp_contents (task_queue (loop_at i ctx))) + length cs < mp_cap (task_queue (loop_at i ctx))"
      using Cons.prems(2) by auto
    ultimately show ?thesis using Cons.IH [OF Cons.prems(1) _ Cons.prems(3)] by simp
  next
    case (Some p)
    obtain fd t where p: "p = (fd, t)" by (cases p)
    let ?i = "hash fd mod length (loops ctx)"
    have i: "?i < length (loops ctx)" using Cons.prems(3) by simp
    with Cons.prems have "mp_inv (task_queue (loop_at ?i ctx))"
      "length (mp_contents (task_queue (loop_at ?i ctx))) + 1 < mp_cap (task_queue (loop_at ?i ctx))"
      by (auto dest: spec [of _ ?i])
    from post_task [OF this, of t] obtain q where
      q: "postTask t (loop_at ?i ctx) = Some (wake ((loop_at ?i ctx)\<lparr>task_queue := q\<rparr>))" "mp_inv q"
        "mp_contents q = mp_contents (task_queue (loop_at ?i ctx)) @ [t]"
        "mp_cap q = mp_cap (task_queue (loop_at ?i ctx))" by blast
    let ?ctx = "with_loop ?i (wake ((loop_at ?i ctx)\<lparr>task_queue := q\<rparr>)) ctx"
    have step: "api_calls hash (c # cs) ctx = api_calls hash cs ?ctx"
      using q(1) by (simp add: api_call_post [OF Some [unfolded p]] post_to_def Let_def loop_at_def)
    have "\<forall>j < length (loops ?ctx). mp_inv (task_queue (loop_at j ?ctx))"
      using Cons.prems(1) q(2) i by simp
    moreover have "\<forall>j < length (loops ?ctx). length (mp_contents (task_queue (loop_at j ?ctx))) + length cs < mp_cap (task_queue (loop_at j ?ctx))"
      using Cons.prems(2) q(3,4) i by (auto dest: spec [of _ ?i] spec)
    ultimately obtain ctx' where ctx': "api_calls hash cs ?ctx = Some ctx'" "length (loops ctx') = length (loops ctx)"
      "\<forall>j < length (loops ctx). mp_inv (task_queue (loop_at j ctx')) \<and>
         mp_contents (task_queue (loop_at j ctx')) =
           mp_contents (task_queue (loop_at j ?ctx)) @ routed hash (length (loops ctx)) j cs \<and>
         same_but_queue (loop_at j ?ctx) (loop_at j ctx')"
      using Cons.IH [of ?ctx] Cons.prems(3) by auto
    have "mp_contents (task_queue (loop_at j ctx')) =
        mp_contents (task_queue (loop_at j ctx)) @ routed hash (length (loops ctx)) j (c # cs)"
      if "j < length (loops ctx)" for j
      using ctx'(3) that Some p q(3) i by auto
    moreover have "same_but_queue (loop_at j ctx) (loop_at j ctx')" if "j < length (loops ctx)" for j
    proof -
      have "same_but_queue (loop_at j ctx) (loop_at j ?ctx)" using i by simp
      then show ?thesis using ctx'(3) that same_but_queue_trans by blast
    qed
    ultimately show ?thesis using ctx' step by auto
  qed
qed

end
