(* ===== verification/Context_Properties.thy ===== *)
theory Context_Properties
  imports Epoll_Context Loop_Interest
begin

text \<open>
  What the four loops promise together: every operation on a socket reaches one and the same loop,
  in the order of the calls, so that the guarantees of a loop are guarantees of the context.
\<close>

section \<open>From calls to the stream of a socket\<close>

lemma exec_task_keeps:
  "leaves_alone k (Task t) \<Longrightarrow> accept_set l k = None \<Longrightarrow>
   accept_set (exec_task t l) k = None \<and> (connections (exec_task t l) k = None \<longrightarrow> connections l k = None)"
  by (cases t)
    (auto simp: do_defs loop_defs close_accept close_connections write_connection_def case_prod_beta Let_def
      split: option.splits if_splits)

lemma fold_exec_stream:
  "\<forall>t \<in> set ts. leaves_alone k (Task t) \<Longrightarrow> accept_set l k = None \<Longrightarrow>
   stream k (fold exec_task ts l) = stream k l @ concat (map (task_bytes k) ts) \<and>
   accept_set (fold exec_task ts l) k = None"
proof (induction ts arbitrary: l)
  case Nil
  then show ?case by simp
next
  case (Cons t ts)
  then have "leaves_alone k (Task t)" by simp
  from exec_task_keeps [OF this Cons.prems(2)] have
    *: "accept_set (exec_task t l) k = None" "connections (exec_task t l) k = None \<Longrightarrow> connections l k = None" by simp_all
  from Cons.IH [of "exec_task t l"] Cons.prems(1) *(1) exec_task_stream [OF *(2)] show ?case by simp
qed

text \<open>The bytes a call submits for a socket, and the calls that may close it or make it listen.\<close>

fun api_bytes :: "fd \<Rightarrow> 'a api \<Rightarrow> byte list" where
  "api_bytes k (ApiWrite s cb buf) = (if checkSocket s = Some k then buf else [])"
| "api_bytes k (ApiBatch s cbs bufs) = (if checkSocket s = Some k then concat bufs else [])"
| "api_bytes k _ = []"

fun api_keeps :: "fd \<Rightarrow> 'a api \<Rightarrow> bool" where
  "api_keeps k (ApiRemove s) \<longleftrightarrow> s \<noteq> Some k"
| "api_keeps k (ApiAccept s cb) \<longleftrightarrow> s \<noteq> Some k"
| "api_keeps k _ \<longleftrightarrow> True"

lemma checkSocket_Some: "checkSocket s = Some fd \<longleftrightarrow> s = Some fd \<and> fd \<noteq> -1"
  by (cases s) auto

lemma api_task_bytes: "api_task c = Some (fd, t) \<Longrightarrow> task_bytes k t = api_bytes k c \<and> (api_bytes k c \<noteq> [] \<longrightarrow> fd = k)"
  by (cases c) auto

lemma api_task_none: "api_task c = None \<Longrightarrow> api_bytes k c = []"
  by (cases c) auto

lemma api_task_keeps: "api_task c = Some (fd, t) \<Longrightarrow> api_keeps k c \<Longrightarrow> leaves_alone k (Task t)"
  by (cases c) (auto simp: checkSocket_Some)

lemma routed_bytes: "concat (map (task_bytes k) (routed hash n (hash k mod n) cs)) = concat (map (api_bytes k) cs)"
proof (induction cs)
  case Nil
  then show ?case by simp
next
  case (Cons c cs)
  show ?case
  proof (cases "api_task c")
    case None
    with Cons api_task_none [OF None, of k] show ?thesis by simp
  next
    case (Some p)
    obtain fd t where "p = (fd, t)" by (cases p)
    with Some Cons api_task_bytes [of c fd t k] show ?thesis by auto
  qed
qed

lemma routed_keeps: "\<forall>c \<in> set cs. api_keeps k c \<Longrightarrow> t \<in> set (routed hash n i cs) \<Longrightarrow> leaves_alone k (Task t)"
  by (induction cs) (auto split: option.splits if_splits dest: api_task_keeps simp del: leaves_alone.simps)

lemma new_epoll_context_loops:
  "length (loops (new_epoll_context t a)) = 4" "i < 4 \<Longrightarrow> loop_at i (new_epoll_context t a) = new_loop t a"
  by (simp_all add: new_epoll_context_def LOOP_SIZE_def loop_at_def)

lemma new_loop_queue:
  "mp_inv (task_queue (new_loop t a))" "mp_contents (task_queue (new_loop t a)) = []"
  "mp_cap (task_queue (new_loop t a)) = 512"
  using mp_inv_new [of 512 t] by (simp_all add: new_loop_def)

lemma new_epoll_context_routed:
  assumes "length cs < 511"
  shows "\<exists>ctx. api_calls hash cs (new_epoll_context t a) = Some ctx \<and>
    (\<forall>i < 4. mp_inv (task_queue (loop_at i ctx)) \<and> mp_contents (task_queue (loop_at i ctx)) = routed hash 4 i cs \<and>
       same_but_queue (new_loop t a) (loop_at i ctx))"
  using api_calls_routed [of "new_epoll_context t a" cs hash] assms
  by (simp add: new_epoll_context_loops new_loop_queue) blast

text \<open>C25: every call reaches the loop its socket hashes to. After fewer than 511 calls from a new
  context, no call has had to wait, each of the four queues holds the tasks of the calls on its own
  sockets, once each and in the order of the calls, and nothing else of any loop has changed; calls
  on a null or invalid socket post nothing.\<close>

theorem calls_reach_their_loop:
  assumes "length cs < 511"
  shows "\<exists>ctx. api_calls hash cs (new_epoll_context t a) = Some ctx \<and>
    (\<forall>i < 4. mp_contents (task_queue (loop_at i ctx)) = routed hash 4 i cs \<and>
       same_but_queue (new_loop t a) (loop_at i ctx))"
  using new_epoll_context_routed [OF assms] by fast

definition example_calls :: "unit api list" where
  "example_calls = [ApiWrite (Some 5) None [1, 2], ApiWrite None None [9], ApiWrite (Some 6) None [7],
     ApiBatch (Some 5) (\<lambda>_ _ a. a) [[3], [4]]]"

theorem calls_reach_their_loop_witness:
  "\<exists>ctx. api_calls nat example_calls (new_epoll_context (UserTask id) ()) = Some ctx \<and>
    (\<forall>i < 4. mp_contents (task_queue (loop_at i ctx)) = routed nat 4 i example_calls \<and>
       same_but_queue (new_loop (UserTask id) ()) (loop_at i ctx)) \<and>
    length (routed nat 4 1 example_calls) = 2"
  using calls_reach_their_loop [of example_calls nat "UserTask id" "()"] by (simp add: example_calls_def)

text \<open>C12: the bytes a program writes to a socket through the context leave it in the order of the calls.
  After fewer than 511 calls that do not close the socket or make it listen, the socket's loop
  drains its queue, and from then on, under all tasks and events that keep the connection open, what
  is on the wire and what is pending is the concatenation of the calls' bytes, followed by what is
  submitted later.\<close>

theorem context_writes_in_order:
  assumes "length cs < 511" and "\<forall>c \<in> set cs. api_keeps k c"
  shows "\<exists>ctx l. api_calls hash cs (new_epoll_context t a) = Some ctx \<and>
    drainTasks 512 (loop_at (hash k mod 4) ctx) = Some l \<and>
    (\<forall>ins. kernels_ok ins \<and> stays_open k ins l \<longrightarrow>
       wire (run_inputs ins l) k @ pending (queue_of k (run_inputs ins l)) =
         concat (map (api_bytes k) cs) @ submitted k ins)"
proof -
  let ?i = "hash k mod 4"
  from new_epoll_context_routed [OF assms(1), of hash t a] obtain ctx where
    ctx: "api_calls hash cs (new_epoll_context t a) = Some ctx" "mp_inv (task_queue (loop_at ?i ctx))"
      "mp_contents (task_queue (loop_at ?i ctx)) = routed hash 4 ?i cs"
      "same_but_queue (new_loop t a) (loop_at ?i ctx)" by auto
  have new: "stream k (loop_at ?i ctx) = []" "accept_set (loop_at ?i ctx) k = None"
    using ctx(4) by (auto simp: same_but_queue_def new_loop_def stream_def queue_of_def)
  have "length (routed hash 4 ?i cs) \<le> length cs" unfolding routed_def List.map_filter_def
    by (simp add: le_trans [OF length_filter_le])
  then have "length (mp_contents (task_queue (loop_at ?i ctx))) < 512" using assms(1) ctx(3) by simp
  from drain_tasks [OF ctx(2) this] ctx(3) obtain l q where
    l: "drainTasks 512 (loop_at ?i ctx) = Some l"
      "l = (fold exec_task (routed hash 4 ?i cs) (loop_at ?i ctx))\<lparr>task_queue := q, awake := False\<rparr>" by auto
  have "\<forall>t \<in> set (routed hash 4 ?i cs). leaves_alone k (Task t)"
    using routed_keeps [OF assms(2)] by blast
  from fold_exec_stream [OF this new(2)] have "stream k l = concat (map (api_bytes k) cs)"
    by (simp add: l(2) stream_def queue_of_def new(1) [unfolded stream_def queue_of_def] routed_bytes)
  then have "\<forall>ins. kernels_ok ins \<and> stays_open k ins l \<longrightarrow>
      stream k (run_inputs ins l) = concat (map (api_bytes k) cs) @ submitted k ins"
    using run_inputs_stream [of _ k l] by simp
  with ctx(1) l(1) show ?thesis unfolding stream_def by blast
qed

theorem context_writes_in_order_witness:
  "\<exists>ctx l. api_calls nat example_calls (new_epoll_context (UserTask id) ()) = Some ctx \<and>
    drainTasks 512 (loop_at (nat 5 mod 4) ctx) = Some l \<and>
    (\<forall>ins. kernels_ok ins \<and> stays_open 5 ins l \<longrightarrow>
       wire (run_inputs ins l) 5 @ pending (queue_of 5 (run_inputs ins l)) =
         [1, 2, 3, 4] @ submitted 5 ins)"
  using context_writes_in_order [of example_calls 5 nat "UserTask id" "()"] by (simp add: example_calls_def)

end
