(* ===== verification/Loop_Progress.thy ===== *)
theory Loop_Progress
  imports Loop_Interest
begin

text \<open>
  Progress of the write path: a kernel that always accepts something empties a queue without empty
  buffers, and its callbacks report success in order. Epoll watches an open connection for writing as long
  as its queue is not empty, so that the events that this takes are reported.
\<close>

section \<open>Progress of writing\<close>

text \<open>Without empty submissions every writable event moves bytes.\<close>

definition no_empty :: "'a write_meta list \<Rightarrow> bool" where
  "no_empty q \<longleftrightarrow> (\<forall>m \<in> set q. unsent m \<noteq> [])"

lemma no_empty_pending: "no_empty q \<Longrightarrow> pending q = [] \<longleftrightarrow> q = []"
  by (cases q) (simp_all add: no_empty_def)

lemma no_empty_iovecs: "no_empty q \<Longrightarrow> q \<noteq> [] \<Longrightarrow> concat (iovecs q) \<noteq> []"
  by (cases q) (simp_all add: no_empty_def concat_iovecs iov_max_def)

lemma complete_writes_no_empty: "no_empty q \<Longrightarrow> no_empty (fst (complete_writes n q a))"
  by (induction n q a rule: complete_writes.induct) (auto simp: no_empty_def unsent_def Let_def)

text \<open>Only the entry at the front of a queue can be partly written.\<close>

definition tidy :: "'a write_meta list \<Rightarrow> bool" where
  "tidy q \<longleftrightarrow> no_empty q \<and> (\<forall>m \<in> set (tl q). offset m = 0)"

lemma set_tl_subset: "set (tl xs) \<subseteq> set xs"
  by (cases xs) auto

lemma complete_writes_tail: "set (tl (fst (complete_writes n q a))) \<subseteq> set (tl q)"
proof (induction n q a rule: complete_writes.induct)
  case (2 n m ms a)
  show ?case
  proof (cases "n = 0 \<or> n < length (wbuffer m) - offset m")
    case True
    then show ?thesis by (auto simp: Let_def)
  next
    case False
    with 2 show ?thesis using set_tl_subset [of ms] by (auto simp: Let_def)
  qed
qed simp

lemma complete_writes_tidy: "tidy q \<Longrightarrow> tidy (fst (complete_writes n q a))"
  using complete_writes_tail [of n q a] by (auto simp: tidy_def complete_writes_no_empty)

text \<open>A run of writable events, with the kernel's answers.\<close>

definition write_events :: "fd \<Rightarrow> kernel list \<Rightarrow> 'a loop \<Rightarrow> 'a loop" where
  "write_events k kns l = fold (\<lambda>kn. handleWrite kn k) kns l"

definition accepts :: "kernel \<Rightarrow> bool" where
  "accepts kn \<longleftrightarrow> kernel_ok kn \<and> (\<forall>iovs. concat iovs \<noteq> [] \<longrightarrow> (\<exists>n. k_writev kn iovs = Wrote n))"

lemma handleWrite_progress:
  assumes "accepts kn" and "connections l k = Some c" and "no_empty (write_queue c)" and "write_queue c \<noteq> []"
  shows "\<exists>c' n. connections (handleWrite kn k l) k = Some c' \<and> no_empty (write_queue c') \<and> 0 < n \<and>
    pending (write_queue c') = drop n (pending (write_queue c)) \<and>
    wire (handleWrite kn k l) k = wire l k @ take n (pending (write_queue c))"
  using assms(2)
proof (cases rule: handleWrite_cases [where kn = kn])
  case (wrote n c1 l1)
  have n: "0 < n" "n \<le> length (concat (iovecs (write_queue c)))"
    using assms(1) wrote(1) by (auto simp: accepts_def kernel_ok_def)
  then have "n \<le> length (pending (write_queue c))" using iovecs_length le_trans by blast
  then have "pending (fst (complete_writes n (write_queue c) (app l))) = drop n (pending (write_queue c))"
    by (rule complete_writes_pending)
  then show ?thesis
    using wrote n complete_writes_no_empty [OF assms(3)]
    by (intro exI [of _ "fst (low_water (fst (queue_drained k c1 l1)) (snd (queue_drained k c1 l1)))"] exI [of _ n])
      (simp add: put_conn_def iovecs_take)
next
  case idle
  with no_empty_iovecs [OF assms(3,4)] show ?thesis by simp
next
  case again
  then obtain n where "k_writev kn (iovecs (write_queue c)) = Wrote n"
    using assms(1) no_empty_iovecs [OF assms(3,4)] unfolding accepts_def by blast
  with again show ?thesis by simp
next
  case failed
  then obtain n where "k_writev kn (iovecs (write_queue c)) = Wrote n"
    using assms(1) no_empty_iovecs [OF assms(3,4)] unfolding accepts_def by blast
  with failed(1) show ?thesis by simp
qed

lemma write_events_progress:
  assumes "list_all accepts kns" and "connections l k = Some c" and "no_empty (write_queue c)"
    and "length (pending (write_queue c)) \<le> length kns"
  shows "\<exists>c'. connections (write_events k kns l) k = Some c' \<and> write_queue c' = [] \<and>
    wire (write_events k kns l) k = wire l k @ pending (write_queue c)"
  using assms
proof (induction kns arbitrary: l c)
  case Nil
  then show ?case by (simp add: write_events_def no_empty_pending)
next
  case (Cons kn kns)
  have ev: "write_events k (kn # kns) l = write_events k kns (handleWrite kn k l)"
    by (simp add: write_events_def)
  show ?case
  proof (cases "write_queue c = []")
    case True
    then have "handleWrite kn k l = l" using Cons.prems(2) by (simp add: handleWrite_def iovecs_def)
    with True Cons.IH [of l c] Cons.prems ev show ?thesis by simp
  next
    case False
    have "accepts kn" using Cons.prems(1) by simp
    from handleWrite_progress [OF this Cons.prems(2,3) False] obtain c' n where
      c': "connections (handleWrite kn k l) k = Some c'" "no_empty (write_queue c')" "0 < n"
        "pending (write_queue c') = drop n (pending (write_queue c))"
        "wire (handleWrite kn k l) k = wire l k @ take n (pending (write_queue c))" by blast
    have "length (pending (write_queue c')) \<le> length kns" using c'(3,4) Cons.prems(4) by simp
    with Cons.IH [OF _ c'(1,2)] Cons.prems(1) c'(4,5) ev show ?thesis by simp
  qed
qed

section \<open>A connection that is watched\<close>

text \<open>
  A connection that is open in both directions and registered for reading is watched for reading, and for
  writing exactly while its queue is not empty: the flags of the connection and epoll agree on it.
\<close>

definition watched :: "fd \<Rightarrow> 'a loop \<Rightarrow> bool" where
  "watched k l \<longleftrightarrow> accept_set l k = None \<and> timer_fds l k = None \<and>
     (\<exists>c. connections l k = Some c \<and> read_registered c \<and> \<not> peer_closed c \<and>
        (write_registered c \<longleftrightarrow> write_queue c \<noteq> []) \<and> epoll l k = Some (True, write_queue c \<noteq> []))"

lemma watched_interest: "watched k l \<Longrightarrow> epoll l k = Some (True, queue_of k l \<noteq> [])"
  by (auto simp: watched_def queue_of_def)

text \<open>It starts with the registration of a descriptor that epoll does not know.\<close>

lemma watched_register:
  assumes "connections l k = None" and "epoll l k = None" and "accept_set l k = None" and "timer_fds l k = None"
  shows "watched k (exec_task (RegisterRead k cb) l)"
  using assms by (simp add: watched_def doRegisterRead_def epoll_add_def put_conn_def new_connection_def)

lemma watched_closing: "watched k l \<Longrightarrow> watched k (exec_task (RegisterClose k cb) l)"
  by (auto simp: watched_def doRegisterCloseCallback_def put_conn_def)

lemma watched_once:
  assumes "watched k l"
  shows "watched k (exec_task (WriteOnce k cb b) l)"
proof -
  from assms obtain c where c: "connections l k = Some c" by (auto simp: watched_def)
  let ?c = "enqueue_write cb b c"
  obtain f where f: "fst (high_water ?c l) = ?c\<lparr>high_level_callback_set := f\<rparr>" using high_water_conn by blast
  have "epoll (snd (high_water ?c l)) = epoll l" "accept_set (snd (high_water ?c l)) = accept_set l"
    "timer_fds (snd (high_water ?c l)) = timer_fds l"
    by (simp_all add: high_water_def loop_defs split: option.splits)
  with assms c f show ?thesis
    by (auto simp: watched_def doAsyncWriteOnce_def write_connection_def register_write_def enqueue_write_def
        modifyEpollEvents_def put_conn_def case_prod_beta Let_def)
qed

text \<open>Neither an event for reading that brings bytes nor one for writing that does not fail ends it.\<close>

lemma watched_read:
  assumes "watched k l" and "\<And>c. connections l k = Some c \<Longrightarrow>
    k_read kn (sb_size (read_buffer c) - data_size (read_buffer c)) \<notin> {ReadEof, ReadFail}"
  shows "watched k (handleRead kn k l)"
proof -
  have fd: "accept_set l k = None" "timer_fds l k = None" using assms(1) by (simp_all add: watched_def)
  show ?thesis
  proof (cases rule: handleRead_cases [where kn = kn and k = k and l = l])
    case other
    with fd assms(1) show ?thesis by simp
  next
    case (data c xs b)
    then have "timer_fds (handleRead kn k l) k = None"
      by (simp add: handleRead_def loop_defs Let_def case_prod_beta split: option.splits)
    with assms(1) data show ?thesis by (auto simp: watched_def)
  qed (use assms(2) in auto)
qed

lemma watched_write:
  assumes "watched k l" and "\<forall>iovs. k_writev kn iovs \<noteq> WriteFail"
  shows "watched k (handleWrite kn k l)"
proof -
  from assms(1) obtain c where c: "connections l k = Some c" "read_registered c" "\<not> peer_closed c"
    "write_registered c \<longleftrightarrow> write_queue c \<noteq> []" "epoll l k = Some (True, write_queue c \<noteq> [])"
    "accept_set l k = None" "timer_fds l k = None"
    by (auto simp: watched_def)
  from c(1) show ?thesis
  proof (cases rule: handleWrite_cases [where kn = kn])
    case (wrote n c1 l1)
    then have ne: "write_queue c \<noteq> []" by (auto simp: iovecs_def)
    let ?c = "fst (queue_drained k c1 l1)" and ?l = "snd (queue_drained k c1 l1)"
    have low: "read_registered (fst (low_water d m)) = read_registered d" "peer_closed (fst (low_water d m)) = peer_closed d"
      "write_registered (fst (low_water d m)) = write_registered d" for d :: "'a connection" and m
      by (simp_all add: low_water_def split: option.splits)
    have c1: "read_registered c1" "\<not> peer_closed c1" "write_registered c1"
      using c(2-4) ne by (simp_all add: wrote(3) account_sent_def Let_def)
    have l1: "epoll l1 k = Some (True, True)" "accept_set l1 k = None" "timer_fds l1 k = None"
      using c(5-7) ne by (simp_all add: wrote(4))
    have "epoll (snd (low_water ?c ?l)) = epoll ?l" by (simp add: low_water_def loop_defs split: option.splits)
    then show ?thesis
      using c1 l1 by (auto simp: watched_def wrote(5) low put_conn_def queue_drained_conn queue_drained_epoll)
  qed (use assms in simp_all)
qed

section \<open>The callbacks of a flush\<close>

lemma succeed_writes_callbacks: "map callback q = map callback q' \<Longrightarrow> succeed_writes q a = succeed_writes q' a"
proof (induction q arbitrary: q' a)
  case (Cons m q)
  then obtain m' q'' where "q' = m' # q''" "callback m = callback m'" "map callback q = map callback q''"
    by (cases q') simp_all
  with Cons.IH [of q''] show ?case by simp
qed simp

text \<open>The parts of a connection and of the loop that a writable event leaves alone.\<close>

definition same_reader :: "fd \<Rightarrow> 'a connection \<Rightarrow> 'a connection \<Rightarrow> 'a loop \<Rightarrow> 'a loop \<Rightarrow> bool" where
  "same_reader k c c' l l' \<longleftrightarrow>
     read_cb c' = read_cb c \<and> read_buffer c' = read_buffer c \<and> low_level_callback c' = low_level_callback c \<and>
     accept_set l' = accept_set l \<and> timer_fds l' = timer_fds l"

lemma same_reader_refl [simp]: "same_reader k c c l l"
  by (simp add: same_reader_def)

lemma same_reader_trans: "same_reader k c c' l l' \<Longrightarrow> same_reader k c' c'' l' l'' \<Longrightarrow> same_reader k c c'' l l''"
  by (simp add: same_reader_def)

lemma handleWrite_open:
  assumes "connections l k = Some c" and "k_writev kn (iovecs (write_queue c)) \<noteq> WriteFail"
    and "low_level_callback c = None"
  shows "\<exists>c' done rest. connections (handleWrite kn k l) k = Some c' \<and> same_reader k c c' l (handleWrite kn k l) \<and>
    high_level_callback c' = high_level_callback c \<and> (tidy (write_queue c) \<longrightarrow> tidy (write_queue c')) \<and>
    write_queue c = done @ rest \<and> map submission (write_queue c') = map submission rest \<and>
    app (handleWrite kn k l) = succeed_writes done (app l)"
  using assms(1)
proof (cases rule: handleWrite_cases [where kn = kn])
  case (wrote n c1 l1)
  from complete_writes_prefix [of "write_queue c" n "app l"] obtain d r where
    dr: "write_queue c = d @ r" "snd (complete_writes n (write_queue c) (app l)) = succeed_writes d (app l)"
      "map submission (fst (complete_writes n (write_queue c) (app l))) = map submission r" by blast
  let ?qd = "queue_drained k c1 l1"
  have low: "low_water (fst ?qd) (snd ?qd) = ?qd"
    using assms(3) wrote(3) by (simp add: low_water_def queue_drained_def Let_def)
  have "read_cb (fst ?qd) = read_cb c \<and> read_buffer (fst ?qd) = read_buffer c \<and>
      high_level_callback (fst ?qd) = high_level_callback c \<and>
      low_level_callback (fst ?qd) = low_level_callback c \<and> write_queue (fst ?qd) = write_queue c1 \<and>
      accept_set (snd ?qd) = accept_set l \<and> timer_fds (snd ?qd) = timer_fds l \<and> app (snd ?qd) = app l1"
    using wrote(3,4) by (simp add: queue_drained_def account_sent_def loop_defs Let_def)
  then show ?thesis
    using dr wrote(3-5) low
    by (intro exI [of _ "fst ?qd"] exI [of _ d] exI [of _ r]) (simp add: put_conn_def same_reader_def complete_writes_tidy)
next
  case idle
  then show ?thesis
    by (rule_tac x = c in exI, rule_tac x = "[]" in exI, rule_tac x = "write_queue c" in exI) (simp add: assms)
next
  case again
  then show ?thesis
    by (rule_tac x = c in exI, rule_tac x = "[]" in exI, rule_tac x = "write_queue c" in exI) (simp add: assms)
qed (use assms in simp)

lemma handleWrite_callbacks:
  assumes "accepts kn" and "connections l k = Some c" and "no_empty (write_queue c)" and "write_queue c \<noteq> []"
    and "low_level_callback c = None"
  shows "\<exists>c' done rest. connections (handleWrite kn k l) k = Some c' \<and> same_reader k c c' l (handleWrite kn k l) \<and>
    write_queue c = done @ rest \<and> map callback (write_queue c') = map callback rest \<and>
    app (handleWrite kn k l) = succeed_writes done (app l)"
proof -
  have "k_writev kn (iovecs (write_queue c)) \<noteq> WriteFail"
    using assms(1) no_empty_iovecs [OF assms(3,4)] by (auto simp: accepts_def)
  from handleWrite_open [OF assms(2) this assms(5)] show ?thesis using submission_callbacks by blast
qed

lemma write_events_callbacks:
  assumes "list_all accepts kns" and "connections l k = Some c" and "no_empty (write_queue c)"
    and "length (pending (write_queue c)) \<le> length kns" and "low_level_callback c = None"
  shows "\<exists>c'. connections (write_events k kns l) k = Some c' \<and> same_reader k c c' l (write_events k kns l) \<and>
    app (write_events k kns l) = succeed_writes (write_queue c) (app l)"
  using assms
proof (induction kns arbitrary: l c)
  case Nil
  then show ?case by (simp add: write_events_def no_empty_pending)
next
  case (Cons kn kns)
  have ev: "write_events k (kn # kns) l = write_events k kns (handleWrite kn k l)"
    by (simp add: write_events_def)
  show ?case
  proof (cases "write_queue c = []")
    case True
    then have "handleWrite kn k l = l" using Cons.prems(2) by (simp add: handleWrite_def iovecs_def)
    with True Cons.IH [of l c] Cons.prems ev show ?thesis by simp
  next
    case False
    have acc: "accepts kn" using Cons.prems(1) by simp
    from handleWrite_callbacks [OF acc Cons.prems(2,3) False Cons.prems(5)] obtain c' d r where
      c': "connections (handleWrite kn k l) k = Some c'" "same_reader k c c' l (handleWrite kn k l)"
        "write_queue c = d @ r" "map callback (write_queue c') = map callback r"
        "app (handleWrite kn k l) = succeed_writes d (app l)" by blast
    from handleWrite_progress [OF acc Cons.prems(2,3) False] c'(1) obtain n where
      n: "no_empty (write_queue c')" "0 < n" "pending (write_queue c') = drop n (pending (write_queue c))" by auto
    have "length (pending (write_queue c')) \<le> length kns" using n(2,3) Cons.prems(4) by simp
    moreover have "low_level_callback c' = None" using c'(2) Cons.prems(5) by (simp add: same_reader_def)
    ultimately obtain c'' where
      c'': "connections (write_events k kns (handleWrite kn k l)) k = Some c''"
        "same_reader k c' c'' (handleWrite kn k l) (write_events k kns (handleWrite kn k l))"
        "app (write_events k kns (handleWrite kn k l)) = succeed_writes (write_queue c') (app (handleWrite kn k l))"
      using Cons.IH [OF _ c'(1) n(1)] Cons.prems(1) by auto
    have "succeed_writes (write_queue c') (app (handleWrite kn k l)) = succeed_writes (write_queue c) (app l)"
      using c'(3,5) succeed_writes_callbacks [OF c'(4)] by (simp add: succeed_writes_append)
    with c'' ev same_reader_trans [OF c'(2) c''(2)] show ?thesis by auto
  qed
qed

section \<open>Submitting\<close>

text \<open>Writes that are submitted to a connection without a high-water callback only fill its queue.\<close>

definition fills :: "fd \<Rightarrow> 'a connection \<Rightarrow> 'a connection \<Rightarrow> 'a loop \<Rightarrow> 'a loop \<Rightarrow> bool" where
  "fills k c c' l l' \<longleftrightarrow> same_reader k c c' l l' \<and> high_level_callback c' = high_level_callback c \<and>
     connections l' k = Some c' \<and> app l' = app l \<and> wire l' = wire l"

definition submitted_meta :: "'a write_cb option \<times> byte list \<Rightarrow> 'a write_meta" where
  "submitted_meta w = \<lparr>wbuffer = snd w, offset = 0, callback = fst w\<rparr>"

lemma write_step:
  assumes "connections l k = Some c" and "high_level_callback c = None"
  shows "\<exists>c'. fills k c c' l (exec_task (WriteOnce k (fst w) (snd w)) l) \<and>
    write_queue c' = write_queue c @ [submitted_meta w]"
proof -
  let ?c = "enqueue_write (fst w) (snd w) c"
  have hw: "high_water ?c l = (?c, l)" using assms(2) by (simp add: high_water_def enqueue_write_def)
  have ex: "doAsyncWriteOnce k (fst w) (snd w) l =
      put_conn k (fst (register_write k ?c l)) (snd (register_write k ?c l))"
    using assms(1) hw by (simp add: doAsyncWriteOnce_def write_connection_def case_prod_beta Let_def)
  show ?thesis
    by (intro exI [of _ "fst (register_write k ?c l)"])
      (simp add: ex fills_def same_reader_def register_write_def enqueue_write_def loop_defs submitted_meta_def)
qed

lemma write_steps:
  assumes "connections l k = Some c" and "high_level_callback c = None"
  shows "\<exists>c'. fills k c c' l (fold exec_task (map (\<lambda>w. WriteOnce k (fst w) (snd w)) ws) l) \<and>
    write_queue c' = write_queue c @ map submitted_meta ws"
  using assms
proof (induction ws arbitrary: l c)
  case Nil
  then show ?case by (intro exI [of _ c]) (simp add: fills_def)
next
  case (Cons w ws)
  let ?l = "exec_task (WriteOnce k (fst w) (snd w)) l"
  from write_step [OF Cons.prems, of w] obtain c1 where
    c1: "fills k c c1 l ?l" "write_queue c1 = write_queue c @ [submitted_meta w]" by blast
  with Cons.prems have "connections ?l k = Some c1" "high_level_callback c1 = None"
    by (simp_all add: fills_def)
  from Cons.IH [OF this] obtain c2 where
    c2: "fills k c1 c2 ?l (fold exec_task (map (\<lambda>w. WriteOnce k (fst w) (snd w)) ws) ?l)"
      "write_queue c2 = write_queue c1 @ map submitted_meta ws" by blast
  with c1 show ?case by (intro exI [of _ c2]) (auto simp: fills_def intro: same_reader_trans)
qed

section \<open>Kernels for the examples\<close>

text \<open>A kernel that reads nothing and writes up to \<open>n\<close> bytes; and one at the end of its stream.\<close>

definition write_kernel :: "nat \<Rightarrow> kernel" where
  "write_kernel n = \<lparr>k_read = (\<lambda>_. ReadAgain),
     k_writev = (\<lambda>iovs. if 0 < min n (length (concat iovs)) then Wrote (min n (length (concat iovs))) else WriteAgain),
     k_accept = None\<rparr>"

definition eof_kernel :: kernel where
  "eof_kernel = \<lparr>k_read = (\<lambda>_. ReadEof), k_writev = (\<lambda>_. WriteAgain), k_accept = None\<rparr>"

lemma kernel_ok_simps [simp]: "kernel_ok (write_kernel n)" "kernel_ok eof_kernel"
  by (auto simp: kernel_ok_def write_kernel_def eof_kernel_def split: if_splits)

lemma accepts_write_kernel: "0 < n \<Longrightarrow> accepts (write_kernel n)"
  by (auto simp: accepts_def write_kernel_def kernel_ok_def)

text \<open>A system whose steps include all writable events of a loop can run a series of them.\<close>

lemma flushing_run:
  assumes "\<And>l kn. kernel_ok kn \<Longrightarrow> \<forall>iovs. k_writev kn iovs \<noteq> WriteFail \<Longrightarrow> R (f l) (f (handleWrite kn k l))"
  shows "R\<^sup>*\<^sup>* (f l) (f (write_events k (replicate m (write_kernel 1)) l))"
proof (induction m arbitrary: l)
  case (Suc m)
  have "R (f l) (f (handleWrite (write_kernel 1) k l))" by (rule assms [OF kernel_ok_simps(1)]) (simp add: write_kernel_def)
  with Suc.IH [of "handleWrite (write_kernel 1) k l"] show ?case
    by (auto simp: write_events_def intro: converse_rtranclp_into_rtranclp)
qed (simp add: write_events_def)

text \<open>A system whose steps include the writable events that epoll reports on a watched connection can flush its
  queue: as long as something is queued, epoll watches for it.\<close>

lemma queue_flushed:
  assumes "\<And>l kn. kernel_ok kn \<Longrightarrow> \<forall>iovs. k_writev kn iovs \<noteq> WriteFail \<Longrightarrow> \<exists>b. epoll l k = Some (b, True) \<Longrightarrow>
      R (f l) (f (handleWrite kn k l))"
    and "watched k l" and "connections l k = Some c" and "no_empty (write_queue c)"
  shows "\<exists>l'. R\<^sup>*\<^sup>* (f l) (f l') \<and> watched k l' \<and> wire l' k = stream k l \<and> queue_of k l' = []"
  using assms(2-4)
proof (induction "length (pending (write_queue c))" arbitrary: l c rule: less_induct)
  case less
  show ?case
  proof (cases "write_queue c = []")
    case True
    with less.prems show ?thesis by (intro exI [of _ l]) (simp add: stream_def queue_of_def)
  next
    case False
    let ?kn = "write_kernel 1" and ?l = "handleWrite (write_kernel 1) k l"
    have kn: "\<forall>iovs. k_writev ?kn iovs \<noteq> WriteFail" by (simp add: write_kernel_def)
    have "epoll l k = Some (True, True)" using watched_interest [OF less.prems(1)] less.prems(2) False by (simp add: queue_of_def)
    with assms(1) [OF kernel_ok_simps(1) kn] have step: "R (f l) (f ?l)" by blast
    from handleWrite_progress [OF accepts_write_kernel less.prems(2,3) False, of 1] obtain c' n where
      c': "connections ?l k = Some c'" "no_empty (write_queue c')" "0 < n"
        "pending (write_queue c') = drop n (pending (write_queue c))"
        "wire ?l k = wire l k @ take n (pending (write_queue c))" by auto
    have "pending (write_queue c) \<noteq> []" using no_empty_pending [OF less.prems(3)] False by simp
    then have "length (pending (write_queue c')) < length (pending (write_queue c))" using c'(3,4) by simp
    from less.hyps [OF this watched_write [OF less.prems(1) kn] c'(1,2)] obtain l' where
      "R\<^sup>*\<^sup>* (f ?l) (f l')" "watched k l'" "wire l' k = stream k ?l" "queue_of k l' = []" by blast
    moreover have "stream k ?l = stream k l"
      using c' less.prems(2) by (simp add: stream_def queue_of_def)
    ultimately show ?thesis using step by (metis converse_rtranclp_into_rtranclp)
  qed
qed

end
