(* ===== verification/Rpc_Service.thy ===== *)
theory Rpc_Service
  imports Rpc_Properties Context_Properties Loop_Progress "HOL-Library.Multiset"
begin

text \<open>
  The RPC server on its event loop: \<^verbatim>\<open>acceptClient\<close> of
  \<^verbatim>\<open>src/app/rpc/RpcServer.cpp\<close> registers the read callback with a parser context of
  its own; the callback hands messages to the pool; a worker answers with an asynchronous write.
  The theory puts the parser, the dispatcher and the loop together: from the bytes a client sends
  to the bytes it gets back.
\<close>

section \<open>State and callbacks\<close>

text \<open>
  What the callbacks work on: the parser context of each client, the messages put into the thread
  pool, oldest first, and the clients that were asked to be closed.
\<close>

record rpc_app =
  contexts :: "fd \<Rightarrow> RpcContext"
  jobs :: "(fd \<times> RpcContext) list"
  closing :: "fd list"

definition client_read :: "fd \<Rightarrow> 'b rpc_app_scheme read_fun" where
  "client_read k buf n a =
     (case on_read buf n (contexts a k) of
        (m, CloseClient, c) \<Rightarrow> (m, a\<lparr>closing := closing a @ [k]\<rparr>)
      | (m, Dispatch ms, c) \<Rightarrow> (m, a\<lparr>contexts := (contexts a)(k := c), jobs := jobs a @ map (Pair k) ms\<rparr>))"

text \<open>\<^verbatim>\<open>acceptClient\<close>: the state with a fresh context, and the calls to the socket.\<close>

definition accept_calls :: "fd \<Rightarrow> 'b rpc_app_scheme api list" where
  "accept_calls k = [ApiRead (Some k) (Some (client_read k)), ApiClosing (Some k) (Some (\<lambda>_. id))]"

definition acceptClient :: "fd \<Rightarrow> 'b rpc_app_scheme \<Rightarrow> 'b rpc_app_scheme \<times> 'b rpc_app_scheme api list" where
  "acceptClient k a = (a\<lparr>contexts := (contexts a)(k := new_context)\<rparr>, accept_calls k)"

text \<open>The task of a pool worker: the answer is written to the client; its callback does nothing.\<close>

definition dispatch_task :: "server \<Rightarrow> fd \<times> RpcContext \<Rightarrow> rpc_app api option" where
  "dispatch_task s j =
     map_option (ApiWrite (Some (fst j)) (Some (\<lambda>_. id))) (dispatch s (snd j))"

text \<open>What the calls of a list post to the loop of a client.\<close>

definition posts :: "fd \<Rightarrow> rpc_app api list \<Rightarrow> rpc_app task list \<Rightarrow> bool" where
  "posts k cs ts \<longleftrightarrow> map api_task cs = map (\<lambda>t. Some (k, t)) ts"

section \<open>Reading requests\<close>

text \<open>A client whose connection has nothing unconsumed and no empty buffers queued, and whose context is \<open>c\<close>.\<close>

definition serves :: "fd \<Rightarrow> RpcContext \<Rightarrow> rpc_app loop \<Rightarrow> bool" where
  "serves k c l \<longleftrightarrow> accept_set l k = None \<and> timer_fds l k = None \<and> contexts (app l) k = c \<and>
     (\<exists>d. connections l k = Some d \<and> read_cb d = Some (client_read k) \<and>
        buffer_ok (read_buffer d) \<and> unread (read_buffer d) = [] \<and>
        high_level_callback d = None \<and> low_level_callback d = None \<and>
        (\<forall>m \<in> set (write_queue d). callback m = Some (\<lambda>_. id)) \<and> tidy (write_queue d))"

lemma client_read_feed:
  assumes "0 < n" and "n \<le> length buf" and "feed (take n buf) (contexts a k) = (ms, c)"
  shows "client_read k buf n a = (n, a\<lparr>contexts := (contexts a)(k := c), jobs := jobs a @ map (Pair k) ms\<rparr>)"
  using assms by (simp add: client_read_def on_read_feed)

lemma request_event:
  assumes s: "serves k c l" and xs: "xs \<noteq> []" "length xs \<le> buffer_size" and f: "feed xs c = (ms, c')"
  shows "serves k c' (handleRead (read_kernel xs) k l) \<and>
    jobs (app (handleRead (read_kernel xs) k l)) = jobs (app l) @ map (Pair k) ms \<and>
    stream k (handleRead (read_kernel xs) k l) = stream k l"
proof -
  from s obtain d where d: "accept_set l k = None" "timer_fds l k = None" "connections l k = Some d"
    "read_cb d = Some (client_read k)" "buffer_ok (read_buffer d)" "unread (read_buffer d) = []"
    by (auto simp: serves_def)
  have "data_size (read_buffer d) = 0" using length_unread [OF d(5)] d(6) by simp
  then have kn: "k_read (read_kernel xs) (buffer_size - data_size (read_buffer d)) = ReadData xs"
    using xs by (cases xs) (auto simp: read_kernel_def)
  have "client_read k (xs @ replicate (buffer_size - length xs) 0) (length xs) (app l) =
      (length xs, (app l)\<lparr>contexts := (contexts (app l))(k := c'), jobs := jobs (app l) @ map (Pair k) ms\<rparr>)"
    using xs(1) f s by (intro client_read_feed) (simp_all add: serves_def)
  note data = handleRead_data [OF d(1,2,3,5) kernel_ok_read d(4) kn, unfolded d(6) append_Nil this fst_conv snd_conv]
  from data(2) obtain b where
    "connections (handleRead (read_kernel xs) k l) = (connections l)(k \<mapsto> d\<lparr>read_buffer := b\<rparr>)"
    "buffer_ok b" "unread b = []" by auto
  then show ?thesis
    using s d data(3) by (auto simp: serves_def handleRead_accept handleRead_timers stream_def queue_of_def)
qed

section \<open>Answering\<close>

lemma accept_serves:
  assumes "connections l k = None" and "accept_set l k = None" and "timer_fds l k = None"
    and "acceptClient k (app l) = (a, cs)" and "posts k cs ts"
  shows "serves k new_context (fold exec_task ts (l\<lparr>app := a\<rparr>))"
    and "jobs (app (fold exec_task ts (l\<lparr>app := a\<rparr>))) = jobs (app l)"
    and "stream k (fold exec_task ts (l\<lparr>app := a\<rparr>)) = wire l k"
    and "k \<noteq> -1"
proof -
  have a: "a = (app l)\<lparr>contexts := (contexts (app l))(k := new_context)\<rparr>"
    and "ts = [RegisterRead k (Some (client_read k)), RegisterClose k (Some (\<lambda>_. id))]"
    using assms(4,5) by (auto simp: acceptClient_def accept_calls_def posts_def split: if_splits)
  then show "serves k new_context (fold exec_task ts (l\<lparr>app := a\<rparr>))"
    and "jobs (app (fold exec_task ts (l\<lparr>app := a\<rparr>))) = jobs (app l)"
    and "stream k (fold exec_task ts (l\<lparr>app := a\<rparr>)) = wire l k"
    using assms(1-3) buffer_ok_new
    by (simp_all add: serves_def do_defs loop_defs new_connection_def stream_def queue_of_def tidy_def no_empty_def)
  show "k \<noteq> -1" using assms(4,5) by (auto simp: acceptClient_def accept_calls_def posts_def split: if_splits)
qed

text \<open>A writable event whose \<^verbatim>\<open>writev\<close> does not fail.\<close>

lemma succeed_trivial: "\<forall>m \<in> set q. callback m = Some (\<lambda>_. id) \<Longrightarrow> succeed_writes q a = a"
  by (induction q arbitrary: a) (simp_all add: call_opt_def)

lemma callbacks_trivial:
  assumes "map callback q = map callback q'" and "\<forall>m \<in> set q'. callback m = cb"
  shows "\<forall>m \<in> set q. callback m = cb"
proof -
  have "callback ` set q = callback ` set q'" using arg_cong [OF assms(1), of set] by simp
  moreover have "callback ` set q' \<subseteq> {cb}" using assms(2) by auto
  ultimately show ?thesis by auto
qed

lemma serves_write:
  assumes s: "serves k c l" and kn: "kernel_ok kn" "\<forall>iovs. k_writev kn iovs \<noteq> WriteFail"
  shows "serves k c (handleWrite kn k l)" and "jobs (app (handleWrite kn k l)) = jobs (app l)"
    and "stream k (handleWrite kn k l) = stream k l"
proof -
  from s obtain d where d: "connections l k = Some d" "read_cb d = Some (client_read k)"
    "buffer_ok (read_buffer d)" "unread (read_buffer d) = []" "high_level_callback d = None"
    "low_level_callback d = None" "\<forall>m \<in> set (write_queue d). callback m = Some (\<lambda>_. id)" "tidy (write_queue d)"
    by (auto simp: serves_def)
  from handleWrite_open [OF d(1) _ d(6)] kn(2) d(8) obtain d' gone rest where
    d': "connections (handleWrite kn k l) k = Some d'" "same_reader k d d' l (handleWrite kn k l)"
      "high_level_callback d' = high_level_callback d" "write_queue d = gone @ rest"
      "map submission (write_queue d') = map submission rest" "app (handleWrite kn k l) = succeed_writes gone (app l)"
      "tidy (write_queue d')"
    by blast
  have app: "app (handleWrite kn k l) = app l" using d'(4,6) d(7) by (simp add: succeed_trivial)
  moreover have "\<forall>m \<in> set (write_queue d'). callback m = Some (\<lambda>_. id)"
    using callbacks_trivial [OF submission_callbacks [OF d'(5)]] d(7) d'(4) by simp
  ultimately show "serves k c (handleWrite kn k l)" and "jobs (app (handleWrite kn k l)) = jobs (app l)"
    using s d d' by (auto simp: serves_def same_reader_def)
  show "stream k (handleWrite kn k l) = stream k l"
    using kn(1) s d'(1) by (intro handleWrite_stream) (simp_all add: serves_def)
qed

text \<open>A worker's answer.\<close>

lemma dispatch_nonempty: "dispatch s m = Some b \<Longrightarrow> b \<noteq> []"
  by (auto simp: dispatch_def buildErrorResponse_def buildResponse_def append_magic_end_def Let_def
      split: ParserResult.splits option.splits sum.splits rpc_exn.splits)

lemma tidy_snoc: "tidy q \<Longrightarrow> offset m = 0 \<Longrightarrow> wbuffer m \<noteq> [] \<Longrightarrow> tidy (q @ [m])"
  by (cases q) (auto simp: tidy_def no_empty_def unsent_def)

lemma serves_answer:
  assumes s: "serves k c l" and j: "fst j = k" "dispatch_task s j = Some cl" "api_task cl = Some (k, t)"
  shows "serves k c (exec_task t l)" and "jobs (app (exec_task t l)) = jobs (app l)"
    and "stream k (exec_task t l) = stream k l @ the (dispatch s (snd j))"
proof -
  obtain b where b: "dispatch s (snd j) = Some b" "t = WriteOnce k (Some (\<lambda>_. id)) b"
    using j by (auto simp: dispatch_task_def split: if_splits)
  from s obtain d where d: "connections l k = Some d" "high_level_callback d = None" "tidy (write_queue d)"
    by (auto simp: serves_def)
  from write_step [OF d(1,2), of "(Some (\<lambda>_. id), b)"] b(2) obtain d' where
    d': "fills k d d' l (exec_task t l)" "write_queue d' = write_queue d @ [\<lparr>wbuffer = b, offset = 0, callback = Some (\<lambda>_. id)\<rparr>]"
    by (auto simp: submitted_meta_def)
  moreover have "tidy (write_queue d')" using d(3) d'(2) dispatch_nonempty [OF b(1)] by (simp add: tidy_snoc)
  ultimately show "serves k c (exec_task t l)" and "jobs (app (exec_task t l)) = jobs (app l)" using s d
    by (auto simp: serves_def fills_def same_reader_def)
  show "stream k (exec_task t l) = stream k l @ the (dispatch s (snd j))"
    using exec_task_stream [of t l k] d'(1) b by (simp add: fills_def)
qed

section \<open>A client, the loop and the workers\<close>

text \<open>
  The loop of a client with the bytes received from it and the messages the workers have answered, in
  the order of their answers. A step is a readable event with any bytes, the answer of a worker to any
  message of the pool that has none yet, or a writable event.
\<close>

record rpc_run =
  rloop :: "rpc_app loop"
  received :: "byte list"
  answered :: "(fd \<times> RpcContext) list"

inductive rpc_step :: "server \<Rightarrow> fd \<Rightarrow> rpc_run \<Rightarrow> rpc_run \<Rightarrow> bool" for s :: server and k :: fd where
  readable: "xs \<noteq> [] \<Longrightarrow> length xs \<le> buffer_size \<Longrightarrow>
    rpc_step s k r (r\<lparr>rloop := handleRead (read_kernel xs) k (rloop r), received := received r @ xs\<rparr>)"
| work: "j \<in># mset (jobs (app (rloop r))) - mset (answered r) \<Longrightarrow> dispatch_task s j = Some cl \<Longrightarrow>
    api_task cl = Some (k, t) \<Longrightarrow>
    rpc_step s k r (r\<lparr>rloop := exec_task t (rloop r), answered := answered r @ [j]\<rparr>)"
| writable: "kernel_ok kn \<Longrightarrow> \<forall>iovs. k_writev kn iovs \<noteq> WriteFail \<Longrightarrow>
    rpc_step s k r (r\<lparr>rloop := handleWrite kn k (rloop r)\<rparr>)"

definition rpc_inv :: "server \<Rightarrow> fd \<Rightarrow> byte list \<Rightarrow> rpc_run \<Rightarrow> bool" where
  "rpc_inv s k w r \<longleftrightarrow>
     (\<exists>ms c. feed (received r) new_context = (ms, c) \<and> serves k c (rloop r) \<and>
        jobs (app (rloop r)) = map (Pair k) ms) \<and>
     mset (answered r) \<subseteq># mset (jobs (app (rloop r))) \<and>
     stream k (rloop r) = w @ concat (map (\<lambda>j. the (dispatch s (snd j))) (answered r))"

lemma rpc_inv_step: "rpc_step s k r r' \<Longrightarrow> rpc_inv s k w r \<Longrightarrow> rpc_inv s k w r'"
proof (induction rule: rpc_step.induct)
  case (readable xs r)
  then obtain ms c where m: "feed (received r) new_context = (ms, c)" "serves k c (rloop r)"
    "jobs (app (rloop r)) = map (Pair k) ms" by (auto simp: rpc_inv_def)
  obtain ms' c' where f: "feed xs c = (ms', c')" by (rule prod.exhaust)
  have "feed (received r @ xs) new_context = (ms @ ms', c')" using m(1) f by (simp add: feed_append)
  moreover note e = request_event [OF m(2) readable(1,2) f]
  ultimately show ?case using readable(3) m(3) e
    by (auto simp: rpc_inv_def intro: subset_mset.order_trans mset_subset_eq_add_left)
next
  case (work j r cl t)
  then obtain ms c where m: "feed (received r) new_context = (ms, c)" "serves k c (rloop r)"
    "jobs (app (rloop r)) = map (Pair k) ms" by (auto simp: rpc_inv_def)
  have "j \<in># mset (jobs (app (rloop r)))" using work(1) by (meson in_diffD)
  then have "fst j = k" using m(3) by auto
  note e = serves_answer [OF m(2) this work(2,3)]
  have "mset (answered r) + {#j#} \<subseteq># mset (answered r) + (mset (jobs (app (rloop r))) - mset (answered r))"
    using work(1) by (intro mset_subset_eq_mono_add) simp_all
  moreover have "mset (answered r) \<subseteq># mset (jobs (app (rloop r)))" using work(4) by (simp add: rpc_inv_def)
  ultimately have "mset (answered r) + {#j#} \<subseteq># mset (jobs (app (rloop r)))"
    by (simp only: subset_mset.add_diff_inverse)
  with e m work(4) show ?case by (auto simp: rpc_inv_def)
next
  case (writable kn r)
  then show ?case using serves_write [OF _ writable(1,2)] by (auto simp: rpc_inv_def)
qed

lemma rpc_inv_reachable: "(rpc_step s k)\<^sup>*\<^sup>* r r' \<Longrightarrow> rpc_inv s k w r \<Longrightarrow> rpc_inv s k w r'"
  by (induction rule: rtranclp_induct) (auto intro: rpc_inv_step)

section \<open>From requests to answers\<close>

lemma start_inv:
  assumes "connections l k = None" and "accept_set l k = None" and "timer_fds l k = None" and "jobs (app l) = []"
    and "acceptClient k (app l) = (a, cs)" and "posts k cs ts"
  shows "rpc_inv s k (wire l k) \<lparr>rloop = fold exec_task ts (l\<lparr>app := a\<rparr>), received = [], answered = []\<rparr>"
    and "k \<noteq> -1"
  using accept_serves [OF assms(1,2,3,5,6)] assms(4) by (simp_all add: rpc_inv_def)

text \<open>A client that has sent whole requests: what is answered and what can be.\<close>

lemma requests_served:
  assumes inv: "rpc_inv s k w r" and k: "k \<noteq> -1"
    and "received r = frames qs" and "\<forall>(rid, svc, fn, ps) \<in> set qs. frame_ok rid svc fn ps"
    and "\<forall>key h ps body. handlers s key = Some h \<longrightarrow> h ps = Inr body \<longrightarrow> length body < 2 ^ 32"
    and requests: "requests = mset (map (Pair k) (map (\<lambda>(rid, svc, fn, ps). message rid svc fn ps) qs))"
  shows "\<exists>resps. stream k (rloop r) = w @ concat resps \<and>
      map decode_response resps = map (\<lambda>j. Some (answer s (snd j))) (answered r)"
    and "mset (answered r) \<subseteq># requests"
    and "j \<in># requests - mset (answered r) \<Longrightarrow>
      \<exists>r'. rpc_step s k r r' \<and> received r' = received r \<and> answered r' = answered r @ [j]"
proof -
  have f: "feed (received r) new_context = (map (\<lambda>(rid, svc, fn, ps). message rid svc fn ps) qs, new_context)"
    unfolding assms(3) using assms(4) by (rule feed_frames)
  with inv have jobs: "jobs (app (rloop r)) = map (Pair k) (map (\<lambda>(rid, svc, fn, ps). message rid svc fn ps) qs)"
    by (simp add: rpc_inv_def)
  then have req: "requests = mset (jobs (app (rloop r)))"
    by (simp only: requests)
  show sub: "mset (answered r) \<subseteq># requests" using inv req by (simp add: rpc_inv_def)
  have job: "fst j = k \<and> (\<exists>b. dispatch s (snd j) = Some b \<and> decode_response b = Some (answer s (snd j)))"
    if "j \<in># requests" for j
  proof -
    have "j \<in> set (map (Pair k) (map (\<lambda>(rid, svc, fn, ps). message rid svc fn ps) qs))"
      using that unfolding req jobs by simp
    then have "fst j = k" and "result (snd j) = COMPLETE \<or> snd j = error_context" by (auto simp: message_def)
    moreover from this(2) have "\<exists>b. dispatch s (snd j) = Some b \<and> decode_response b = Some (answer s (snd j))"
      by (rule dispatch_decodes) (use assms(5) in blast)
    ultimately show ?thesis by blast
  qed
  have "map decode_response (map (\<lambda>j. the (dispatch s (snd j))) (answered r)) = map (\<lambda>j. Some (answer s (snd j))) (answered r)"
    using job mset_subset_eqD [OF sub] by fastforce
  then show "\<exists>resps. stream k (rloop r) = w @ concat resps \<and>
      map decode_response resps = map (\<lambda>j. Some (answer s (snd j))) (answered r)"
    using inv by (intro exI [of _ "map (\<lambda>j. the (dispatch s (snd j))) (answered r)"]) (simp add: rpc_inv_def)
  assume that: "j \<in># requests - mset (answered r)"
  from job [OF in_diffD [OF that]] obtain b where b: "fst j = k" "dispatch s (snd j) = Some b" by blast
  then have "dispatch_task s j = Some (ApiWrite (Some k) (Some (\<lambda>_. id)) b)" by (simp add: dispatch_task_def)
  from work [OF that [unfolded req] this, of k "WriteOnce k (Some (\<lambda>_. id)) b"] k
  show "\<exists>r'. rpc_step s k r r' \<and> received r' = received r \<and> answered r' = answered r @ [j]" by auto
qed

text \<open>C2: the server answers its clients. From the moment a client is accepted, whatever the
  pieces its requests arrive in, whichever worker takes which message and however the socket takes the
  bytes: what has been written and is still queued for the client is, answer by answer, the decodable
  answer to one of its requests, each request answered at most once, and every request without an
  answer is waiting for a worker that can give it.\<close>

theorem rpc_requests_answered:
  assumes "connections l k = None" and "accept_set l k = None" and "timer_fds l k = None" and "jobs (app l) = []"
    and "acceptClient k (app l) = (a, cs)" and "posts k cs ts"
    and "(rpc_step s k)\<^sup>*\<^sup>* \<lparr>rloop = fold exec_task ts (l\<lparr>app := a\<rparr>), received = [], answered = []\<rparr> r"
    and "received r = frames qs" and "\<forall>(rid, svc, fn, ps) \<in> set qs. frame_ok rid svc fn ps"
    and "\<And>key h ps body. handlers s key = Some h \<Longrightarrow> h ps = Inr body \<Longrightarrow> length body < 2 ^ 32"
    and "requests = mset (map (Pair k) (map (\<lambda>(rid, svc, fn, ps). message rid svc fn ps) qs))"
  shows "\<exists>resps. wire (rloop r) k @ pending (queue_of k (rloop r)) = wire l k @ concat resps \<and>
      map decode_response resps = map (\<lambda>j. Some (answer s (snd j))) (answered r) \<and>
      mset (answered r) \<subseteq># requests \<and>
      (\<forall>j \<in># requests - mset (answered r). \<exists>r'. rpc_step s k r r' \<and> answered r' = answered r @ [j])"
proof -
  note start = start_inv [OF assms(1-6)]
  have "\<forall>key h ps body. handlers s key = Some h \<longrightarrow> h ps = Inr body \<longrightarrow> length body < 2 ^ 32"
    using assms(10) by blast
  note served = requests_served [OF rpc_inv_reachable [OF assms(7) start(1)] start(2) assms(8,9) this assms(11)]
  show ?thesis using served(1,2) served(3) by (fastforce simp: stream_def)
qed

text \<open>One client that sends one request, answered by a server without handlers.\<close>

definition rpc_loop :: "rpc_app loop" where
  "rpc_loop = new_loop (UserTask id) \<lparr>contexts = (\<lambda>_. new_context), jobs = [], closing = []\<rparr>"

definition accepted_run :: rpc_run where
  "accepted_run = \<lparr>rloop = fold exec_task [RegisterRead 5 (Some (client_read 5)), RegisterClose 5 (Some (\<lambda>_. id))]
      (rpc_loop\<lparr>app := fst (acceptClient 5 (app rpc_loop))\<rparr>), received = [], answered = []\<rparr>"

lemma rpc_loop_simps:
  "connections rpc_loop k = None" "accept_set rpc_loop k = None" "timer_fds rpc_loop k = None" "jobs (app rpc_loop) = []"
  by (simp_all add: rpc_loop_def new_loop_def)

lemma accepted_posts:
  "posts 5 (snd (acceptClient 5 (app rpc_loop))) [RegisterRead 5 (Some (client_read 5)), RegisterClose 5 (Some (\<lambda>_. id))]"
  by (simp add: posts_def acceptClient_def accept_calls_def)

theorem rpc_requests_answered_witness:
  "\<exists>r resps. (rpc_step new_server 5)\<^sup>*\<^sup>* accepted_run r \<and>
    wire (rloop r) 5 @ pending (queue_of 5 (rloop r)) = wire rpc_loop 5 @ concat resps \<and>
    map decode_response resps = [Some (answer new_server (message 3 [1] [2] []))]"
proof -
  let ?f = "request_frame 3 [1] [2] []" and ?j = "(5, message 3 [1] [2] [])"
  let ?r1 = "accepted_run\<lparr>rloop := handleRead (read_kernel ?f) 5 (rloop accepted_run), received := ?f\<rparr>"
  have "length ?f = 22" by (simp add: request_frame_def)
  then have "?f \<noteq> []" "length ?f \<le> buffer_size" by (auto simp: buffer_size_def)
  from readable [OF this, of new_server 5 accepted_run]
  have r1: "(rpc_step new_server 5)\<^sup>*\<^sup>* accepted_run ?r1" by (simp add: accepted_run_def)
  have "rpc_inv new_server 5 (wire rpc_loop 5) accepted_run"
    using accept_serves [OF rpc_loop_simps(1,2,3) prod.collapse [symmetric] accepted_posts]
    by (simp add: rpc_inv_def accepted_run_def rpc_loop_simps(4))
  from rpc_inv_reachable [OF r1 this] have jobs: "jobs (app (rloop ?r1)) = [?j]"
    using feed_frame [of 3 "[1]" "[2]" "[]" "[]"] by (simp add: rpc_inv_def frame_ok_def)
  obtain b where d: "dispatch new_server (snd ?j) = Some b"
    using dispatch_decodes [of "snd ?j" new_server] by (auto simp: message_def new_server_def)
  define r where "r = ?r1\<lparr>rloop := exec_task (WriteOnce 5 (Some (\<lambda>_. id)) b) (rloop ?r1), answered := [?j]\<rparr>"
  have "rpc_step new_server 5 ?r1
      (?r1\<lparr>rloop := exec_task (WriteOnce 5 (Some (\<lambda>_. id)) b) (rloop ?r1), answered := answered ?r1 @ [?j]\<rparr>)"
    using d by (intro work [where cl = "ApiWrite (Some 5) (Some (\<lambda>_. id)) b"])
      (simp_all only: jobs, simp_all add: dispatch_task_def accepted_run_def)
  then have step: "rpc_step new_server 5 ?r1 r" by (simp add: r_def accepted_run_def)
  with r1 have run: "(rpc_step new_server 5)\<^sup>*\<^sup>* accepted_run r" by (rule rtranclp.rtrancl_into_rtrancl)
  have "received r = frames [(3, [1], [2], [])]" by (simp add: r_def frames_def)
  from rpc_requests_answered [OF rpc_loop_simps prod.collapse [symmetric] accepted_posts run [unfolded accepted_run_def] this]
  obtain resps where "wire (rloop r) 5 @ pending (queue_of 5 (rloop r)) = wire rpc_loop 5 @ concat resps"
      "map decode_response resps = map (\<lambda>j. Some (answer new_server (snd j))) (answered r)"
    by (auto simp: frame_ok_def new_server_def)
  moreover have "answered r = [?j]" by (simp add: r_def)
  ultimately show ?thesis using run by (intro exI [of _ r] exI [of _ resps]) simp
qed

end
