(* ===== verification/Rpc_Liveness.thy ===== *)
theory Rpc_Liveness
  imports Rpc_Service
begin

text \<open>
  The RPC server can always finish what it has received: from wherever the loop, the workers and the
  socket of a client have got to, every request is answered and every answer reaches the socket.
\<close>

section \<open>The steps that complete the answers\<close>

text \<open>
  The steps without another byte from the client, and with those events alone that epoll reports: a worker
  answers, and the loop writes when epoll watches the client's socket for writing.
\<close>

inductive rpc_own_step :: "server \<Rightarrow> fd \<Rightarrow> rpc_run \<Rightarrow> rpc_run \<Rightarrow> bool" for s :: server and k :: fd where
  work: "j \<in># mset (jobs (app (rloop r))) - mset (answered r) \<Longrightarrow> dispatch_task s j = Some cl \<Longrightarrow>
    api_task cl = Some (k, t) \<Longrightarrow>
    rpc_own_step s k r (r\<lparr>rloop := exec_task t (rloop r), answered := answered r @ [j]\<rparr>)"
| writable: "epoll (rloop r) k = Some (b, True) \<Longrightarrow> kernel_ok kn \<Longrightarrow> \<forall>iovs. k_writev kn iovs \<noteq> WriteFail \<Longrightarrow>
    rpc_own_step s k r (r\<lparr>rloop := handleWrite kn k (rloop r)\<rparr>)"

lemma own_rpc_step: "rpc_own_step s k r r' \<Longrightarrow> rpc_step s k r r'"
  by (induction rule: rpc_own_step.induct) (auto intro: rpc_step.intros)

lemma own_rpc_steps: "(rpc_own_step s k)\<^sup>*\<^sup>* r r' \<Longrightarrow> (rpc_step s k)\<^sup>*\<^sup>* r r'"
  by (induction rule: rtranclp_induct) (auto intro: own_rpc_step rtranclp.rtrancl_into_rtrancl)

lemma answering_step: "rpc_step s k r r' \<Longrightarrow> answered r' \<noteq> answered r \<Longrightarrow> rpc_own_step s k r r'"
  by (induction rule: rpc_step.induct) (auto intro: rpc_own_step.intros)

text \<open>An accepted client is watched: registering it asks for reading, an answer asks for writing.\<close>

lemma accept_watched:
  assumes "connections l k = None" and "accept_set l k = None" and "timer_fds l k = None" and "epoll l k = None"
    and "acceptClient k (app l) = (a, cs)" and "posts k cs ts"
  shows "watched k (fold exec_task ts (l\<lparr>app := a\<rparr>))"
proof -
  have ts: "ts = [RegisterRead k (Some (client_read k)), RegisterClose k (Some (\<lambda>_. id))]"
    using assms(5,6) by (auto simp: acceptClient_def accept_calls_def posts_def split: if_splits)
  have "watched k (exec_task (RegisterRead k (Some (client_read k))) (l\<lparr>app := a\<rparr>))"
    using assms(1-4) by (intro watched_register) simp_all
  from watched_closing [OF this] show ?thesis by (simp add: ts del: exec_task.simps)
qed

lemma watched_answer:
  assumes "dispatch_task s j = Some cl" and "api_task cl = Some (k, t)" and "watched k l"
  shows "watched k (exec_task t l)"
proof -
  obtain cb b where "t = WriteOnce k cb b" using assms(1,2) by (auto simp: dispatch_task_def split: if_splits)
  with watched_once [OF assms(3)] show ?thesis by (simp del: exec_task.simps)
qed

definition live :: "server \<Rightarrow> fd \<Rightarrow> byte list \<Rightarrow> rpc_run \<Rightarrow> bool" where
  "live s k w r \<longleftrightarrow> rpc_inv s k w r \<and> watched k (rloop r)"

lemma live_step:
  assumes "rpc_step s k r r'" and "live s k w r"
  shows "live s k w r'"
  unfolding live_def
proof
  show "rpc_inv s k w r'" using assms rpc_inv_step by (simp add: live_def)
  show "watched k (rloop r')"
    using assms
  proof cases
    case (readable xs)
    from assms(2) obtain d where d: "connections (rloop r) k = Some d" "buffer_ok (read_buffer d)" "unread (read_buffer d) = []"
      by (auto simp: live_def rpc_inv_def serves_def)
    then have "k_read (read_kernel xs) (sb_size (read_buffer d) - data_size (read_buffer d)) = ReadData xs"
      using readable(2,3) length_unread [OF d(2)] by (cases xs) (auto simp: read_kernel_def buffer_ok_def)
    with assms(2) d(1) readable(1) show ?thesis by (auto simp: live_def intro: watched_read)
  qed (use assms(2) in \<open>simp_all add: live_def watched_write watched_answer\<close>)
qed

lemma live_run: "(rpc_step s k)\<^sup>*\<^sup>* r r' \<Longrightarrow> live s k w r \<Longrightarrow> live s k w r'"
  by (induction rule: rtranclp_induct) (auto intro: live_step)

section \<open>The workers finish, the socket drains\<close>

lemma answer_all:
  assumes "live s k w r" and "k \<noteq> -1"
    and "received r = frames qs" and "\<forall>(rid, svc, fn, ps) \<in> set qs. frame_ok rid svc fn ps"
    and "\<forall>key h ps body. handlers s key = Some h \<longrightarrow> h ps = Inr body \<longrightarrow> length body < 2 ^ 32"
    and "requests = mset (map (Pair k) (map (\<lambda>(rid, svc, fn, ps). message rid svc fn ps) qs))"
  shows "\<exists>r'. (rpc_own_step s k)\<^sup>*\<^sup>* r r' \<and> received r' = received r \<and> mset (answered r') = requests"
  using assms(1,3)
proof (induction "size (requests - mset (answered r))" arbitrary: r rule: less_induct)
  case less
  have "rpc_inv s k w r" using less.prems(1) by (simp add: live_def)
  note served = requests_served [OF this assms(2) less.prems(2) assms(4-6)]
  show ?case
  proof (cases "requests - mset (answered r) = {#}")
    case True
    with served(2) have "mset (answered r) = requests"
      by (simp add: Diff_eq_empty_iff_mset subset_mset.antisym)
    then show ?thesis by blast
  next
    case False
    then obtain j where j: "j \<in># requests - mset (answered r)" by blast
    from served(3) [OF j] obtain r1 where
      r1: "rpc_own_step s k r r1" "received r1 = received r" "answered r1 = answered r @ [j]"
      using answering_step by fastforce
    have "requests - mset (answered r1) = requests - mset (answered r) - {#j#}" using r1(3) by simp
    then have "size (requests - mset (answered r1)) < size (requests - mset (answered r))"
      using j by (simp only: size_Diff1_less)
    from less.hyps [OF this live_step [OF own_rpc_step [OF r1(1)] less.prems(1)]] r1(2) less.prems(2) obtain r' where
      "(rpc_own_step s k)\<^sup>*\<^sup>* r1 r'" "received r' = received r1" "mset (answered r') = requests" by auto
    with r1 show ?thesis by (metis converse_rtranclp_into_rtranclp)
  qed
qed

lemma answers_drain:
  assumes "live s k w r"
  shows "\<exists>l. (rpc_own_step s k)\<^sup>*\<^sup>* r (r\<lparr>rloop := l\<rparr>) \<and> wire l k = stream k (rloop r) \<and> queue_of k l = []"
proof -
  from assms obtain d where d: "watched k (rloop r)" "connections (rloop r) k = Some d" "no_empty (write_queue d)"
    by (auto simp: live_def rpc_inv_def serves_def tidy_def)
  have "rpc_own_step s k (r\<lparr>rloop := l\<rparr>) (r\<lparr>rloop := handleWrite kn k l\<rparr>)"
    if "kernel_ok kn" "\<forall>iovs. k_writev kn iovs \<noteq> WriteFail" "\<exists>b. epoll l k = Some (b, True)" for l kn
    using rpc_own_step.writable [of "r\<lparr>rloop := l\<rparr>" k _ kn s] that by auto
  from queue_flushed [of k "rpc_own_step s k" "\<lambda>l. r\<lparr>rloop := l\<rparr>", OF this d] show ?thesis by auto
qed

section \<open>Every request gets its answer\<close>

text \<open>C4: the answers come. From every state that a client's requests, the workers and the
  socket lead to, and without another byte from the client: the workers can give every request that has
  none its answer, and the loop, which writes only when epoll watches the socket for it, hands all of them
  to the socket, so that what the client gets is the decodable answer to each of its requests, once
  each, and nothing is left in the queue. The connection stays open and no write fails.\<close>

theorem answers_come:
  assumes "connections l k = None" and "accept_set l k = None" and "timer_fds l k = None" and "epoll l k = None"
    and "jobs (app l) = []" and "acceptClient k (app l) = (a, cs)" and "posts k cs ts"
    and "(rpc_step s k)\<^sup>*\<^sup>* \<lparr>rloop = fold exec_task ts (l\<lparr>app := a\<rparr>), received = [], answered = []\<rparr> r"
    and "received r = frames qs" and "\<forall>(rid, svc, fn, ps) \<in> set qs. frame_ok rid svc fn ps"
    and "\<And>key h ps body. handlers s key = Some h \<Longrightarrow> h ps = Inr body \<Longrightarrow> length body < 2 ^ 32"
    and "requests = mset (map (Pair k) (map (\<lambda>(rid, svc, fn, ps). message rid svc fn ps) qs))"
  shows "\<exists>r' resps. (rpc_own_step s k)\<^sup>*\<^sup>* r r' \<and> received r' = received r \<and> mset (answered r') = requests \<and>
      queue_of k (rloop r') = [] \<and> wire (rloop r') k = wire l k @ concat resps \<and>
      map decode_response resps = map (\<lambda>j. Some (answer s (snd j))) (answered r')"
proof -
  note start = start_inv [OF assms(1-3,5-7)]
  have small: "\<forall>key h ps body. handlers s key = Some h \<longrightarrow> h ps = Inr body \<longrightarrow> length body < 2 ^ 32"
    using assms(11) by blast
  have "live s k (wire l k) \<lparr>rloop = fold exec_task ts (l\<lparr>app := a\<rparr>), received = [], answered = []\<rparr>"
    using start(1) accept_watched [OF assms(1-4,6,7)] by (simp add: live_def)
  then have live: "live s k (wire l k) r" by (rule live_run [OF assms(8)])
  from answer_all [OF live start(2) assms(9,10) small assms(12)] obtain r1 where
    r1: "(rpc_own_step s k)\<^sup>*\<^sup>* r r1" "received r1 = received r" "mset (answered r1) = requests" by blast
  have live1: "live s k (wire l k) r1" by (rule live_run [OF own_rpc_steps [OF r1(1)] live])
  then have "rpc_inv s k (wire l k) r1" by (simp add: live_def)
  from requests_served(1) [OF this start(2) r1(2) [unfolded assms(9)] assms(10) small assms(12)] obtain resps where
    resps: "stream k (rloop r1) = wire l k @ concat resps"
      "map decode_response resps = map (\<lambda>j. Some (answer s (snd j))) (answered r1)" by blast
  from answers_drain [OF live1] obtain l' where
    l': "(rpc_own_step s k)\<^sup>*\<^sup>* r1 (r1\<lparr>rloop := l'\<rparr>)" "wire l' k = stream k (rloop r1)" "queue_of k l' = []" by blast
  have "(rpc_own_step s k)\<^sup>*\<^sup>* r (r1\<lparr>rloop := l'\<rparr>)" using r1(1) l'(1) by (rule rtranclp_trans)
  with r1 resps l' show ?thesis
    by (intro exI [of _ "r1\<lparr>rloop := l'\<rparr>"] exI [of _ resps]) simp
qed

theorem answers_come_witness:
  "\<exists>r1 r resps. (rpc_step new_server 5)\<^sup>*\<^sup>* accepted_run r1 \<and> received r1 = request_frame 3 [1] [2] [] \<and>
    (rpc_own_step new_server 5)\<^sup>*\<^sup>* r1 r \<and> wire (rloop r) 5 = concat resps \<and>
    map decode_response resps = [Some (answer new_server (message 3 [1] [2] []))]"
proof -
  let ?f = "request_frame 3 [1] [2] []"
  define r1 where "r1 = accepted_run\<lparr>rloop := handleRead (read_kernel ?f) 5 (rloop accepted_run), received := ?f\<rparr>"
  have "length ?f = 22" by (simp add: request_frame_def)
  then have "?f \<noteq> []" "length ?f \<le> buffer_size" by (auto simp: buffer_size_def)
  from readable [OF this, of new_server 5 accepted_run]
  have run: "(rpc_step new_server 5)\<^sup>*\<^sup>* accepted_run r1" by (simp add: accepted_run_def r1_def)
  have "received r1 = frames [(3, [1], [2], [])]" by (simp add: frames_def r1_def)
  moreover have "epoll rpc_loop 5 = None" by (simp add: rpc_loop_def new_loop_def)
  ultimately obtain r resps where r: "(rpc_own_step new_server 5)\<^sup>*\<^sup>* r1 r" "mset (answered r) = {#(5, message 3 [1] [2] [])#}"
      "wire (rloop r) 5 = wire rpc_loop 5 @ concat resps"
      "map decode_response resps = map (\<lambda>j. Some (answer new_server (snd j))) (answered r)"
    using answers_come [OF rpc_loop_simps(1-3) _ rpc_loop_simps(4) prod.collapse [symmetric] accepted_posts run [unfolded accepted_run_def],
        of "[(3, [1], [2], [])]" "{#(5, message 3 [1] [2] [])#}"]
    by (auto simp: frame_ok_def new_server_def)
  moreover have "answered r = [(5, message 3 [1] [2] [])]" using r(2) by simp
  moreover have "wire rpc_loop 5 = []" by (simp add: rpc_loop_def new_loop_def)
  moreover have "received r1 = ?f" by (simp add: r1_def)
  ultimately show ?thesis using run by (intro exI [of _ r1] exI [of _ r] exI [of _ resps]) simp
qed

end
