(* ===== verification/Rpc_Program.thy ===== *)
theory Rpc_Program
  imports Rpc_Service
begin

text \<open>
  \<^verbatim>\<open>RpcServerImpl\<close> of \<^verbatim>\<open>src/app/rpc/RpcServer.cpp\<close> as a whole: its members, the constructor with the
  accept callback, and the operations of \<^verbatim>\<open>RpcServer\<close> that only pass a call on. Then the events that take it
  from construction to the first clients: the loop that registers the listening socket, accepts that post
  a task each, and the tasks, with every call made on the context of the program.
\<close>

section \<open>Members and constructor\<close>

text \<open>
  The calls that the callbacks of the server make on its context, by name: the accept callback posts a
  task that runs \<^verbatim>\<open>acceptClient\<close>, and that task calls the two registrations of its client. They are
  listed while a callback runs and made when it returns, which is the last thing each of the two does.
\<close>

datatype rpc_call = PostAccept fd | AcceptCalls fd

text \<open>
  What the callbacks work on, beside the state of the client callbacks: the calls of the callback that
  runs, and whether it has dereferenced a null client.
\<close>

record rpc_program = rpc_app +
  outbox :: "rpc_call list"
  crashed :: bool

definition new_program :: rpc_program where
  "new_program = \<lparr>contexts = (\<lambda>_. new_context), jobs = [], closing = [], outbox = [], crashed = False\<rparr>"

definition on_accept :: "rpc_program accept_fun" where
  "on_accept client a =
     (case client of
        None \<Rightarrow> a\<lparr>crashed := True\<rparr>
      | Some k \<Rightarrow> a\<lparr>outbox := outbox a @ [PostAccept k]\<rparr>)"

text \<open>The task that the accept callback posts.\<close>

definition accept_task :: "fd \<Rightarrow> rpc_program \<Rightarrow> rpc_program" where
  "accept_task k a = (fst (acceptClient k a))\<lparr>outbox := outbox a @ [AcceptCalls k]\<rparr>"

fun rpc_api :: "rpc_call \<Rightarrow> rpc_program api list" where
  "rpc_api (PostAccept k) = [ApiTask (Some k) (accept_task k)]"
| "rpc_api (AcceptCalls k) = accept_calls k"

record rpc_impl =
  rpc_context :: "rpc_program epoll_context"
  listen_fd :: fd
  rpc_server :: server
  pool_threads :: nat

text \<open>
  The constructor, with the descriptor \<^verbatim>\<open>getSocket\<close> made: the listening socket is registered at once; on
  an invalid one the registration is logged and forgotten.
\<close>

definition new_rpc_impl :: "(fd \<Rightarrow> nat) \<Rightarrow> fd \<Rightarrow> rpc_impl option" where
  "new_rpc_impl hash created =
     (let ctx = new_epoll_context (UserTask id) new_program;
          impl = \<lparr>rpc_context = ctx, listen_fd = created, rpc_server = new_server, pool_threads = 2\<rparr> in
      case registerAccept hash (Some created) (Some on_accept) ctx of
        Posted ctx \<Rightarrow> Some (impl\<lparr>rpc_context := ctx\<rparr>)
      | Waiting \<Rightarrow> None
      | Rejected f \<Rightarrow> Some impl)"

section \<open>Operations\<close>

definition rpc_run :: "bool \<Rightarrow> rpc_impl \<Rightarrow> rpc_impl option" where
  "rpc_run block impl = map_option (\<lambda>ctx. impl\<lparr>rpc_context := ctx\<rparr>) (ctx_run block (rpc_context impl))"

definition rpc_close :: "rpc_impl \<Rightarrow> rpc_impl" where
  "rpc_close impl = impl\<lparr>rpc_context := ctx_close (rpc_context impl)\<rparr>"

definition rpc_bindAndListen :: "string \<Rightarrow> int \<Rightarrow> bool \<Rightarrow> bool \<Rightarrow> bool \<Rightarrow> rpc_impl \<Rightarrow> bool \<times> rpc_impl" where
  "rpc_bindAndListen ip port bind_ok listen_ok nacos_ok impl =
     (case bindAndListen ip port (listen_fd impl \<noteq> -1 \<and> bind_ok) listen_ok nacos_ok (rpc_server impl) of
        (ok, s) \<Rightarrow> (ok, impl\<lparr>rpc_server := s\<rparr>))"

definition rpc_registerServiceName :: "byte list \<Rightarrow> bool \<Rightarrow> rpc_impl \<Rightarrow> rpc_impl option" where
  "rpc_registerServiceName name nacos_ok impl =
     map_option (\<lambda>s. impl\<lparr>rpc_server := s\<rparr>) (registerDiscovery name nacos_ok (rpc_server impl))"

definition rpc_registerService :: "(server \<Rightarrow> server option) \<Rightarrow> rpc_impl \<Rightarrow> rpc_impl option" where
  "rpc_registerService setup impl = map_option (\<lambda>s. impl\<lparr>rpc_server := s\<rparr>) (registerService setup (rpc_server impl))"

definition rpc_addHandler :: "byte list \<Rightarrow> byte list \<Rightarrow> rpc_handler \<Rightarrow> rpc_impl \<Rightarrow> rpc_impl" where
  "rpc_addHandler grp name h impl = impl\<lparr>rpc_server := addHandler grp name h (rpc_server impl)\<rparr>"

section \<open>Events\<close>

text \<open>
  What an event of a loop comes to: the program runs on, a call waits for room in a queue, or the program
  is gone through a null pointer.
\<close>

datatype progress = Runs rpc_impl | Spins | Crashed

definition leave_callback :: "(fd \<Rightarrow> nat) \<Rightarrow> nat \<Rightarrow> rpc_program loop \<Rightarrow> rpc_impl \<Rightarrow> progress" where
  "leave_callback hash i l impl =
     (if crashed (app l) then Crashed
      else case api_calls hash (concat (map rpc_api (outbox (app l))))
                 (with_loop i (l\<lparr>app := (app l)\<lparr>outbox := []\<rparr>\<rparr>) (rpc_context impl)) of
             None \<Rightarrow> Spins
           | Some ctx \<Rightarrow> Runs (impl\<lparr>rpc_context := ctx\<rparr>))"

definition accept_kernel :: "fd option \<Rightarrow> kernel" where
  "accept_kernel r = \<lparr>k_read = (\<lambda>_. ReadAgain), k_writev = (\<lambda>_. WriteAgain), k_accept = r\<rparr>"

text \<open>The listening socket is readable: one \<^verbatim>\<open>accept\<close>, one call of the callback with what it returns.\<close>

definition accept_event :: "(fd \<Rightarrow> nat) \<Rightarrow> fd option \<Rightarrow> rpc_impl \<Rightarrow> progress" where
  "accept_event hash r impl =
     (let i = hash (listen_fd impl) mod LOOP_SIZE
      in leave_callback hash i (handleRead (accept_kernel r) (listen_fd impl) (loop_at i (rpc_context impl))) impl)"

fun accept_events :: "(fd \<Rightarrow> nat) \<Rightarrow> fd option list \<Rightarrow> rpc_impl \<Rightarrow> progress" where
  "accept_events hash [] impl = Runs impl"
| "accept_events hash (r # rs) impl =
     (case accept_event hash r impl of Runs impl \<Rightarrow> accept_events hash rs impl | p \<Rightarrow> p)"

text \<open>One round of the loop of \<^verbatim>\<open>drainTasks\<close> in a loop thread, and several.\<close>

definition task_event :: "(fd \<Rightarrow> nat) \<Rightarrow> nat \<Rightarrow> rpc_impl \<Rightarrow> progress" where
  "task_event hash i impl =
     (let l = loop_at i (rpc_context impl) in
      case mpsc_pop (task_queue l) of
        None \<Rightarrow> Spins
      | Some (None, q) \<Rightarrow> Runs impl
      | Some (Some t, q) \<Rightarrow> leave_callback hash i (exec_task t (l\<lparr>task_queue := q\<rparr>)) impl)"

fun task_events :: "(fd \<Rightarrow> nat) \<Rightarrow> nat \<Rightarrow> nat \<Rightarrow> rpc_impl \<Rightarrow> progress" where
  "task_events hash i 0 impl = Runs impl"
| "task_events hash i (Suc n) impl =
     (case task_event hash i impl of Runs impl \<Rightarrow> task_events hash i n impl | p \<Rightarrow> p)"

section \<open>Calls and queues\<close>

definition queues_ok :: "rpc_impl \<Rightarrow> bool" where
  "queues_ok impl \<longleftrightarrow> length (loops (rpc_context impl)) = 4 \<and>
     (\<forall>i < 4. mp_inv (task_queue (loop_at i (rpc_context impl))) \<and> mp_cap (task_queue (loop_at i (rpc_context impl))) = 512)"

definition queued :: "nat \<Rightarrow> rpc_impl \<Rightarrow> rpc_program task list" where
  "queued i impl = mp_contents (task_queue (loop_at i (rpc_context impl)))"

lemma postTask_cap: "postTask t l = Some l' \<Longrightarrow> mp_cap (task_queue l') = mp_cap (task_queue l)"
  by (auto simp: postTask_def mpsc_push_def mp_cap_def wake_def Let_def split: option.splits if_splits)

lemma post_to_cap:
  assumes "post_to hash fd t ctx = Posted ctx'" and "i < length (loops ctx)"
  shows "mp_cap (task_queue (loop_at i ctx')) = mp_cap (task_queue (loop_at i ctx))"
proof -
  let ?i = "hash fd mod length (loops ctx)"
  from assms obtain l where l: "postTask t (loop_at ?i ctx) = Some l" "ctx' = with_loop ?i l ctx"
    by (auto simp: post_to_def Let_def loop_at_def split: option.splits)
  moreover have "?i < length (loops ctx)" by (rule mod_less_divisor) (use assms(2) in linarith)
  ultimately show ?thesis using postTask_cap [OF l(1)] by simp
qed

lemma api_calls_cap: "api_calls hash cs ctx = Some ctx' \<Longrightarrow> i < length (loops ctx) \<Longrightarrow>
    mp_cap (task_queue (loop_at i ctx')) = mp_cap (task_queue (loop_at i ctx))"
proof (induction cs arbitrary: ctx)
  case (Cons c cs)
  show ?case
  proof (cases "api_task c")
    case None
    then obtain f where "api_call hash c ctx = Rejected f" using api_call_reject by blast
    with Cons show ?thesis by simp
  next
    case (Some p)
    obtain fd t where "p = (fd, t)" by (cases p)
    with Some have call: "api_call hash c ctx = post_to hash fd t ctx" by (simp add: api_call_post)
    with Cons.prems(1) obtain ctx1 where ctx1: "post_to hash fd t ctx = Posted ctx1" "api_calls hash cs ctx1 = Some ctx'"
      by (auto simp: post_to_def Let_def split: option.splits)
    then have "length (loops ctx1) = length (loops ctx)" by (auto simp: post_to_def Let_def split: option.splits)
    with Cons.IH [OF ctx1(2)] post_to_cap [OF ctx1(1)] Cons.prems(2) show ?thesis by simp
  qed
qed simp

lemma leave_callback_posts:
  assumes "queues_ok impl" and "i < 4" and "mp_inv (task_queue l)" and "mp_cap (task_queue l) = 512"
    and "\<not> crashed (app l)" and "cs = concat (map rpc_api (outbox (app l)))"
    and "\<forall>j < 4. length (if j = i then mp_contents (task_queue l) else queued j impl) + length cs < 512"
  shows "\<exists>impl'. leave_callback hash i l impl = Runs impl' \<and> queues_ok impl' \<and> listen_fd impl' = listen_fd impl \<and>
    (\<forall>j < 4. queued j impl' = (if j = i then mp_contents (task_queue l) else queued j impl) @ routed hash 4 j cs \<and>
       same_but_queue (if j = i then l\<lparr>app := (app l)\<lparr>outbox := []\<rparr>\<rparr> else loop_at j (rpc_context impl))
         (loop_at j (rpc_context impl')))"
proof -
  let ?ctx = "with_loop i (l\<lparr>app := (app l)\<lparr>outbox := []\<rparr>\<rparr>) (rpc_context impl)"
  have n: "length (loops (rpc_context impl)) = 4" using assms(1) by (simp add: queues_ok_def)
  have at: "loop_at j ?ctx = (if j = i then l\<lparr>app := (app l)\<lparr>outbox := []\<rparr>\<rparr> else loop_at j (rpc_context impl))" for j
    using assms(2) n by simp
  have inv: "mp_inv (task_queue (loop_at j ?ctx)) \<and> mp_cap (task_queue (loop_at j ?ctx)) = 512" if "j < 4" for j
    using assms(1,3,4) that by (simp add: at queues_ok_def)
  have con: "mp_contents (task_queue (loop_at j ?ctx)) = (if j = i then mp_contents (task_queue l) else queued j impl)" for j
    by (simp add: at queued_def)
  from api_calls_routed [of ?ctx cs hash] inv assms(7) n obtain ctx' where
    c: "api_calls hash cs ?ctx = Some ctx'" "length (loops ctx') = 4"
      "\<forall>j < 4. mp_inv (task_queue (loop_at j ctx')) \<and>
        mp_contents (task_queue (loop_at j ctx')) = mp_contents (task_queue (loop_at j ?ctx)) @ routed hash 4 j cs \<and>
        same_but_queue (loop_at j ?ctx) (loop_at j ctx')"
    unfolding con by auto
  have "mp_cap (task_queue (loop_at j ctx')) = 512" if "j < 4" for j
    using api_calls_cap [OF c(1), of j] inv [OF that] that n by simp
  then have "queues_ok (impl\<lparr>rpc_context := ctx'\<rparr>)" using c(2,3) by (simp add: queues_ok_def)
  with c assms(5,6) show ?thesis
    by (intro exI [of _ "impl\<lparr>rpc_context := ctx'\<rparr>"]) (simp add: leave_callback_def queued_def con at [symmetric] del: with_loop_simps)
qed

lemma task_event_runs:
  assumes "queues_ok impl" and "i < 4" and "queued i impl = t # ts"
    and l: "l = exec_task t (loop_at i (rpc_context impl))" and "\<not> crashed (app l)"
    and "cs = concat (map rpc_api (outbox (app l)))"
    and "\<forall>j < 4. length (if j = i then ts else queued j impl) + length cs < 512"
  shows "\<exists>impl'. task_event hash i impl = Runs impl' \<and> queues_ok impl' \<and> listen_fd impl' = listen_fd impl \<and>
    (\<forall>j < 4. queued j impl' = (if j = i then ts else queued j impl) @ routed hash 4 j cs \<and>
       same_but_queue (if j = i then l\<lparr>app := (app l)\<lparr>outbox := []\<rparr>\<rparr> else loop_at j (rpc_context impl))
         (loop_at j (rpc_context impl')))"
proof -
  let ?m = "loop_at i (rpc_context impl)"
  have "mp_inv (task_queue ?m)" "mp_cap (task_queue ?m) = 512" using assms(1,2) by (simp_all add: queues_ok_def)
  with mpsc.pop_some [of "task_queue ?m" t ts] assms(3) obtain q where
    q: "mpsc_pop (task_queue ?m) = Some (Some t, q)" "mp_inv q" "mp_contents q = ts" "mp_cap q = 512"
    by (auto simp: queued_def)
  have l': "exec_task t (?m\<lparr>task_queue := q\<rparr>) = l\<lparr>task_queue := q\<rparr>" by (simp add: l exec_task_queue)
  have "same_but_queue (l\<lparr>app := (app l)\<lparr>outbox := []\<rparr>\<rparr>) (l\<lparr>task_queue := q, app := (app l)\<lparr>outbox := []\<rparr>\<rparr>)"
    by (rule same_but_queueI [where q = q and b = "awake l" and w = "wakeups l"]) simp
  then have same: "same_but_queue (l\<lparr>app := (app l)\<lparr>outbox := []\<rparr>\<rparr>) m" if
    "same_but_queue (l\<lparr>task_queue := q, app := (app l)\<lparr>outbox := []\<rparr>\<rparr>) m" for m
    using that same_but_queue_trans by blast
  from leave_callback_posts [of impl i "l\<lparr>task_queue := q\<rparr>" cs hash] assms(1,2,5-7) q(2-4) obtain impl' where
    i: "leave_callback hash i (l\<lparr>task_queue := q\<rparr>) impl = Runs impl'" "queues_ok impl'" "listen_fd impl' = listen_fd impl"
      "\<forall>j < 4. queued j impl' = (if j = i then ts else queued j impl) @ routed hash 4 j cs \<and>
        same_but_queue (if j = i then l\<lparr>task_queue := q, app := (app l)\<lparr>outbox := []\<rparr>\<rparr> else loop_at j (rpc_context impl))
          (loop_at j (rpc_context impl'))" by (auto cong: if_cong)
  have "task_event hash i impl = Runs impl'" using q(1) i(1) by (simp add: task_event_def Let_def l')
  moreover have "same_but_queue (if j = i then l\<lparr>app := (app l)\<lparr>outbox := []\<rparr>\<rparr> else loop_at j (rpc_context impl))
      (loop_at j (rpc_context impl'))" if "j < 4" for j
    using i(4) that same by (cases "j = i") auto
  ultimately show ?thesis using i(2-4) by (intro exI [of _ impl']) simp
qed

section \<open>From construction to the first client\<close>

text \<open>Starting the context changes no loop.\<close>

lemma run_loops:
  "length (loops (rpc_context impl)) = 4 \<Longrightarrow>
   \<exists>impl'. rpc_run False impl = Some impl' \<and> listen_fd impl' = listen_fd impl \<and> length (loops (rpc_context impl')) = 4 \<and>
     (\<forall>i < 4. loop_at i (rpc_context impl') = loop_at i (rpc_context impl))"
  by (simp add: rpc_run_def ctx_run_def Let_def loop_at_def start_def)

text \<open>A descriptor that no loop knows, and a client that its loop serves.\<close>

definition unknown :: "fd \<Rightarrow> 'a loop \<Rightarrow> bool" where
  "unknown k l \<longleftrightarrow> connections l k = None \<and> accept_set l k = None \<and> timer_fds l k = None \<and> epoll l k = None"

definition serving :: "fd \<Rightarrow> rpc_program loop \<Rightarrow> bool" where
  "serving k l \<longleftrightarrow> watched k l \<and> contexts (app l) k = new_context \<and>
     (\<exists>d. connections l k = Some d \<and> read_cb d = Some (client_read k))"

lemma same_but_queue_fields:
  assumes "same_but_queue l l'"
  shows "connections l' = connections l" "accept_set l' = accept_set l" "timer_fds l' = timer_fds l"
    "epoll l' = epoll l" "app l' = app l"
  using assms by (auto simp: same_but_queue_def)

lemma serving_same: "same_but_queue l l' \<Longrightarrow> serving k l' = serving k l"
  by (simp add: serving_def watched_def same_but_queue_fields)

text \<open>No callback is running, and no client has sent anything.\<close>

definition calm :: "rpc_program loop \<Rightarrow> bool" where
  "calm l \<longleftrightarrow> outbox (app l) = [] \<and> \<not> crashed (app l) \<and> (\<forall>k. contexts (app l) k = new_context)"

lemma calm_same: "same_but_queue l l' \<Longrightarrow> calm l' = calm l"
  by (simp add: calm_def same_but_queue_fields)

lemma unknown_same: "same_but_queue l l' \<Longrightarrow> unknown k l' = unknown k l"
  by (simp add: unknown_def same_but_queue_fields)

text \<open>The program when its listening socket is registered.\<close>

definition listening :: "(fd \<Rightarrow> nat) \<Rightarrow> fd \<Rightarrow> rpc_impl \<Rightarrow> bool" where
  "listening hash created impl \<longleftrightarrow> queues_ok impl \<and> listen_fd impl = created \<and>
     accept_set (loop_at (hash created mod 4) (rpc_context impl)) created = Some (Some on_accept) \<and>
     (\<forall>i < 4. calm (loop_at i (rpc_context impl)) \<and>
        (\<forall>k. k \<noteq> created \<longrightarrow> unknown k (loop_at i (rpc_context impl))))"

lemma server_starts:
  assumes "created \<noteq> -1"
  shows "\<exists>impl impl' impl1. new_rpc_impl hash created = Some impl \<and> rpc_run False impl = Some impl' \<and>
    task_event hash (hash created mod 4) impl' = Runs impl1 \<and> listening hash created impl1 \<and> (\<forall>i < 4. queued i impl1 = [])"
proof -
  let ?i = "hash created mod 4" and ?l = "new_loop (UserTask id) new_program" and ?t = "RegisterAccept created (Some on_accept)"
  let ?ctx = "new_epoll_context (UserTask id) new_program"
  have api: "api_task (ApiAccept (Some created) (Some on_accept)) = Some (created, ?t)" using assms by simp
  with new_epoll_context_routed [of "[ApiAccept (Some created) (Some on_accept)]" hash "UserTask id" new_program] obtain ctx where
    calls: "api_calls hash [ApiAccept (Some created) (Some on_accept)] ?ctx = Some ctx" and
    ctx: "\<forall>i < 4. mp_inv (task_queue (loop_at i ctx)) \<and> same_but_queue ?l (loop_at i ctx) \<and>
        mp_contents (task_queue (loop_at i ctx)) = (if i = ?i then [?t] else [])" by auto
  have cap: "mp_cap (task_queue (loop_at i ctx)) = 512" if "i < 4" for i
    using api_calls_cap [OF calls, of i] that new_epoll_context_loops [where t = "UserTask id" and a = new_program] new_loop_queue(3) by simp
  have posted: "registerAccept hash (Some created) (Some on_accept) ?ctx = Posted ctx"
    using calls api_call_post [OF api, of hash ?ctx] by (auto simp: post_to_def Let_def split: ctx_result.splits option.splits)
  then have len: "length (loops ctx) = 4"
    using assms by (auto simp: registerAccept_def post_to_def Let_def new_epoll_context_loops(1) split: option.splits)
  let ?impl = "\<lparr>rpc_context = ctx, listen_fd = created, rpc_server = new_server, pool_threads = 2\<rparr>"
  have new: "new_rpc_impl hash created = Some ?impl" by (simp add: new_rpc_impl_def posted Let_def)
  from run_loops [of ?impl] len obtain impl' where
    run: "rpc_run False ?impl = Some impl'" "listen_fd impl' = created" "length (loops (rpc_context impl')) = 4"
      "\<forall>i < 4. loop_at i (rpc_context impl') = loop_at i ctx" by auto
  then have ok: "queues_ok impl'" using ctx cap by (simp add: queues_ok_def)
  have i: "?i < 4" by simp
  let ?m = "exec_task ?t (loop_at ?i (rpc_context impl'))"
  have fields: "connections (loop_at j ctx) = (\<lambda>_. None)" "accept_set (loop_at j ctx) = (\<lambda>_. None)"
    "timer_fds (loop_at j ctx) = (\<lambda>_. None)" "epoll (loop_at j ctx) = (\<lambda>_. None)" "app (loop_at j ctx) = new_program"
    if "j < 4" for j
    using same_but_queue_fields [of ?l "loop_at j ctx"] ctx that by (simp_all add: new_loop_def)
  have m: "app ?m = new_program" "accept_set ?m created = Some (Some on_accept)" "k \<noteq> created \<Longrightarrow> unknown k ?m" for k
    using fields [OF i] run(4) i by (simp_all add: doRegisterAccept_def epoll_add_def unknown_def)
  have queued: "queued j impl' = (if j = ?i then [?t] else [])" if "j < 4" for j using run(4) ctx that by (simp add: queued_def)
  have idle: "\<not> crashed (app ?m)" "[] = concat (map rpc_api (outbox (app ?m)))"
    unfolding m(1) by (simp_all add: new_program_def)
  have room: "\<forall>j < 4. length (if j = ?i then [] else queued j impl') + length [] < 512" using queued by simp
  have first: "queued ?i impl' = [?t]" using queued [OF i] by simp
  from task_event_runs [OF ok i first refl idle room, of hash] obtain impl1 where
    ev: "task_event hash ?i impl' = Runs impl1" "queues_ok impl1" "listen_fd impl1 = listen_fd impl'"
      "\<forall>j < 4. queued j impl1 = (if j = ?i then [] else queued j impl') @ routed hash 4 j [] \<and>
         same_but_queue (if j = ?i then ?m\<lparr>app := (app ?m)\<lparr>outbox := []\<rparr>\<rparr> else loop_at j (rpc_context impl'))
         (loop_at j (rpc_context impl1))"
    by blast
  have empty: "\<forall>j < 4. queued j impl1 = []" using ev(4) queued by simp
  have same: "same_but_queue (if j = ?i then ?m\<lparr>app := (app ?m)\<lparr>outbox := []\<rparr>\<rparr> else loop_at j (rpc_context impl'))
      (loop_at j (rpc_context impl1))" if "j < 4" for j using ev(4) that by blast
  have "calm (loop_at j (rpc_context impl1)) \<and>
      (k \<noteq> created \<longrightarrow> unknown k (loop_at j (rpc_context impl1)))" if "j < 4" for j k
    using same_but_queue_fields [OF same [OF that]] fields [OF that] run(4) that m
    by (cases "j = ?i") (simp_all add: unknown_def calm_def new_program_def)
  moreover have "accept_set (loop_at ?i (rpc_context impl1)) created = Some (Some on_accept)"
    using same_but_queue_fields [OF same [OF i]] m(2) by simp
  ultimately have "listening hash created impl1" using ev(2,3) run(2) by (simp add: listening_def)
  with new run(1) ev(1) empty show ?thesis by blast
qed

text \<open>Accepting.\<close>

lemma accept_read:
  "accept_set l k = Some (Some on_accept) \<Longrightarrow> handleRead (accept_kernel r) k l = l\<lparr>app := on_accept r (app l)\<rparr>"
  by (simp add: handleRead_def handleAccept_def call_def call_opt_def accept_kernel_def)

lemma listening_same:
  assumes "listening hash created impl" and "queues_ok impl'" and "listen_fd impl' = listen_fd impl"
    and "\<forall>j < 4. same_but_queue (loop_at j (rpc_context impl)) (loop_at j (rpc_context impl'))"
  shows "listening hash created impl'"
proof -
  note same = assms(4) [rule_format]
  have "calm (loop_at j (rpc_context impl'))" "k \<noteq> created \<Longrightarrow> unknown k (loop_at j (rpc_context impl'))" if "j < 4" for j k
    using calm_same [OF same [OF that]] unknown_same [OF same [OF that]] assms(1) that by (auto simp: listening_def)
  moreover have "accept_set (loop_at (hash created mod 4) (rpc_context impl')) created = Some (Some on_accept)"
    using same_but_queue_fields(2) [OF same [of "hash created mod 4"]] assms(1) by (simp add: listening_def)
  ultimately show ?thesis using assms(1-3) by (simp add: listening_def)
qed

lemma accept_event_posts:
  assumes s: "listening hash created impl" and "k \<noteq> -1" and room: "\<forall>j < 4. length (queued j impl) + 1 < 512"
  shows "\<exists>impl'. accept_event hash (Some k) impl = Runs impl' \<and> listening hash created impl' \<and>
    (\<forall>j < 4. queued j impl' = queued j impl @ routed hash 4 j [ApiTask (Some k) (accept_task k)])"
proof -
  let ?i = "hash created mod 4" and ?cs = "[ApiTask (Some k) (accept_task k)]"
  let ?l = "loop_at ?i (rpc_context impl)"
  let ?m = "?l\<lparr>app := (app ?l)\<lparr>outbox := [PostAccept k]\<rparr>\<rparr>"
  have i: "?i < 4" by simp
  have l: "outbox (app ?l) = []" "\<not> crashed (app ?l)" "accept_set ?l created = Some (Some on_accept)"
    and ok: "queues_ok impl" "listen_fd impl = created"
    using s i by (auto simp: listening_def calm_def)
  have ev: "accept_event hash (Some k) impl = leave_callback hash ?i ?m impl"
    using l(1,3) ok(2) by (simp add: accept_event_def accept_read on_accept_def LOOP_SIZE_def Let_def)
  have q: "mp_inv (task_queue ?m)" "mp_cap (task_queue ?m) = 512" "mp_contents (task_queue ?m) = queued ?i impl"
    using ok(1) i by (simp_all add: queues_ok_def queued_def)
  have c: "\<not> crashed (app ?m)" "?cs = concat (map rpc_api (outbox (app ?m)))" using l(2) by simp_all
  have "\<forall>j < 4. length (if j = ?i then mp_contents (task_queue ?m) else queued j impl) + length ?cs < 512"
    using room unfolding q(3) by simp
  from leave_callback_posts [OF ok(1) i q(1,2) c this, of hash] obtain impl' where
    r: "leave_callback hash ?i ?m impl = Runs impl'" "queues_ok impl'" "listen_fd impl' = listen_fd impl"
      "\<forall>j < 4. queued j impl' = (if j = ?i then mp_contents (task_queue ?m) else queued j impl) @ routed hash 4 j ?cs \<and>
        same_but_queue (if j = ?i then ?m\<lparr>app := (app ?m)\<lparr>outbox := []\<rparr>\<rparr> else loop_at j (rpc_context impl))
          (loop_at j (rpc_context impl'))" by blast
  have "?m\<lparr>app := (app ?m)\<lparr>outbox := []\<rparr>\<rparr> = ?l" using l(1) by simp
  then have "same_but_queue (loop_at j (rpc_context impl)) (loop_at j (rpc_context impl'))" if "j < 4" for j
    using r(4) [rule_format, OF that] by (cases "j = ?i") (simp_all only: if_True if_False simp_thms)
  then have "listening hash created impl'" using listening_same [OF s r(2,3)] by blast
  moreover have "queued j impl' = queued j impl @ routed hash 4 j ?cs" if "j < 4" for j
    using r(4) [rule_format, OF that] unfolding q(3) by (cases "j = ?i") (simp_all only: if_True if_False simp_thms)
  ultimately show ?thesis using ev r(1) by (intro exI [of _ impl']) simp
qed

lemma accept_event_null: "listening hash created impl \<Longrightarrow> accept_event hash None impl = Crashed"
  by (simp add: listening_def accept_event_def accept_read on_accept_def LOOP_SIZE_def leave_callback_def Let_def)

lemma routed_append: "routed hash n i (xs @ ys) = routed hash n i xs @ routed hash n i ys"
  by (simp add: routed_def List.map_filter_def)

lemma accept_events_post:
  assumes "listening hash created impl" and "\<forall>k \<in> set ks. k \<noteq> -1" and "\<forall>j < 4. length (queued j impl) + length ks < 512"
  shows "\<exists>impl'. accept_events hash (map Some ks) impl = Runs impl' \<and> listening hash created impl' \<and>
    accept_events hash (map Some ks @ None # rs) impl = Crashed \<and>
    (\<forall>j < 4. queued j impl' = queued j impl @ routed hash 4 j (map (\<lambda>k. ApiTask (Some k) (accept_task k)) ks))"
  using assms
proof (induction ks arbitrary: impl)
  case Nil
  then show ?case by (simp add: accept_event_null)
next
  case (Cons k ks)
  from Cons.prems have "k \<noteq> -1" "\<forall>j < 4. length (queued j impl) + 1 < 512" by auto
  from accept_event_posts [OF Cons.prems(1) this] obtain impl1 where
    i: "accept_event hash (Some k) impl = Runs impl1" "listening hash created impl1"
      "\<forall>j < 4. queued j impl1 = queued j impl @ routed hash 4 j [ApiTask (Some k) (accept_task k)]" by blast
  have "length (queued j impl1) + length ks < 512" if "j < 4" for j
  proof -
    have "length (routed hash 4 j [ApiTask (Some k) (accept_task k)]) \<le> 1" by simp
    moreover have "length (queued j impl) + length (k # ks) < 512" using Cons.prems(3) that by blast
    moreover have "length (queued j impl1) = length (queued j impl) + length (routed hash 4 j [ApiTask (Some k) (accept_task k)])"
      using i(3) that by (simp only: length_append)
    ultimately show ?thesis by simp
  qed
  then have room: "\<forall>j < 4. length (queued j impl1) + length ks < 512" by blast
  have "\<forall>k \<in> set ks. k \<noteq> -1" using Cons.prems(2) by simp
  from Cons.IH [OF i(2) this room] obtain impl' where
    r: "accept_events hash (map Some ks) impl1 = Runs impl'" "listening hash created impl'"
      "accept_events hash (map Some ks @ None # rs) impl1 = Crashed"
      "\<forall>j < 4. queued j impl' = queued j impl1 @ routed hash 4 j (map (\<lambda>k. ApiTask (Some k) (accept_task k)) ks)" by blast
  have "queued j impl' = queued j impl @ routed hash 4 j (map (\<lambda>k. ApiTask (Some k) (accept_task k)) (k # ks))" if "j < 4" for j
    using r(4) [rule_format, OF that] i(3) [rule_format, OF that]
      routed_append [of hash 4 j "[ApiTask (Some k) (accept_task k)]" "map (\<lambda>k. ApiTask (Some k) (accept_task k)) ks"]
    by (simp only: append_assoc list.map append_Cons append_Nil)
  then show ?case using i(1) r(1-3) by (intro exI [of _ impl']) (simp del: routed_simps(2))
qed

text \<open>Running the tasks.\<close>

lemma task_events_add:
  "task_events hash i (m + n) impl = (case task_events hash i m impl of Runs impl \<Rightarrow> task_events hash i n impl | p \<Rightarrow> p)"
  by (induction m arbitrary: impl) (simp_all split: progress.splits)

text \<open>A task that does not call the application leaves the other loops and the queue behind it alone.\<close>

lemma quiet_event:
  assumes "queues_ok impl" and "i < 4" and "queued i impl = t # ts" and "calm (loop_at i (rpc_context impl))"
    and "app (exec_task t (loop_at i (rpc_context impl))) = app (loop_at i (rpc_context impl))"
  shows "\<exists>impl'. task_event hash i impl = Runs impl' \<and> queues_ok impl' \<and> queued i impl' = ts \<and>
    same_but_queue (exec_task t (loop_at i (rpc_context impl))) (loop_at i (rpc_context impl'))"
proof -
  let ?l = "exec_task t (loop_at i (rpc_context impl))"
  have c: "\<not> crashed (app ?l)" "[] = concat (map rpc_api (outbox (app ?l)))"
    using assms(4) unfolding assms(5) by (simp_all add: calm_def)
  have "length (queued j impl) < 512" if "j < 4" for j
    using mpsc.bound [of "task_queue (loop_at j (rpc_context impl))"] assms(1) that by (simp add: queues_ok_def queued_def)
  moreover from this [OF assms(2)] have "length ts < 512" unfolding assms(3) by simp
  ultimately have "\<forall>j < 4. length (if j = i then ts else queued j impl) + length [] < 512" by simp
  from task_event_runs [OF assms(1-3) refl c this, of hash] obtain impl' where
    r: "task_event hash i impl = Runs impl'" "queues_ok impl'"
      "\<forall>j < 4. queued j impl' = (if j = i then ts else queued j impl) @ routed hash 4 j [] \<and>
         same_but_queue (if j = i then ?l\<lparr>app := (app ?l)\<lparr>outbox := []\<rparr>\<rparr> else loop_at j (rpc_context impl))
           (loop_at j (rpc_context impl'))" by blast
  have "?l\<lparr>app := (app ?l)\<lparr>outbox := []\<rparr>\<rparr> = ?l" using assms(4) assms(5) [symmetric] by (simp add: calm_def)
  with r(3) [rule_format, OF assms(2)] r(1,2) show ?thesis by (intro exI [of _ impl']) simp
qed

definition regs :: "fd \<Rightarrow> rpc_program task list" where
  "regs k = [RegisterRead k (Some (client_read k)), RegisterClose k (Some (\<lambda>_. id))]"

lemma accept_calls_routed: "k \<noteq> -1 \<Longrightarrow> routed hash 4 j (accept_calls k) = (if hash k mod 4 = j then regs k else [])"
  by (simp add: accept_calls_def regs_def)

text \<open>First the tasks of the accept callback, which post the registrations behind them.\<close>

lemma accept_task_event:
  assumes "queues_ok impl" and i: "i < 4" and "queued i impl = UserTask (accept_task k) # ts"
    and calm: "calm (loop_at i (rpc_context impl))" and k: "k \<noteq> -1" "hash k mod 4 = i"
    and room: "length ts + 2 < 512" "\<forall>j < 4. j \<noteq> i \<longrightarrow> length (queued j impl) + 2 < 512"
  shows "\<exists>impl'. task_event hash i impl = Runs impl' \<and> queues_ok impl' \<and> calm (loop_at i (rpc_context impl')) \<and>
    queued i impl' = ts @ regs k \<and> (\<forall>j < 4. j \<noteq> i \<longrightarrow> queued j impl' = queued j impl) \<and>
    (\<forall>x. unknown x (loop_at i (rpc_context impl')) = unknown x (loop_at i (rpc_context impl)))"
proof -
  let ?l = "loop_at i (rpc_context impl)"
  let ?m = "exec_task (UserTask (accept_task k)) ?l"
  have m: "?m = ?l\<lparr>app := (app ?l)\<lparr>contexts := (contexts (app ?l))(k := new_context), outbox := [AcceptCalls k]\<rparr>\<rparr>"
    using calm by (simp add: call_def accept_task_def acceptClient_def calm_def)
  have c: "\<not> crashed (app ?m)" "accept_calls k = concat (map rpc_api (outbox (app ?m)))"
    using calm unfolding m by (simp_all add: calm_def)
  have "length (accept_calls k :: rpc_program api list) = 2" by (simp add: accept_calls_def)
  with room have "\<forall>j < 4. length (if j = i then ts else queued j impl) + length (accept_calls k :: rpc_program api list) < 512" by simp
  from task_event_runs [OF assms(1-3) refl c this, of hash] obtain impl' where
    r: "task_event hash i impl = Runs impl'" "queues_ok impl'"
      "\<forall>j < 4. queued j impl' = (if j = i then ts else queued j impl) @ routed hash 4 j (accept_calls k) \<and>
         same_but_queue (if j = i then ?m\<lparr>app := (app ?m)\<lparr>outbox := []\<rparr>\<rparr> else loop_at j (rpc_context impl))
           (loop_at j (rpc_context impl'))" by blast
  have same: "same_but_queue (?m\<lparr>app := (app ?m)\<lparr>outbox := []\<rparr>\<rparr>) (loop_at i (rpc_context impl'))"
    using r(3) [rule_format, OF i] by (simp only: if_True simp_thms)
  have "calm (?m\<lparr>app := (app ?m)\<lparr>outbox := []\<rparr>\<rparr>)" using calm unfolding m by (simp add: calm_def)
  with calm_same [OF same] have "calm (loop_at i (rpc_context impl'))" by simp
  moreover have "unknown x (?m\<lparr>app := (app ?m)\<lparr>outbox := []\<rparr>\<rparr>) = unknown x ?l" for x unfolding m by (simp add: unknown_def)
  with unknown_same [OF same] have "unknown x (loop_at i (rpc_context impl')) = unknown x ?l" for x by simp
  moreover have "queued i impl' = ts @ regs k" using r(3) [rule_format, OF i] k by (simp add: accept_calls_routed)
  moreover have "queued j impl' = queued j impl" if "j < 4" "j \<noteq> i" for j
    using r(3) [rule_format, OF that(1)] that(2) k by (simp add: accept_calls_routed)
  ultimately show ?thesis using r(1,2) by (intro exI [of _ impl']) simp
qed

lemma run_accepts:
  assumes "queues_ok impl" and "i < 4" and "queued i impl = map (\<lambda>k. UserTask (accept_task k)) K @ ts"
    and "calm (loop_at i (rpc_context impl))" and "\<forall>k \<in> set K. k \<noteq> -1 \<and> hash k mod 4 = i"
    and "length (queued i impl) + length K < 512" and "\<forall>j < 4. j \<noteq> i \<longrightarrow> length (queued j impl) + 2 < 512"
  shows "\<exists>impl'. task_events hash i (length K) impl = Runs impl' \<and> queues_ok impl' \<and> calm (loop_at i (rpc_context impl')) \<and>
    queued i impl' = ts @ concat (map regs K) \<and>
    (\<forall>x. unknown x (loop_at i (rpc_context impl')) = unknown x (loop_at i (rpc_context impl)))"
  using assms
proof (induction K arbitrary: impl ts)
  case (Cons k K)
  let ?ts = "map (\<lambda>k. UserTask (accept_task k)) K @ ts"
  have q: "queued i impl = UserTask (accept_task k) # ?ts" using Cons.prems(3) by simp
  have k: "k \<noteq> -1" "hash k mod 4 = i" and K: "\<forall>k \<in> set K. k \<noteq> -1 \<and> hash k mod 4 = i" using Cons.prems(5) by simp_all
  have len: "length ?ts + 2 < 512" using Cons.prems(6) unfolding q by simp
  from accept_task_event [where hash = hash, OF Cons.prems(1,2) q Cons.prems(4) k len Cons.prems(7)] obtain impl1 where
    e: "task_event hash i impl = Runs impl1" "queues_ok impl1" "calm (loop_at i (rpc_context impl1))"
      "queued i impl1 = ?ts @ regs k" "\<forall>j < 4. j \<noteq> i \<longrightarrow> queued j impl1 = queued j impl"
      "\<forall>x. unknown x (loop_at i (rpc_context impl1)) = unknown x (loop_at i (rpc_context impl))" by blast
  have q1: "queued i impl1 = map (\<lambda>k. UserTask (accept_task k)) K @ (ts @ regs k)" using e(4) by simp
  have len1: "length (queued i impl1) + length K < 512" using Cons.prems(6) unfolding q e(4) by (simp add: regs_def)
  have "\<forall>j < 4. j \<noteq> i \<longrightarrow> length (queued j impl1) + 2 < 512" using Cons.prems(7) e(5) by simp
  from Cons.IH [OF e(2) Cons.prems(2) q1 e(3) K len1 this] e(1,6) show ?case by auto
qed simp

text \<open>Then the registrations.\<close>

lemma serving_read: "unknown k l \<Longrightarrow> calm l \<Longrightarrow> serving k (exec_task (RegisterRead k (Some (client_read k))) l)"
  using watched_register [of l k "Some (client_read k)"]
  by (simp add: serving_def unknown_def calm_def doRegisterRead_def epoll_add_def put_conn_def new_connection_def)

lemma serving_closing:
  assumes "serving k l"
  shows "serving k (exec_task (RegisterClose k cb) l)"
proof -
  have "watched k (exec_task (RegisterClose k cb) l)" using assms by (intro watched_closing) (simp add: serving_def)
  with assms show ?thesis by (auto simp: serving_def doRegisterCloseCallback_def put_conn_def)
qed

lemma registration_app:
  "app (exec_task (RegisterRead k f) l) = app l" "app (exec_task (RegisterClose k g) l) = app l"
  by (simp_all add: doRegisterRead_def doRegisterCloseCallback_def epoll_add_def modifyEpollEvents_def put_conn_def Let_def
      split: option.splits)

lemma others_exec:
  "task_fd t \<noteq> Some k \<Longrightarrow> app (exec_task t l) = app l \<Longrightarrow> serving k (exec_task t l) = serving k l"
  "task_fd t \<noteq> Some k \<Longrightarrow> unknown k (exec_task t l) = unknown k l"
  using same_fd_exec [of t k l] by (simp_all add: serving_def unknown_def watched_def same_fd_def)

lemma calm_app: "app l' = app l \<Longrightarrow> calm l' = calm l"
  by (simp add: calm_def)

lemma registration_events:
  assumes "queues_ok impl" and i: "i < 4" and "queued i impl = regs k @ ts" and calm: "calm (loop_at i (rpc_context impl))"
    and k: "unknown k (loop_at i (rpc_context impl))"
  shows "\<exists>impl'. task_events hash i 2 impl = Runs impl' \<and> queues_ok impl' \<and> calm (loop_at i (rpc_context impl')) \<and>
    queued i impl' = ts \<and> serving k (loop_at i (rpc_context impl')) \<and>
    (\<forall>x. x \<noteq> k \<longrightarrow> unknown x (loop_at i (rpc_context impl')) = unknown x (loop_at i (rpc_context impl)) \<and>
       serving x (loop_at i (rpc_context impl')) = serving x (loop_at i (rpc_context impl)))"
proof -
  let ?l = "loop_at i (rpc_context impl)" and ?r = "RegisterRead k (Some (client_read k))" and ?c = "RegisterClose k (Some (\<lambda>_. id))"
  have "queued i impl = ?r # ?c # ts" using assms(3) by (simp add: regs_def)
  from quiet_event [OF assms(1) i this calm registration_app(1), of hash] obtain impl1 where
    e: "task_event hash i impl = Runs impl1" "queues_ok impl1" "queued i impl1 = ?c # ts"
      "same_but_queue (exec_task ?r ?l) (loop_at i (rpc_context impl1))" by blast
  let ?l1 = "loop_at i (rpc_context impl1)"
  have calm1: "calm ?l1" using calm calm_same [OF e(4)] by (simp add: calm_app [OF registration_app(1)] calm_app [OF registration_app(2)] del: exec_task.simps)
  from quiet_event [OF e(2) i e(3) calm1 registration_app(2), of hash] obtain impl2 where
    f: "task_event hash i impl1 = Runs impl2" "queues_ok impl2" "queued i impl2 = ts"
      "same_but_queue (exec_task ?c ?l1) (loop_at i (rpc_context impl2))" by blast
  let ?l2 = "loop_at i (rpc_context impl2)"
  have calm2: "calm ?l2" using calm1 calm_same [OF f(4)] by (simp add: calm_app [OF registration_app(1)] calm_app [OF registration_app(2)] del: exec_task.simps)
  have "serving k ?l1" using serving_read [OF k calm] serving_same [OF e(4)] by simp
  then have k2: "serving k ?l2" using serving_closing serving_same [OF f(4)] by blast
  have "unknown x ?l2 = unknown x ?l \<and> serving x ?l2 = serving x ?l" if "x \<noteq> k" for x
  proof -
    have "task_fd ?r \<noteq> Some x" "task_fd ?c \<noteq> Some x" using that by simp_all
    then show ?thesis
      using others_exec(1) [of ?r x ?l, OF _ registration_app(1)] others_exec(1) [of ?c x ?l1, OF _ registration_app(2)]
        others_exec(2) [of ?r x ?l] others_exec(2) [of ?c x ?l1]
        serving_same [OF e(4)] serving_same [OF f(4)] unknown_same [OF e(4)] unknown_same [OF f(4)] by blast
  qed
  with e(1) f(1-3) calm2 k2 show ?thesis by (intro exI [of _ impl2]) (simp add: numeral_2_eq_2)
qed

lemma run_registrations:
  assumes "queues_ok impl" and "i < 4" and "queued i impl = concat (map regs K)" and "calm (loop_at i (rpc_context impl))"
    and "distinct K" and "\<forall>k \<in> set K. unknown k (loop_at i (rpc_context impl))"
  shows "\<exists>impl'. task_events hash i (2 * length K) impl = Runs impl' \<and> queued i impl' = [] \<and>
    (\<forall>k. k \<in> set K \<or> serving k (loop_at i (rpc_context impl)) \<longrightarrow> serving k (loop_at i (rpc_context impl')))"
  using assms
proof (induction K arbitrary: impl)
  case (Cons k K)
  have q: "queued i impl = regs k @ concat (map regs K)" using Cons.prems(3) by simp
  have "unknown k (loop_at i (rpc_context impl))" using Cons.prems(6) by simp
  from registration_events [where hash = hash, OF Cons.prems(1,2) q Cons.prems(4) this] obtain impl1 where
    e: "task_events hash i 2 impl = Runs impl1" "queues_ok impl1" "calm (loop_at i (rpc_context impl1))"
      "queued i impl1 = concat (map regs K)" "serving k (loop_at i (rpc_context impl1))"
      "\<forall>x. x \<noteq> k \<longrightarrow> unknown x (loop_at i (rpc_context impl1)) = unknown x (loop_at i (rpc_context impl)) \<and>
        serving x (loop_at i (rpc_context impl1)) = serving x (loop_at i (rpc_context impl))" by blast
  have "distinct K" "\<forall>x \<in> set K. unknown x (loop_at i (rpc_context impl1))" using Cons.prems(5,6) e(6) by auto
  from Cons.IH [OF e(2) Cons.prems(2) e(4,3) this] obtain impl' where
    r: "task_events hash i (2 * length K) impl1 = Runs impl'" "queued i impl' = []"
      "\<forall>x. x \<in> set K \<or> serving x (loop_at i (rpc_context impl1)) \<longrightarrow> serving x (loop_at i (rpc_context impl'))" by blast
  have "task_events hash i (2 * length (k # K)) impl = Runs impl'"
    using task_events_add [of hash i 2 "2 * length K" impl] e(1) r(1) by simp
  moreover have "serving x (loop_at i (rpc_context impl'))" if "x \<in> set (k # K) \<or> serving x (loop_at i (rpc_context impl))" for x
    using that e(5,6) r(3) by (cases "x = k") auto
  ultimately show ?case using r(2) by blast
qed simp

lemma routed_accepts:
  assumes "\<forall>k \<in> set ks. k \<noteq> -1"
  shows "routed hash 4 i (map (\<lambda>k. ApiTask (Some k) (accept_task k)) ks) =
    map (\<lambda>k. UserTask (accept_task k)) (filter (\<lambda>k. hash k mod 4 = i) ks)"
  using assms by (induction ks) simp_all

text \<open>C37: from construction to the first clients. The constructor posts the listening socket to the loop it
  hashes to, and that loop registers it. Every accept event then posts one task that runs
  \<^verbatim>\<open>acceptClient\<close> to the loop its client hashes to, in the order of the clients; once a loop has run these
  tasks and the registrations they post, each of its clients is watched for reading, with the read
  callback of the server and a fresh parser context. One \<^verbatim>\<open>accept\<close> that fails, as it does for a
  client that has reset its connection in between, ends the program through a null pointer. Fewer than
  256 clients are accepted before their loops run, which keeps the queues of 512 places from filling, and
  their descriptors are valid, different from each other and from the listening one, as those of open
  sockets are.\<close>

theorem accepts_clients:
  assumes "created \<noteq> -1" and "length ks < 256" and "distinct ks" and "\<forall>k \<in> set ks. k \<noteq> -1 \<and> k \<noteq> created"
  shows "\<exists>impl impl' started accepted. new_rpc_impl hash created = Some impl \<and> rpc_run False impl = Some impl' \<and>
    task_event hash (hash created mod 4) impl' = Runs started \<and>
    accept_events hash (map Some ks) started = Runs accepted \<and>
    accept_events hash (map Some ks @ None # rs) started = Crashed \<and>
    (\<forall>i < 4. queued i accepted = map (\<lambda>k. UserTask (accept_task k)) (filter (\<lambda>k. hash k mod 4 = i) ks) \<and>
       (\<exists>ready. task_events hash i (3 * length (queued i accepted)) accepted = Runs ready \<and> queued i ready = [] \<and>
          (\<forall>k \<in> set ks. hash k mod 4 = i \<longrightarrow> serving k (loop_at i (rpc_context ready)))))"
proof -
  from server_starts [OF assms(1), of hash] obtain impl impl' started where
    s: "new_rpc_impl hash created = Some impl" "rpc_run False impl = Some impl'"
      "task_event hash (hash created mod 4) impl' = Runs started" "listening hash created started" "\<forall>i < 4. queued i started = []"
    by blast
  have valid: "\<forall>k \<in> set ks. k \<noteq> -1" using assms(4) by blast
  have "\<forall>i < 4. length (queued i started) + length ks < 512" using s(5) assms(2) by simp
  from accept_events_post [OF s(4) valid this, of rs] obtain accepted where
    a: "accept_events hash (map Some ks) started = Runs accepted" "listening hash created accepted"
      "accept_events hash (map Some ks @ None # rs) started = Crashed"
      "\<forall>i < 4. queued i accepted = queued i started @ routed hash 4 i (map (\<lambda>k. ApiTask (Some k) (accept_task k)) ks)" by blast
  have q: "queued i accepted = map (\<lambda>k. UserTask (accept_task k)) (filter (\<lambda>k. hash k mod 4 = i) ks)" if "i < 4" for i
    using a(4) [rule_format, OF that] s(5) [rule_format, OF that] routed_accepts [OF valid] by simp
  have "\<exists>ready. task_events hash i (3 * length (queued i accepted)) accepted = Runs ready \<and> queued i ready = [] \<and>
      (\<forall>k \<in> set ks. hash k mod 4 = i \<longrightarrow> serving k (loop_at i (rpc_context ready)))" if i: "i < 4" for i
  proof -
    let ?K = "filter (\<lambda>k. hash k mod 4 = i) ks"
    have len: "length (filter P ks) < 256" for P using length_filter_le [of P ks] assms(2) by linarith
    have ok: "queues_ok accepted" and calm: "calm (loop_at i (rpc_context accepted))"
      and unknown: "\<forall>k. k \<noteq> created \<longrightarrow> unknown k (loop_at i (rpc_context accepted))"
      using a(2) i by (simp_all add: listening_def)
    have K: "\<forall>k \<in> set ?K. k \<noteq> -1 \<and> hash k mod 4 = i" using valid by simp
    have room: "length (queued i accepted) + length ?K < 512" using len [of "\<lambda>k. hash k mod 4 = i"] q [OF i] by simp
    have others: "\<forall>j < 4. j \<noteq> i \<longrightarrow> length (queued j accepted) + 2 < 512"
    proof (intro allI impI)
      fix j assume "j < (4 :: nat)"
      then show "length (queued j accepted) + 2 < 512" using len [of "\<lambda>k. hash k mod 4 = j"] q [of j] by simp
    qed
    have "queued i accepted = map (\<lambda>k. UserTask (accept_task k)) ?K @ []" using q [OF i] by simp
    from run_accepts [where hash = hash, OF ok i this calm K room others] obtain mid where
      m: "task_events hash i (length ?K) accepted = Runs mid" "queues_ok mid" "calm (loop_at i (rpc_context mid))"
        "queued i mid = concat (map regs ?K)"
        "\<forall>x. unknown x (loop_at i (rpc_context mid)) = unknown x (loop_at i (rpc_context accepted))" by auto
    have "distinct ?K" "\<forall>k \<in> set ?K. unknown k (loop_at i (rpc_context mid))"
      using assms(3,4) m(5) unknown by auto
    from run_registrations [where hash = hash, OF m(2) i m(4,3) this] obtain ready where
      r: "task_events hash i (2 * length ?K) mid = Runs ready" "queued i ready = []"
        "\<forall>k. k \<in> set ?K \<or> serving k (loop_at i (rpc_context mid)) \<longrightarrow> serving k (loop_at i (rpc_context ready))" by blast
    have "3 * length (queued i accepted) = length ?K + 2 * length ?K" using q [OF i] by simp
    then have "task_events hash i (3 * length (queued i accepted)) accepted = Runs ready"
      using task_events_add [of hash i "length ?K" "2 * length ?K" accepted] m(1) r(1) by simp
    then show ?thesis using r(2,3) by (intro exI [of _ ready]) simp
  qed
  with s(1-3) a(1,3) q show ?thesis by blast
qed

theorem accepts_clients_witness:
  "\<exists>started accepted ready. accept_events nat [Some 8, Some 12] started = Runs accepted \<and>
     accept_events nat [Some 8, Some 12, None] started = Crashed \<and>
     queued 0 accepted = [UserTask (accept_task 8), UserTask (accept_task 12)] \<and> queued 1 accepted = [] \<and>
     task_events nat 0 6 accepted = Runs ready \<and> serving 8 (loop_at 0 (rpc_context ready)) \<and>
     serving 12 (loop_at 0 (rpc_context ready))"
proof -
  have ks: "length [8, 12 :: int] < 256" "distinct [8, 12 :: int]" "\<forall>k \<in> set [8, 12 :: int]. k \<noteq> -1 \<and> k \<noteq> 7" "(7 :: int) \<noteq> -1"
    by simp_all
  from accepts_clients [OF ks(4,1-3), of nat "[]"] obtain started accepted where
    s: "accept_events nat (map Some [8, 12]) started = Runs accepted"
      "accept_events nat (map Some [8, 12] @ [None]) started = Crashed"
      "\<forall>i < 4. queued i accepted = map (\<lambda>k. UserTask (accept_task k)) (filter (\<lambda>k. nat k mod 4 = i) [8, 12]) \<and>
       (\<exists>ready. task_events nat i (3 * length (queued i accepted)) accepted = Runs ready \<and> queued i ready = [] \<and>
          (\<forall>k \<in> set [8, 12]. nat k mod 4 = i \<longrightarrow> serving k (loop_at i (rpc_context ready))))" by blast
  have zero: "queued 0 accepted = [UserTask (accept_task 8), UserTask (accept_task 12)]"
    using s(3) [rule_format, of 0] by simp
  from s(3) [rule_format, of 0] obtain ready where
    "task_events nat 0 6 accepted = Runs ready" "serving 8 (loop_at 0 (rpc_context ready))" "serving 12 (loop_at 0 (rpc_context ready))"
    unfolding zero by auto
  moreover have "queued 1 accepted = []" using s(3) [rule_format, of 1] by simp
  ultimately show ?thesis using s(1,2) zero by (intro exI [of _ started] exI [of _ accepted] exI [of _ ready]) simp
qed

end
