(* ===== verification/Queue_Properties.thy ===== *)
theory Queue_Properties
  imports Queues
begin

text \<open>
  What the three rings of \<^verbatim>\<open>LockFreeQueue.h\<close> promise to one caller at a time: they are bounded
  FIFO lists with one place less than the array.
\<close>

text \<open>C22: every sequence of calls on a new queue of \<open>n + 1\<close> slots answers what the list of at
  most \<open>n\<close> items answers: a push fails exactly when \<open>n\<close> items are in, a pop returns
  the oldest item or fails on the empty queue, and neither sequence-numbered queue ever spins.\<close>

theorem rings_refine_fifo:
  "map_option fst (run_calls lf_push lf_pop lf_empty cs (lf_new (Suc n) x)) = Some (fst (list_calls (Suc n) cs [])) \<and>
   map_option fst (run_calls mpsc_push mpsc_pop mp_empty cs (mp_new (Suc n) x)) = Some (fst (list_calls (Suc n) cs [])) \<and>
   map_option fst (run_calls mpmc_push mpmc_pop mp_empty cs (mp_new (Suc n) x)) = Some (fst (list_calls (Suc n) cs []))"
proof -
  have "lf_inv (lf_new (Suc n) x)" "lf_contents (lf_new (Suc n) x) = []" "lf_cap (lf_new (Suc n) x) = Suc n"
    "mp_inv (mp_new (Suc n) x)" "mp_contents (mp_new (Suc n) x) = []" "mp_cap (mp_new (Suc n) x) = Suc n"
    using lf_inv_new [of "Suc n" x] mp_inv_new [of "Suc n" x] by simp_all
  then show ?thesis
    using lf.run_calls_refines [of "lf_new (Suc n) x" cs] mpsc.run_calls_refines [of "mp_new (Suc n) x" cs]
      mpmc.run_calls_refines [of "mp_new (Suc n) x" cs] by auto
qed

end
