(* ===== verification/Loop_Callbacks.thy ===== *)
theory Loop_Callbacks
  imports Loop_Interest
begin

text \<open>
  Every submitted write is called back exactly once. The application's state is a log of
  completions with anything beside it; the callbacks of one socket's writes append their number and
  outcome, and no other callback touches the log.
\<close>

type_synonym 'w logged = "(nat \<times> bool) list \<times> 'w"

definition quiet :: "('w logged \<Rightarrow> 'w logged) \<Rightarrow> bool" where
  "quiet f \<longleftrightarrow> (\<forall>a. fst (f a) = fst a)"

definition logs :: "nat \<Rightarrow> 'w logged write_cb \<Rightarrow> bool" where
  "logs i cb \<longleftrightarrow> (\<forall>r a. fst (cb r a) = fst a @ [(i, r)])"

definition quiet_opt :: "('b \<Rightarrow> 'w logged \<Rightarrow> 'w logged) option \<Rightarrow> bool" where
  "quiet_opt cb \<longleftrightarrow> (\<forall>x. quiet (call_opt cb x))"

definition quiet_read :: "'w logged read_fun option \<Rightarrow> bool" where
  "quiet_read cb \<longleftrightarrow> (\<forall>f xs n a. cb = Some f \<longrightarrow> fst (snd (f xs n a)) = fst a)"

definition quiet_conn :: "'w logged connection \<Rightarrow> bool" where
  "quiet_conn c \<longleftrightarrow> quiet_read (read_cb c) \<and> quiet_opt (high_level_callback c) \<and>
     quiet_opt (low_level_callback c) \<and> quiet_opt (closing_callback c)"

definition numbered :: "'w logged write_meta list \<Rightarrow> nat list \<Rightarrow> bool" where
  "numbered q ids \<longleftrightarrow> list_all2 (\<lambda>m i. \<exists>cb. callback m = Some cb \<and> logs i cb) q ids"

definition quiet_queue :: "'w logged write_meta list \<Rightarrow> bool" where
  "quiet_queue q \<longleftrightarrow> list_all (\<lambda>m. quiet_opt (callback m)) q"

lemma quietD [simp]: "quiet f \<Longrightarrow> fst (f a) = fst a"
  unfolding quiet_def by blast

lemma logsD: "logs i cb \<Longrightarrow> fst (cb r a) = fst a @ [(i, r)]"
  unfolding logs_def by blast

lemma quiet_call [simp]: "quiet_opt cb \<Longrightarrow> fst (call_opt cb x a) = fst a"
  by (simp add: quiet_opt_def)

lemma quiet_Some [simp]: "quiet_opt (Some f) \<Longrightarrow> fst (f x a) = fst a"
  using quiet_call [of "Some f" x a] by (simp add: call_opt_def)

lemma quiet_None [simp]: "quiet_opt None" "quiet_read None"
  by (simp_all add: quiet_opt_def call_opt_def quiet_def quiet_read_def)

lemma numbered_simps [simp]:
  "numbered [] ids \<longleftrightarrow> ids = []"
  "numbered (m # q) ids \<longleftrightarrow> (\<exists>i r cb. ids = i # r \<and> callback m = Some cb \<and> logs i cb \<and> numbered q r)"
  "length q = length ids \<Longrightarrow> numbered (q @ q') (ids @ ids') \<longleftrightarrow> numbered q ids \<and> numbered q' ids'"
  by (auto simp: numbered_def list_all2_Cons1 list_all2_append)

lemma numbered_length: "numbered q ids \<Longrightarrow> length q = length ids"
  by (simp add: numbered_def list_all2_lengthD)

lemma numbered_append: "numbered q ids \<Longrightarrow> numbered q' ids' \<Longrightarrow> numbered (q @ q') (ids @ ids')"
  by (simp add: numbered_length)

lemma numbered_callbacks: "map callback q = map callback q' \<Longrightarrow> numbered q ids = numbered q' ids"
proof (induction q arbitrary: q' ids)
  case Nil
  then show ?case by simp
next
  case (Cons m q)
  then obtain m' r where "q' = m' # r" "callback m' = callback m" "map callback q = map callback r" by (cases q') auto
  with Cons.IH [of r] show ?case by simp
qed

lemma succeed_numbered: "numbered q ids \<Longrightarrow> fst (succeed_writes q a) = fst a @ map (\<lambda>i. (i, True)) ids"
proof (induction q arbitrary: ids a)
  case Nil
  then show ?case by simp
next
  case (Cons m q)
  then obtain i r cb where m: "ids = i # r" "callback m = Some cb" "logs i cb" "numbered q r" by auto
  have "fst (succeed_writes (m # q) a) = fst (cb True a) @ map (\<lambda>i. (i, True)) r"
    using Cons.IH [OF m(4), of "cb True a"] m(2) by (simp only: succeed_writes.simps call_opt_def option.case)
  also have "fst (cb True a) = fst a @ [(i, True)]" using m(3) by (rule logsD)
  finally show ?case by (simp add: m(1))
qed

lemma fail_numbered: "numbered q ids \<Longrightarrow> fst (fail_writes q a) = fst a @ map (\<lambda>i. (i, False)) ids"
proof (induction q arbitrary: ids a)
  case Nil
  then show ?case by simp
next
  case (Cons m q)
  then obtain i r cb where m: "ids = i # r" "callback m = Some cb" "logs i cb" "numbered q r" by auto
  have "fst (fail_writes (m # q) a) = fst (cb False a) @ map (\<lambda>i. (i, False)) r"
    using Cons.IH [OF m(4), of "cb False a"] m(2) by (simp only: fail_writes.simps call_opt_def option.case)
  also have "fst (cb False a) = fst a @ [(i, False)]" using m(3) by (rule logsD)
  finally show ?case by (simp add: m(1))
qed

lemma succeed_quiet: "quiet_queue q \<Longrightarrow> fst (succeed_writes q a) = fst a"
  by (induction q arbitrary: a) (simp_all add: quiet_queue_def)

lemma fail_quiet: "quiet_queue q \<Longrightarrow> fst (fail_writes q a) = fst a"
  by (induction q arbitrary: a) (simp_all add: quiet_queue_def)

lemma quiet_queue_callbacks: "map callback q = map callback q' \<Longrightarrow> quiet_queue q = quiet_queue q'"
  by (induction q q' rule: list_induct2') (simp_all add: quiet_queue_def)

section \<open>The invariant\<close>

definition log_inv :: "fd \<Rightarrow> nat list \<Rightarrow> 'w logged loop \<Rightarrow> bool" where
  "log_inv k ids l \<longleftrightarrow>
     (\<forall>j c. connections l j = Some c \<longrightarrow> quiet_conn c \<and> (j \<noteq> k \<longrightarrow> quiet_queue (write_queue c))) \<and>
     (\<forall>j cb. accept_set l j = Some cb \<longrightarrow> quiet_opt cb) \<and>
     (\<forall>j f. timer_fds l j = Some (Some f) \<longrightarrow> quiet f) \<and>
     numbered (queue_of k l) ids"

text \<open>One step of the loop: \<open>new\<close> numbers are submitted, \<open>log\<close> is appended, \<open>ids'\<close> stay queued.
  A failure is only logged when the connection is gone (or the descriptor is a listening one).\<close>

definition log_step :: "fd \<Rightarrow> nat list \<Rightarrow> nat list \<Rightarrow> 'w logged loop \<Rightarrow> 'w logged loop \<Rightarrow> bool" where
  "log_step k ids new l l' \<longleftrightarrow>
     (\<exists>log ids'. log_inv k ids' l' \<and> fst (app l') = fst (app l) @ log \<and> map fst log @ ids' = ids @ new \<and>
       (connections l' k \<noteq> None \<and> accept_set l k = None \<longrightarrow> list_all snd log))"

lemma log_stepI:
  "log_inv k ids' l' \<Longrightarrow> fst (app l') = fst (app l) @ map (\<lambda>i. (i, b)) fin \<Longrightarrow> fin @ ids' = ids @ new \<Longrightarrow>
   b \<or> connections l' k = None \<or> accept_set l k \<noteq> None \<or> fin = [] \<Longrightarrow> log_step k ids new l l'"
  unfolding log_step_def
  by (intro exI [of _ "map (\<lambda>i. (i, b)) fin"] exI [of _ ids']) (auto simp: list_all_iff comp_def)

lemma log_step_silent:
  "log_inv k (ids @ new) l' \<Longrightarrow> fst (app l') = fst (app l) \<Longrightarrow> log_step k ids new l l'"
  by (rule log_stepI [where fin = "[]" and ids' = "ids @ new" and b = True]) simp_all

lemma log_inv_put:
  "log_inv k ids l \<Longrightarrow> quiet_conn c \<Longrightarrow> j \<noteq> k \<Longrightarrow> quiet_queue (write_queue c) \<Longrightarrow>
   log_inv k ids (l\<lparr>connections := (connections l)(j \<mapsto> c)\<rparr>)"
  by (simp add: log_inv_def queue_of_def)

lemma log_inv_put_k:
  "log_inv k ids l \<Longrightarrow> quiet_conn c \<Longrightarrow> numbered (write_queue c) ids' \<Longrightarrow>
   log_inv k ids' (l\<lparr>connections := (connections l)(k \<mapsto> c)\<rparr>)"
  by (simp add: log_inv_def queue_of_def)

lemma log_inv_remove: "log_inv k ids l \<Longrightarrow> j \<noteq> k \<Longrightarrow> log_inv k ids (l\<lparr>connections := (connections l)(j := None)\<rparr>)"
  by (simp add: log_inv_def queue_of_def)

lemma log_inv_remove_k: "log_inv k ids l \<Longrightarrow> log_inv k [] (l\<lparr>connections := (connections l)(k := None)\<rparr>)"
  by (simp add: log_inv_def queue_of_def)

lemma log_inv_fields [simp]:
  "log_inv k ids (l\<lparr>epoll := e\<rparr>) = log_inv k ids l" "log_inv k ids (l\<lparr>app := a\<rparr>) = log_inv k ids l"
  "log_inv k ids (l\<lparr>wire := w\<rparr>) = log_inv k ids l"
  by (simp_all add: log_inv_def queue_of_def)

lemma log_inv_same:
  "log_inv k ids l \<Longrightarrow> connections l' = connections l \<Longrightarrow> accept_set l' = accept_set l \<Longrightarrow>
   timer_fds l' = timer_fds l \<Longrightarrow> log_inv k ids l'"
  by (simp add: log_inv_def queue_of_def)

lemma log_inv_accept:
  "log_inv k ids l \<Longrightarrow> log_inv k ids (l\<lparr>accept_set := (accept_set l)(j := None)\<rparr>)"
  "log_inv k ids l \<Longrightarrow> quiet_opt cb \<Longrightarrow> log_inv k ids (l\<lparr>accept_set := (accept_set l)(j \<mapsto> cb)\<rparr>)"
  "log_inv k ids l \<Longrightarrow> log_inv k ids (l\<lparr>timer_fds := (timer_fds l)(j := None)\<rparr>)"
  by (simp_all add: log_inv_def queue_of_def)

lemma log_inv_conn:
  "log_inv k ids l \<Longrightarrow> connections l j = Some c \<Longrightarrow> quiet_conn c"
  "log_inv k ids l \<Longrightarrow> connections l j = Some c \<Longrightarrow> j \<noteq> k \<Longrightarrow> quiet_queue (write_queue c)"
  "log_inv k ids l \<Longrightarrow> connections l k = Some c \<Longrightarrow> numbered (write_queue c) ids"
  by (simp_all add: log_inv_def queue_of_def)

section \<open>Closing\<close>

lemma log_step_close:
  assumes inv: "log_inv k ids l"
  shows "log_step k ids [] l (closeConnection j l)"
proof (cases "accept_set l j = None")
  case False
  with inv show ?thesis
    using log_inv_same [OF log_inv_accept(1) [OF inv, of j], of "closeConnection j l"]
    by (intro log_step_silent) (simp_all add: close_connections close_accept, simp add: closeConnection_def loop_defs)
next
  case acc: True
  show ?thesis
  proof (cases "connections l j")
    case None
    with inv acc show ?thesis
      by (intro log_step_silent) (simp_all add: closeConnection_def loop_defs)
  next
    case (Some c)
    note q = log_inv_conn(1) [OF inv Some]
    have app: "app (closeConnection j l) =
        snd (failAllPendingWrites c (call_opt (closing_callback c) (socket c) (app l)))"
      using acc Some by (simp add: closeConnection_def loop_defs Let_def case_prod_beta)
    have fail: "snd (failAllPendingWrites c a) = fail_writes (write_queue c) a" for a
      by (simp add: failAllPendingWrites_def)
    have l': "closeConnection j l = (l\<lparr>connections := (connections l)(j := None)\<rparr>)
        \<lparr>epoll := (epoll l)(j := None), app := app (closeConnection j l)\<rparr>"
      using acc Some by (simp add: closeConnection_def loop_defs Let_def case_prod_beta)
    show ?thesis
    proof (cases "j = k")
      case True
      have "log_inv k [] (closeConnection j l)"
        by (subst l') (simp add: log_inv_remove_k [OF inv] True)
      moreover have "numbered (write_queue c) ids" using log_inv_conn(3) [OF inv] Some True by simp
      then have "fst (app (closeConnection j l)) = fst (app l) @ map (\<lambda>i. (i, False)) ids"
        using q by (simp add: app fail fail_numbered quiet_conn_def)
      ultimately show ?thesis
        using acc True by (intro log_stepI [where fin = ids and b = False]) (simp_all add: close_connections)
    next
      case False
      have "log_inv k ids (closeConnection j l)"
        by (subst l') (simp add: log_inv_remove [OF inv False])
      moreover have "fst (app (closeConnection j l)) = fst (app l)"
        using q log_inv_conn(2) [OF inv Some False] by (simp add: app fail fail_quiet quiet_conn_def)
      ultimately show ?thesis by (intro log_step_silent) simp_all
    qed
  qed
qed

section \<open>Reading and writing\<close>

lemma quiet_conn_fields [simp]:
  "quiet_conn (c\<lparr>read_buffer := b\<rparr>) = quiet_conn c" "quiet_conn (c\<lparr>write_queue := q\<rparr>) = quiet_conn c"
  "quiet_conn (c\<lparr>high_level_callback_set := f\<rparr>) = quiet_conn c"
  "quiet_conn (c\<lparr>write_registered := f\<rparr>) = quiet_conn c" "quiet_conn (c\<lparr>read_registered := f\<rparr>) = quiet_conn c"
  "quiet_conn (c\<lparr>queued_bytes := i\<rparr>) = quiet_conn c" "quiet_conn (c\<lparr>peer_closed := f\<rparr>) = quiet_conn c"
  "quiet_conn (account_sent n c) = quiet_conn c" "quiet_conn (enqueue_write cb buf c) = quiet_conn c"
  by (simp_all add: quiet_conn_def)

lemma quiet_conn_batch [simp]: "quiet_conn (enqueue_batch cbs i bufs c) = quiet_conn c"
  by (simp add: quiet_conn_def)

lemma log_step_read:
  assumes inv: "log_inv k ids l"
  shows "log_step k ids [] l (handleRead kn j l)"
proof (cases "accept_set l j")
  case (Some cb)
  with inv show ?thesis
    by (intro log_step_silent) (auto simp: handleRead_def handleAccept_def call_def log_inv_def queue_of_def)
next
  case acc: None
  show ?thesis
  proof (cases "timer_fds l j")
    case (Some cb)
    have q: "fst (f a) = fst a" if "cb = Some f" for f a
      using inv Some that by (simp add: log_inv_def)
    have "log_inv k ids (handleRead kn j l)"
      by (rule log_inv_same [OF log_inv_accept(3) [OF inv, of j]])
        (simp_all add: handleRead_def handleTimer_def acc Some loop_defs Let_def split: option.splits)
    then show ?thesis
      by (intro log_step_silent)
        (simp_all add: handleRead_def handleTimer_def acc Some loop_defs Let_def q split: option.splits)
  next
    case tim: None
    show ?thesis
    proof (cases "connections l j")
      case None
      with inv acc tim show ?thesis by (intro log_step_silent) (simp_all add: handleRead_def)
    next
      case (Some c)
      note q = log_inv_conn(1) [OF inv Some]
      have put: "log_inv k ids (l\<lparr>connections := (connections l)(j \<mapsto> c')\<rparr>)"
        if "quiet_conn c'" "write_queue c' = write_queue c" for c'
        using log_inv_put [OF inv that(1)] log_inv_put_k [OF inv that(1)] log_inv_conn(2,3) [OF inv] Some that(2)
        by (cases "j = k") simp_all
      have rd: "fst (snd (f xs n a)) = fst a" if "read_cb c = Some f" for f xs n a
        using q that unfolding quiet_conn_def quiet_read_def by blast
      show ?thesis
      proof (cases "k_read kn (sb_size (read_buffer c) - data_size (read_buffer c)) = ReadFail")
        case True
        with acc tim Some log_step_close [OF inv, of j] show ?thesis by (simp add: handleRead_def)
      next
        case False
        have "\<exists>c'. quiet_conn c' \<and> write_queue c' = write_queue c \<and>
            connections (handleRead kn j l) = (connections l)(j \<mapsto> c')"
        proof (cases rule: handleRead_cases [where kn = kn and k = j and l = l])
          case other
          with q Some show ?thesis by (intro exI [of _ c]) (simp add: fun_upd_idem)
        next
          case (data c0 xs b)
          with q Some show ?thesis by (intro exI [of _ "c\<lparr>read_buffer := b\<rparr>"]) simp
        next
          case (eof c0)
          with q Some show ?thesis
            by (intro exI [of _ "c\<lparr>peer_closed := True, read_registered := False, write_registered := write_queue c \<noteq> []\<rparr>"]) simp
        qed (use False Some in simp)
        then obtain c' where c': "quiet_conn c'" "write_queue c' = write_queue c"
            "connections (handleRead kn j l) = (connections l)(j \<mapsto> c')" by blast
        have "log_inv k ids (handleRead kn j l)"
          by (rule log_inv_same [OF put [OF c'(1,2)]])
            (simp_all add: c'(3), use False in \<open>simp_all add: handleRead_def acc tim Some loop_defs Let_def
              case_prod_beta split: option.splits read_result.splits\<close>)
        moreover have "fst (app (handleRead kn j l)) = fst (app l)"
          using False by (simp add: handleRead_def acc tim Some loop_defs Let_def case_prod_beta rd
              split: option.splits read_result.splits)
        ultimately show ?thesis by (intro log_step_silent) simp_all
      qed
    qed
  qed
qed

lemma low_water_quiet:
  "quiet_conn c \<Longrightarrow> fst (app (snd (low_water c l))) = fst (app l)"
  "quiet_conn c \<Longrightarrow> quiet_conn (fst (low_water c l))"
  "quiet_conn c \<Longrightarrow> fst (app (snd (high_water c l))) = fst (app l)"
  "quiet_conn c \<Longrightarrow> quiet_conn (fst (high_water c l))"
proof -
  show "quiet_conn c \<Longrightarrow> fst (app (snd (low_water c l))) = fst (app l)"
    and "quiet_conn c \<Longrightarrow> fst (app (snd (high_water c l))) = fst (app l)"
    by (auto simp: low_water_def high_water_def quiet_conn_def call_def split: option.splits)
  show "quiet_conn c \<Longrightarrow> quiet_conn (fst (low_water c l))" "quiet_conn c \<Longrightarrow> quiet_conn (fst (high_water c l))"
    by (simp_all add: low_water_def high_water_def split: option.splits)
qed

lemma queue_drained_quiet: "quiet_conn c \<Longrightarrow> quiet_conn (fst (queue_drained j c l))"
  by (simp add: queue_drained_conn)

lemma log_step_write:
  assumes inv: "log_inv k ids l"
  shows "log_step k ids [] l (handleWrite kn j l)"
proof (cases "connections l j")
  case None
  with inv show ?thesis by (intro log_step_silent) simp_all
next
  case (Some c)
  note q = log_inv_conn(1) [OF inv Some]
  from Some show ?thesis
  proof (cases rule: handleWrite_cases [where kn = kn])
    case failed
    let ?c = "fst (failAllPendingWrites c (app l))" and ?a = "snd (failAllPendingWrites c (app l))"
    let ?l = "put_conn j ?c (l\<lparr>app := ?a\<rparr>)"
    have c: "quiet_conn ?c" "write_queue ?c = []" using q by simp_all
    have fail: "?a = fail_writes (write_queue c) (app l)" by (simp add: failAllPendingWrites_def)
    show ?thesis
    proof (cases "j = k")
      case True
      have num: "numbered (write_queue c) ids" using log_inv_conn(3) [OF inv] Some True by simp
      have "log_inv k [] ?l" unfolding put_conn_def using True c
        by (simp only: True) (rule log_inv_put_k [where ids = ids], simp_all add: inv)
      from log_step_close [OF this, of j] obtain log ids' where
        st: "log_inv k ids' (closeConnection j ?l)" "fst (app (closeConnection j ?l)) = fst ?a @ log"
          "map fst log @ ids' = []" unfolding log_step_def by (auto simp: put_conn_def)
      have "fst ?a = fst (app l) @ map (\<lambda>i. (i, False)) ids" using num fail by (simp add: fail_numbered)
      with st have "fst (app (handleWrite kn j l)) = fst (app l) @ map (\<lambda>i. (i, False)) ids"
        "log_inv k [] (handleWrite kn j l)" by (simp_all add: failed(2))
      moreover have "connections (handleWrite kn j l) k = None \<or> accept_set l k \<noteq> None"
        using failed(2) unfolding True by (simp add: close_connections put_conn_def)
      ultimately show ?thesis by (intro log_stepI [where fin = ids and b = False]) auto
    next
      case False
      have "log_inv k ids ?l" unfolding put_conn_def
        by (rule log_inv_put) (simp_all add: inv c q False quiet_queue_def)
      from log_step_close [OF this, of j] obtain log ids' where
        st: "log_inv k ids' (closeConnection j ?l)" "fst (app (closeConnection j ?l)) = fst ?a @ log"
          "map fst log @ ids' = ids"
          "connections (closeConnection j ?l) k \<noteq> None \<and> accept_set l k = None \<longrightarrow> list_all snd log"
        unfolding log_step_def by (auto simp: put_conn_def)
      have "fst ?a = fst (app l)" using log_inv_conn(2) [OF inv Some False] fail by (simp add: fail_quiet)
      then have "fst (app (closeConnection j ?l)) = fst (app l) @ log" using st(2) by (simp only:)
      with st(1,3,4) show ?thesis unfolding log_step_def failed(2) append_Nil2 by blast
    qed
  next
    case (wrote n c1 l1)
    obtain fin rest where d: "write_queue c = fin @ rest"
      "snd (complete_writes n (write_queue c) (app l)) = succeed_writes fin (app l)"
      "map callback (fst (complete_writes n (write_queue c) (app l))) = map callback rest"
      using complete_writes_prefix [of "write_queue c" n "app l"] submission_callbacks by blast
    let ?c = "fst (low_water (fst (queue_drained j c1 l1)) (snd (queue_drained j c1 l1)))"
    have c1: "quiet_conn c1" using q by (simp add: wrote(3))
    then have qc: "quiet_conn ?c" by (simp add: low_water_quiet queue_drained_quiet)
    have wq: "write_queue ?c = fst (complete_writes n (write_queue c) (app l))" by (simp add: wrote(3))
    have conns: "connections (handleWrite kn j l) = (connections l)(j \<mapsto> ?c)"
      by (simp add: wrote(5) put_conn_def) (simp add: wrote(4))
    have acc: "accept_set (handleWrite kn j l) = accept_set l" "timer_fds (handleWrite kn j l) = timer_fds l"
      by (simp_all add: wrote(5) put_conn_def) (simp_all add: wrote(4))
    have app: "fst (app (handleWrite kn j l)) = fst (succeed_writes fin (app l))"
      using c1 by (simp add: wrote(5) put_conn_def low_water_quiet queue_drained_quiet) (simp add: wrote(4) d(2))
    show ?thesis
    proof (cases "j = k")
      case True
      have "numbered (fin @ rest) ids" using log_inv_conn(3) [OF inv] Some True d(1) by simp
      then obtain i1 i2 where i: "ids = i1 @ i2" "numbered fin i1" "numbered rest i2"
        unfolding numbered_def list_all2_append1 by auto
      have "numbered (write_queue ?c) i2"
        using i(3) numbered_callbacks [OF d(3)] unfolding wq by simp
      then have "log_inv k i2 (l\<lparr>connections := (connections l)(j \<mapsto> ?c)\<rparr>)"
        unfolding True using qc True by (intro log_inv_put_k [OF inv]) simp_all
      then have "log_inv k i2 (handleWrite kn j l)"
        by (rule log_inv_same) (simp_all add: conns acc)
      with i app show ?thesis
        by (intro log_stepI [where fin = i1 and b = True and ids' = i2]) (simp_all add: succeed_numbered)
    next
      case False
      have "quiet_queue (fin @ rest)" using log_inv_conn(2) [OF inv Some False] d(1) by simp
      then have "quiet_queue fin" "quiet_queue (write_queue ?c)"
        using quiet_queue_callbacks [OF d(3)] unfolding wq by (simp_all add: quiet_queue_def)
      then have "log_inv k ids (l\<lparr>connections := (connections l)(j \<mapsto> ?c)\<rparr>)"
        using qc False by (intro log_inv_put [OF inv]) simp_all
      then have "log_inv k ids (handleWrite kn j l)"
        by (rule log_inv_same) (simp_all add: conns acc)
      with app \<open>quiet_queue fin\<close> show ?thesis by (intro log_step_silent) (simp_all add: succeed_quiet)
    qed
  qed (use log_step_silent [of k ids "[]" l l] inv in simp_all)
qed

section \<open>Tasks\<close>

text \<open>The numbers a task submits for the socket \<open>k\<close>; every other callback it carries is quiet.\<close>

definition task_logs :: "fd \<Rightarrow> 'w logged task \<Rightarrow> nat list \<Rightarrow> bool" where
  "task_logs k t ids \<longleftrightarrow>
     (case t of
        RegisterAccept j cb \<Rightarrow> ids = [] \<and> quiet_opt cb
      | RegisterRead j cb \<Rightarrow> ids = [] \<and> quiet_read cb
      | WriteOnce j cb buf \<Rightarrow>
          if j = k then (\<exists>i f. ids = [i] \<and> cb = Some f \<and> logs i f) else ids = [] \<and> quiet_opt cb
      | WriteBatch j cbs bufs \<Rightarrow>
          if j = k then length ids = length bufs \<and> (\<forall>n < length bufs. logs (ids ! n) (\<lambda>r. cbs r (int n)))
          else ids = [] \<and> (\<forall>n. quiet_opt (Some (\<lambda>r. cbs r n)))
      | CloseSocket j \<Rightarrow> ids = []
      | RegisterHigh j cb \<Rightarrow> ids = [] \<and> quiet_opt cb
      | RegisterLow j cb \<Rightarrow> ids = [] \<and> quiet_opt cb
      | RegisterClose j cb \<Rightarrow> ids = [] \<and> quiet_opt cb
      | UserTask f \<Rightarrow> ids = [] \<and> quiet f)"

lemma numbered_batch:
  "length ids = length bufs \<Longrightarrow> \<forall>n < length bufs. logs (ids ! n) (\<lambda>r. cbs r (int (i + n))) \<Longrightarrow>
   numbered (batch_metas cbs i bufs) ids"
proof (induction bufs arbitrary: i ids)
  case Nil
  then show ?case by simp
next
  case (Cons buf bufs)
  then obtain n ids' where ids: "ids = n # ids'" by (cases ids) auto
  have "logs n (\<lambda>r. cbs r (int i))" using Cons.prems(2) ids by fastforce
  moreover have "numbered (batch_metas cbs (i + 1) bufs) ids'"
  proof (rule Cons.IH)
    show "length ids' = length bufs" using Cons.prems(1) ids by simp
    show "\<forall>n < length bufs. logs (ids' ! n) (\<lambda>r. cbs r (int (i + 1 + n)))"
    proof (intro allI impI)
      fix m
      assume "m < length bufs"
      with Cons.prems(2) [rule_format, of "Suc m"] show "logs (ids' ! m) (\<lambda>r. cbs r (int (i + 1 + m)))"
        by (simp add: ids ac_simps)
    qed
  qed
  ultimately show ?case by (simp add: ids)
qed

lemma quiet_batch: "(\<And>n. quiet_opt (Some (\<lambda>r. cbs r n))) \<Longrightarrow> quiet_queue (batch_metas cbs i bufs)"
  by (simp add: quiet_queue_def batch_metas_def list_all_iff case_prod_beta)

lemma quiet_new_connection [simp]: "quiet_read cb \<Longrightarrow> quiet_conn (new_connection k cb)"
  by (simp add: quiet_conn_def new_connection_def)

lemma submit_log:
  assumes inv: "log_inv k ids l" and fields: "accept_set l' = accept_set l" "timer_fds l' = timer_fds l"
    and conns: "connections l' = (connections l)(j \<mapsto> c)" and app: "fst (app l') = fst (app l)"
    and c: "quiet_conn c" "write_queue c = queue_of j l @ ms"
    and ms: "if j = k then numbered ms new else new = [] \<and> quiet_queue ms"
  shows "log_step k ids new l l'"
proof (rule log_step_silent)
  have "log_inv k (ids @ new) (l\<lparr>connections := (connections l)(j \<mapsto> c)\<rparr>)"
  proof (cases "j = k")
    case True
    have "numbered (queue_of k l) ids" using inv by (simp add: log_inv_def)
    with True ms c have "numbered (write_queue c) (ids @ new)" by (simp add: numbered_append)
    with True c log_inv_put_k [OF inv] show ?thesis by simp
  next
    case False
    have "quiet_queue (queue_of j l)" using inv False
      by (auto simp: log_inv_def queue_of_def quiet_queue_def split: option.splits)
    with False ms c log_inv_put [OF inv c(1) False] show ?thesis by (simp add: quiet_queue_def)
  qed
  then show "log_inv k (ids @ new) l'" by (rule log_inv_same) (simp_all add: conns fields)
qed (rule app)

lemma submit_timers [simp]:
  "timer_fds (snd (high_water c l)) = timer_fds l" "timer_fds (snd (register_write k c l)) = timer_fds l"
  "timer_fds (snd (write_connection k l)) = timer_fds l" "accept_set (snd (write_connection k l)) = accept_set l"
  by (simp_all add: high_water_def register_write_def write_connection_def loop_defs Let_def split: option.splits)

lemma write_connection_upd [simp]:
  "(connections (snd (write_connection j l)))(j \<mapsto> c) = (connections l)(j \<mapsto> c)"
  by (simp add: write_connection_def loop_defs Let_def split: option.splits)

lemma write_connection_quiet: "log_inv k ids l \<Longrightarrow> quiet_conn (fst (write_connection j l))"
  by (auto simp: write_connection_def Let_def dest: log_inv_conn(1) split: option.splits)

lemma async_write_log:
  assumes inv: "log_inv k ids l" and l': "l' = put_conn j
      (fst (register_write j (fst (high_water c (snd (write_connection j l)))) (snd (high_water c (snd (write_connection j l))))))
      (snd (register_write j (fst (high_water c (snd (write_connection j l)))) (snd (high_water c (snd (write_connection j l))))))"
    and c: "quiet_conn c" "write_queue c = queue_of j l @ ms"
    and ms: "if j = k then numbered ms new else new = [] \<and> quiet_queue ms"
  shows "log_step k ids new l l'"
proof (rule submit_log [OF inv _ _ _ _ _ _ ms])
  let ?L = "snd (write_connection j l)"
  let ?c = "fst (register_write j (fst (high_water c ?L)) (snd (high_water c ?L)))"
  show "accept_set l' = accept_set l" "timer_fds l' = timer_fds l" by (simp_all add: l' put_conn_def)
  show "connections l' = (connections l)(j \<mapsto> ?c)" by (simp add: l' put_conn_def)
  show "fst (app l') = fst (app l)" using c(1) by (simp add: l' put_conn_def low_water_quiet)
  show "quiet_conn ?c" "write_queue ?c = queue_of j l @ ms"
    using c by (simp_all add: register_write_conn low_water_quiet)
qed

lemma log_step_callback:
  assumes inv: "log_inv k ids l" and "connections l' = connections l \<or>
      (\<exists>c c'. connections l j = Some c \<and> connections l' = (connections l)(j \<mapsto> c') \<and> quiet_conn c' \<and> write_queue c' = write_queue c)"
    and "accept_set l' = accept_set l" "timer_fds l' = timer_fds l" "app l' = app l"
  shows "log_step k ids [] l l'"
  using assms(2)
proof
  assume "connections l' = connections l"
  with assms log_inv_same [OF inv, of l'] show ?thesis by (intro log_step_silent) simp_all
next
  assume "\<exists>c c'. connections l j = Some c \<and> connections l' = (connections l)(j \<mapsto> c') \<and> quiet_conn c' \<and> write_queue c' = write_queue c"
  then obtain c c' where "connections l j = Some c" "connections l' = (connections l)(j \<mapsto> c')"
    "quiet_conn c'" "write_queue c' = write_queue c" by blast
  with assms(3-5) show ?thesis
    by (intro submit_log [OF inv, where j = j and ms = "[]" and c = c']) (simp_all add: queue_of_def quiet_queue_def)
qed

lemma log_step_exec:
  assumes inv: "log_inv k ids l" and t: "task_logs k t new"
  shows "log_step k ids new l (exec_task t l)"
proof (cases t)
  case (RegisterAccept j cb)
  with t have q: "new = []" "quiet_opt cb" by (simp_all add: task_logs_def)
  show ?thesis
    using q RegisterAccept log_inv_accept(2) [OF inv q(2), of j]
    by (intro log_step_silent) (simp_all add: doRegisterAccept_def epoll_add_def)
next
  case (RegisterRead j cb)
  with t have q: "new = []" "quiet_read cb" by (simp_all add: task_logs_def)
  show ?thesis
  proof (cases "connections l j")
    case None
    with RegisterRead q show ?thesis
      by (intro submit_log [OF inv, where j = j and ms = "[]" and c = "new_connection j cb\<lparr>read_registered := True\<rparr>"])
        (simp_all add: doRegisterRead_def loop_defs queue_of_def quiet_queue_def)
  next
    case (Some c)
    have qc: "quiet_conn (c\<lparr>read_cb := cb\<rparr>)" "quiet_conn (c\<lparr>read_cb := cb, read_registered := True\<rparr>)"
      using log_inv_conn(1) [OF inv Some] q by (simp_all add: quiet_conn_def)
    have "connections (exec_task t l) = (connections l)(j \<mapsto> c\<lparr>read_cb := cb\<rparr>) \<or>
        connections (exec_task t l) = (connections l)(j \<mapsto> c\<lparr>read_cb := cb, read_registered := True\<rparr>)"
      using Some RegisterRead by (simp add: doRegisterRead_def loop_defs Let_def)
    with qc Some have "\<exists>c c'. connections l j = Some c \<and> connections (exec_task t l) = (connections l)(j \<mapsto> c') \<and>
        quiet_conn c' \<and> write_queue c' = write_queue c" by fastforce
    with Some RegisterRead q(1) show ?thesis
      by (simp only: q(1)) (rule log_step_callback [OF inv, where j = j],
          simp_all add: doRegisterRead_def loop_defs Let_def)
  qed
next
  case (WriteOnce j cb buf)
  have "if j = k then numbered [\<lparr>wbuffer = buf, offset = 0, callback = cb\<rparr>] new
      else new = [] \<and> quiet_queue [\<lparr>wbuffer = buf, offset = 0, callback = cb\<rparr>]"
    using t WriteOnce by (auto simp: task_logs_def quiet_queue_def split: if_splits)
  with WriteOnce write_connection_quiet [OF inv, of j] show ?thesis
    by (intro async_write_log [OF inv, where j = j and c = "enqueue_write cb buf (fst (write_connection j l))"])
      (simp_all add: doAsyncWriteOnce_def case_prod_beta Let_def)
next
  case (WriteBatch j cbs bufs)
  have "if j = k then numbered (batch_metas cbs 0 bufs) new
      else new = [] \<and> quiet_queue (batch_metas cbs 0 bufs)"
    using t WriteBatch by (auto simp: task_logs_def quiet_batch intro!: numbered_batch split: if_splits)
  with WriteBatch write_connection_quiet [OF inv, of j] show ?thesis
    by (intro async_write_log [OF inv, where j = j and c = "enqueue_batch cbs 0 bufs (fst (write_connection j l))"])
      (simp_all add: doAsyncWriteBatch_def case_prod_beta Let_def)
next
  case (CloseSocket j)
  with t log_step_close [OF inv, of j] show ?thesis by (simp add: task_logs_def doClose_def)
next
  case (RegisterHigh j cb)
  with t have "new = []" "quiet_opt cb" by (simp_all add: task_logs_def)
  with RegisterHigh log_inv_conn(1) [OF inv] show ?thesis
    by (simp only:, intro log_step_callback [OF inv, where j = j])
      (auto simp: doRegisterHighLevelCallback_def put_conn_def quiet_conn_def split: option.splits)
next
  case (RegisterLow j cb)
  with t have "new = []" "quiet_opt cb" by (simp_all add: task_logs_def)
  with RegisterLow log_inv_conn(1) [OF inv] show ?thesis
    by (simp only:, intro log_step_callback [OF inv, where j = j])
      (auto simp: doRegisterLowLevelCallback_def put_conn_def quiet_conn_def split: option.splits)
next
  case (RegisterClose j cb)
  with t have "new = []" "quiet_opt cb" by (simp_all add: task_logs_def)
  with RegisterClose log_inv_conn(1) [OF inv] show ?thesis
    by (simp only:, intro log_step_callback [OF inv, where j = j])
      (auto simp: doRegisterCloseCallback_def put_conn_def quiet_conn_def split: option.splits)
next
  case (UserTask f)
  with t inv show ?thesis by (intro log_step_silent) (simp_all add: task_logs_def call_def)
qed

section \<open>Any sequence of inputs\<close>

fun input_logs :: "fd \<Rightarrow> 'w logged input \<Rightarrow> nat list \<Rightarrow> bool" where
  "input_logs k (Task t) ids \<longleftrightarrow> task_logs k t ids"
| "input_logs k (Event kn j err rd wr) ids \<longleftrightarrow> ids = []"

lemma log_step_event:
  assumes inv: "log_inv k ids l"
  shows "log_step k ids [] l (apply_input (Event kn j err rd wr) l)"
proof (cases err)
  case True
  with log_step_close [OF inv] show ?thesis by simp
next
  case False
  let ?l = "if rd then handleRead kn j l else l"
  have "log_step k ids [] l ?l"
    using log_step_read [OF inv] log_step_silent [of k ids "[]" l l] inv by simp
  then obtain log1 ids1 where s1: "log_inv k ids1 ?l" "fst (app ?l) = fst (app l) @ log1" "map fst log1 @ ids1 = ids"
    "connections ?l k \<noteq> None \<and> accept_set l k = None \<Longrightarrow> list_all snd log1"
    unfolding log_step_def by auto
  have "log_step k ids1 [] ?l (if wr then handleWrite kn j ?l else ?l)"
    using log_step_write [OF s1(1)] log_step_silent [of k ids1 "[]" ?l ?l] s1(1) by simp
  then obtain log2 ids2 where s2: "log_inv k ids2 (if wr then handleWrite kn j ?l else ?l)"
    "fst (app (if wr then handleWrite kn j ?l else ?l)) = fst (app ?l) @ log2" "map fst log2 @ ids2 = ids1"
    "connections (if wr then handleWrite kn j ?l else ?l) k \<noteq> None \<and> accept_set ?l k = None \<Longrightarrow> list_all snd log2"
    unfolding log_step_def by auto
  have keep: "connections ?l k \<noteq> None" if "connections (if wr then handleWrite kn j ?l else ?l) k \<noteq> None"
  proof
    assume "connections ?l k = None"
    with that show False by (cases "j = k"; cases wr) simp_all
  qed
  have acc: "accept_set ?l k = None" if "accept_set l k = None"
    using that handleRead_accept [of l k kn] same_fd_read [of j k l kn]
    by (cases "j = k") (auto simp: same_fd_def)
  show ?thesis
    unfolding log_step_def
  proof (intro exI conjI)
    show "log_inv k ids2 (apply_input (Event kn j err rd wr) l)" using s2(1) False by (simp add: Let_def)
    show "fst (app (apply_input (Event kn j err rd wr) l)) = fst (app l) @ (log1 @ log2)"
      using s2(2) s1(2) False by (simp add: Let_def)
    show "map fst (log1 @ log2) @ ids2 = ids @ []" using s1(3) s2(3) by simp
    show "connections (apply_input (Event kn j err rd wr) l) k \<noteq> None \<and> accept_set l k = None \<longrightarrow>
        list_all snd (log1 @ log2)"
      using keep acc s1(4) s2(4) False by (simp add: Let_def)
  qed
qed

lemma log_step_apply:
  "log_inv k ids l \<Longrightarrow> input_logs k i new \<Longrightarrow> log_step k ids new l (apply_input i l)"
  by (cases i) (simp_all add: log_step_exec log_step_event del: apply_Event)

fun inputs_log :: "fd \<Rightarrow> 'w logged input list \<Rightarrow> nat list list \<Rightarrow> bool" where
  "inputs_log k [] new \<longleftrightarrow> new = []"
| "inputs_log k (i # ins) new \<longleftrightarrow> (\<exists>n ns. new = n # ns \<and> input_logs k i n \<and> inputs_log k ins ns)"

text \<open>Whatever happens, the numbers logged and those still queued are the numbers submitted, in order.\<close>

lemma run_inputs_log:
  "log_inv k ids l \<Longrightarrow> inputs_log k ins new \<Longrightarrow>
   \<exists>log ids'. log_inv k ids' (run_inputs ins l) \<and> fst (app (run_inputs ins l)) = fst (app l) @ log \<and>
     map fst log @ ids' = ids @ concat new \<and> (stays_open k ins l \<and> connections l k \<noteq> None \<longrightarrow> list_all snd log)"
proof (induction ins arbitrary: ids l new)
  case Nil
  then show ?case by auto
next
  case (Cons i ins)
  from Cons.prems(2) obtain n ns where n: "new = n # ns" "input_logs k i n" "inputs_log k ins ns" by auto
  from log_step_apply [OF Cons.prems(1) n(2)] obtain log1 ids1 where
    s1: "log_inv k ids1 (apply_input i l)" "fst (app (apply_input i l)) = fst (app l) @ log1"
      "map fst log1 @ ids1 = ids @ n"
      "connections (apply_input i l) k \<noteq> None \<and> accept_set l k = None \<Longrightarrow> list_all snd log1"
    unfolding log_step_def by blast
  from Cons.IH [OF s1(1) n(3)] obtain log2 ids2 where
    s2: "log_inv k ids2 (run_inputs ins (apply_input i l))"
      "fst (app (run_inputs ins (apply_input i l))) = fst (app (apply_input i l)) @ log2"
      "map fst log2 @ ids2 = ids1 @ concat ns"
      "stays_open k ins (apply_input i l) \<and> connections (apply_input i l) k \<noteq> None \<Longrightarrow> list_all snd log2" by blast
  have "map fst (log1 @ log2) @ ids2 = ids @ concat new" using s1(3) s2(3) n(1) by (metis append_assoc concat.simps(2) map_append)
  moreover have "stays_open k (i # ins) l \<and> connections l k \<noteq> None \<longrightarrow> list_all snd (log1 @ log2)"
    using s1(4) s2(4) by auto
  moreover have "fst (app (run_inputs (i # ins) l)) = fst (app l) @ (log1 @ log2)" using s1(2) s2(2) by simp
  moreover have "log_inv k ids2 (run_inputs (i # ins) l)" using s2(1) by simp
  ultimately show ?case by blast
qed

end
