(* ===== verification/Loop_Properties.thy ===== *)
theory Loop_Properties
  imports Loop_Callbacks Loop_Reading Loop_Progress
begin

text \<open>
  What the event loop promises its users and where it does not keep it: the byte stream and the
  callbacks of a socket, the flags and the buffer of a connection, the order of tasks, timers,
  closing; then the states in which written data is never sent.
\<close>

text \<open>C5: bytes handed to a socket are written once each and in order. Whatever tasks and events the
  loop handles, as long as the socket's connection is not closed on the way and the kernel keeps to
  the contract of \<^verbatim>\<open>read\<close> and \<^verbatim>\<open>writev\<close>, what has gone to the wire followed by what is pending
  is what was there before followed by the bytes submitted in between.\<close>

theorem writes_keep_stream:
  assumes "kernels_ok ins" and "stays_open k ins l"
  shows "wire (run_inputs ins l) k @ pending (queue_of k (run_inputs ins l)) =
    wire l k @ pending (queue_of k l) @ submitted k ins"
  using run_inputs_stream [OF assms] by (simp add: stream_def)

text \<open>A loop with one connection that is registered for reading, for the examples.\<close>

definition probe :: "'a \<Rightarrow> 'a loop" where
  "probe a = (new_loop (UserTask (\<lambda>a. a)) a)
     \<lparr>connections := [5 \<mapsto> (new_connection 5 None)\<lparr>read_registered := True\<rparr>], epoll := [5 \<mapsto> (True, False)]\<rparr>"

lemmas loop_eval =
  probe_def new_loop_def do_defs loop_defs new_connection_def write_connection_def enqueue_write_def
  high_water_def register_write_def low_water_def queue_drained_def handleWrite_def handleRead_def
  account_sent_def to_int32_def high_level_size_def low_level_size_def iovecs_def iov_max_def unsent_def
  Let_def queue_of_def call_opt_def

lemmas kernel_eval = write_kernel_def eof_kernel_def

theorem writes_keep_stream_witness:
  "wire (run_inputs [Task (WriteOnce 5 None [1, 2, 3]), Event (write_kernel 2) 5 False False True] (probe ())) 5 @
     pending (queue_of 5 (run_inputs [Task (WriteOnce 5 None [1, 2, 3]), Event (write_kernel 2) 5 False False True] (probe ()))) =
   wire (probe ()) 5 @ pending (queue_of 5 (probe ())) @
     submitted 5 [Task (WriteOnce 5 None [1, 2, 3]), Event (write_kernel 2) 5 False False True :: unit input]"
  by (rule writes_keep_stream, simp, simp add: loop_eval kernel_eval)

text \<open>C6: every submitted write is called back exactly once and in order. If the writes of a socket are
  numbered and their callbacks log number and outcome, then after any tasks and events, closings,
  failures and other sockets included, the numbers logged followed by those still queued are the
  numbers queued before followed by those submitted, each once and in this order; and a failure is
  only reported when the connection was closed.\<close>

theorem writes_called_back_once:
  assumes "log_inv k ids l" and "inputs_log k ins new"
  shows "\<exists>log ids'. fst (app (run_inputs ins l)) = fst (app l) @ log \<and>
    numbered (queue_of k (run_inputs ins l)) ids' \<and> map fst log @ ids' = ids @ concat new \<and>
    (stays_open k ins l \<and> connections l k \<noteq> None \<longrightarrow> list_all snd log)"
proof -
  from run_inputs_log [OF assms] obtain log ids' where
    "log_inv k ids' (run_inputs ins l)" "fst (app (run_inputs ins l)) = fst (app l) @ log"
    "map fst log @ ids' = ids @ concat new"
    "stays_open k ins l \<and> connections l k \<noteq> None \<longrightarrow> list_all snd log" by blast
  moreover from this(1) have "numbered (queue_of k (run_inputs ins l)) ids'" by (simp add: log_inv_def)
  ultimately show ?thesis by blast
qed

definition log_cb :: "nat \<Rightarrow> 'w logged write_cb" where
  "log_cb i r a = (fst a @ [(i, r)], snd a)"

lemma logs_log_cb [simp]: "logs i (log_cb i)"
  by (simp add: logs_def log_cb_def)

definition log_inputs :: "unit logged input list" where
  "log_inputs = [Task (WriteOnce 5 (Some (log_cb 7)) [1]), Task (WriteOnce 5 (Some (log_cb 8)) [2]),
     Event (write_kernel 1) 5 False False True, Task (CloseSocket 5)]"

definition log_loop :: "unit logged loop" where
  "log_loop = probe ([], ())"

theorem writes_called_back_once_witness:
  "\<exists>log ids'. fst (app (run_inputs log_inputs log_loop)) = fst (app log_loop) @ log \<and>
    numbered (queue_of 5 (run_inputs log_inputs log_loop)) ids' \<and>
    map fst log @ ids' = [] @ concat [[7], [8], [], []] \<and>
    (stays_open 5 log_inputs log_loop \<and> connections log_loop 5 \<noteq> None \<longrightarrow> list_all snd log)"
proof (rule writes_called_back_once [where ids = "[]" and new = "[[7], [8], [], []]"])
  show "log_inv 5 [] log_loop"
    by (simp add: log_inv_def log_loop_def probe_def new_loop_def queue_of_def quiet_conn_def new_connection_def)
qed (simp add: log_inputs_def task_logs_def)

text \<open>A connection that is written to without empty buffers is flushed: as long as the kernel
  accepts at least one byte per writable event, as many events as there are pending bytes put all
  of them on the wire in order and leave the queue empty.\<close>

theorem writes_flushed:
  assumes "list_all accepts kns" and "connections l k = Some c" and "no_empty (write_queue c)"
    and "length (pending (write_queue c)) \<le> length kns"
  shows "queue_of k (write_events k kns l) = [] \<and>
    wire (write_events k kns l) k = wire l k @ pending (write_queue c)"
  using write_events_progress [OF assms] by (auto simp: queue_of_def)

theorem writes_flushed_witness:
  "queue_of 5 (write_events 5 [write_kernel 2, write_kernel 3] (exec_task (WriteOnce 5 None [1, 2]) (probe ()))) = [] \<and>
   wire (write_events 5 [write_kernel 2, write_kernel 3] (exec_task (WriteOnce 5 None [1, 2]) (probe ()))) 5 =
     wire (exec_task (WriteOnce 5 None [1, 2]) (probe ())) 5 @
     pending (write_queue (the (connections (exec_task (WriteOnce 5 None [1, 2]) (probe ())) 5)))"
  by (rule writes_flushed) (simp_all add: accepts_write_kernel loop_eval no_empty_def)

text \<open>C10: the bookkeeping of every connection is exact, after any inputs from a new loop in which a
  connection never has two gigabytes pending: the byte count that drives the water marks is the
  number of pending bytes, offsets stay inside their buffers, epoll never watches a connection for
  anything but what its flags say, and a connection with writes pending that epoll watches at all is
  watched for writing.\<close>

theorem connections_consistent:
  assumes "inputs_fit ins (new_loop t a)" and "connections (run_inputs ins (new_loop t a)) k = Some c"
  shows "queued_bytes c = int (length (pending (write_queue c))) \<and>
    (\<forall>m \<in> set (write_queue c). offset m \<le> length (wbuffer m)) \<and>
    epoll (run_inputs ins (new_loop t a)) k \<in> {None, Some (read_registered c, write_registered c)} \<and>
    (write_queue c \<noteq> [] \<longrightarrow> write_registered c) \<and> (peer_closed c \<longrightarrow> \<not> read_registered c)"
proof -
  have "fd_inv k (run_inputs ins (new_loop t a))" using fd_inv_run [OF assms(1) fd_inv_new] .
  from fd_inv_conn [OF this assms(2)] show ?thesis
    by (cases "epoll (run_inputs ins (new_loop t a)) k") (auto simp: conn_inv_def conn_watched_def)
qed

text \<open>A connection that was written to and half flushed, for the examples.\<close>

definition write_inputs :: "unit input list" where
  "write_inputs = [Task (WriteOnce 5 None [1, 2, 3]), Event (write_kernel 2) 5 False False True]"

lemma write_inputs_run:
  "inputs_fit write_inputs (new_loop (UserTask id) ())"
  "connections (run_inputs write_inputs (new_loop (UserTask id) ())) 5 =
     Some ((new_connection 5 None)\<lparr>write_registered := True, queued_bytes := 1,
       write_queue := [\<lparr>wbuffer = [1, 2, 3], offset = 2, callback = None\<rparr>]\<rparr>)"
proof -
  show "inputs_fit write_inputs (new_loop (UserTask id) ())"
    by (simp add: write_inputs_def task_fits_def new_loop_def queue_of_def)
  show "connections (run_inputs write_inputs (new_loop (UserTask id) ())) 5 =
     Some ((new_connection 5 None)\<lparr>write_registered := True, queued_bytes := 1,
       write_queue := [\<lparr>wbuffer = [1, 2, 3], offset = 2, callback = None\<rparr>]\<rparr>)"
    by (simp add: write_inputs_def loop_eval kernel_eval)
qed

theorem connections_consistent_witness:
  "queued_bytes (the (connections (run_inputs write_inputs (new_loop (UserTask id) ())) 5)) = 1"
  using connections_consistent [OF write_inputs_run]
  by (simp add: write_inputs_run unsent_def)

text \<open>C29: the receive buffer of every connection always has its 4096 bytes: the bytes not yet consumed,
  then zeros.\<close>

theorem receive_buffers_ok:
  assumes "inputs_fit ins (new_loop t a)" and "connections (run_inputs ins (new_loop t a)) k = Some c"
  shows "bytes (read_buffer c) = unread (read_buffer c) @ replicate (4096 - data_size (read_buffer c)) 0 \<and>
    length (unread (read_buffer c)) = data_size (read_buffer c) \<and> data_size (read_buffer c) \<le> 4096"
proof -
  have ok: "buffer_ok (read_buffer c)"
    using buffers_ok_run [OF buffers_ok_new_loop assms(1)] assms(2) unfolding buffers_ok_def by blast
  then have "data_size (read_buffer c) \<le> 4096" by (simp add: buffer_ok_def buffer_size_def)
  with buffer_ok_bytes [OF ok] length_unread [OF ok] show ?thesis unfolding buffer_size_def by blast
qed

theorem receive_buffers_ok_witness:
  "unread (read_buffer (the (connections (run_inputs write_inputs (new_loop (UserTask id) ())) 5))) = []"
  using receive_buffers_ok [OF write_inputs_run]
  by (simp add: write_inputs_run new_connection_def sb_resize_def)

text \<open>C21: a read callback is shown everything it has not consumed, then the new bytes, then zeros, with
  the size of the first two; what it does not consume is shown again, in order, in front of the next
  read.\<close>

theorem read_callback_sees_stream:
  assumes "accept_set l k = None" and "timer_fds l k = None" and "connections l k = Some c"
    and "buffer_ok (read_buffer c)" and "kernel_ok kn" and "read_cb c = Some f"
    and "k_read kn (buffer_size - data_size (read_buffer c)) = ReadData xs"
  shows "\<exists>n a b. f (unread (read_buffer c) @ xs @ replicate (4096 - data_size (read_buffer c) - length xs) 0)
      (length (unread (read_buffer c) @ xs)) (app l) = (n, a) \<and>
    connections (handleRead kn k l) = (connections l)(k \<mapsto> c\<lparr>read_buffer := b\<rparr>) \<and>
    app (handleRead kn k l) = a \<and> buffer_ok b \<and> unread b = drop n (unread (read_buffer c) @ xs)"
proof -
  let ?got = "unread (read_buffer c) @ xs"
  have "length ?got = data_size (read_buffer c) + length xs" using length_unread [OF assms(4)] by simp
  then have "?got @ replicate (buffer_size - length ?got) 0 =
      unread (read_buffer c) @ xs @ replicate (4096 - data_size (read_buffer c) - length xs) 0"
    by (simp add: buffer_size_def)
  note eq = this
  obtain n a where r: "f (?got @ replicate (buffer_size - length ?got) 0) (length ?got) (app l) = (n, a)"
    by (rule prod.exhaust)
  from handleRead_data(2) [OF assms] obtain b where
    b: "connections (handleRead kn k l) = (connections l)(k \<mapsto> c\<lparr>read_buffer := b\<rparr>)" "buffer_ok b"
      "unread b = drop n ?got"
    unfolding r fst_conv by blast
  have "app (handleRead kn k l) = a" using handleRead_data(3) [OF assms] unfolding r snd_conv .
  with b r show ?thesis unfolding eq by blast
qed

text \<open>A loop with one reader that keeps the last byte it is shown.\<close>

definition reader :: "byte list read_fun" where
  "reader bs n a = (n - 1, a @ take n bs)"

definition reader_loop :: "simple_buffer \<Rightarrow> byte list loop" where
  "reader_loop b = (new_loop (UserTask (\<lambda>a. a)) [])
     \<lparr>connections := [5 \<mapsto> (new_connection 5 (Some reader))\<lparr>read_buffer := b\<rparr>]\<rparr>"

lemma reader_loop_simps [simp]:
  "connections (reader_loop b) 5 = Some ((new_connection 5 (Some reader))\<lparr>read_buffer := b\<rparr>)"
  "accept_set (reader_loop b) k = None" "timer_fds (reader_loop b) k = None" "app (reader_loop b) = []"
  by (simp_all add: reader_loop_def new_loop_def)

definition filled :: "nat \<Rightarrow> simple_buffer" where
  "filled n = \<lparr>bytes = replicate n 7 @ replicate (buffer_size - n) 0, data_size = n\<rparr>"

lemma filled_ok: "n \<le> buffer_size \<Longrightarrow> buffer_ok (filled n)" "unread (filled n) = replicate n 7" "data_size (filled n) = n"
  by (simp_all add: buffer_ok_def filled_def sb_size_def unread_def)

theorem read_callback_sees_stream_witness:
  "\<exists>b. connections (handleRead (read_kernel [8, 9]) 5 (reader_loop (filled 1))) 5 =
      Some ((new_connection 5 (Some reader))\<lparr>read_buffer := b\<rparr>) \<and>
    app (handleRead (read_kernel [8, 9]) 5 (reader_loop (filled 1))) = [7, 8, 9] \<and> unread b = [9]"
proof -
  have k: "k_read (read_kernel [8, 9]) (buffer_size - data_size (read_buffer
      ((new_connection 5 (Some reader))\<lparr>read_buffer := filled 1\<rparr>))) = ReadData [8, 9]"
    by (simp add: read_kernel_def filled_ok buffer_size_def)
  have "\<exists>n a b. reader ([7, 8, 9] @ replicate 4093 0) 3 [] = (n, a) \<and>
      connections (handleRead (read_kernel [8, 9]) 5 (reader_loop (filled 1))) =
        (connections (reader_loop (filled 1)))(5 \<mapsto> (new_connection 5 (Some reader))\<lparr>read_buffer := b\<rparr>) \<and>
      app (handleRead (read_kernel [8, 9]) 5 (reader_loop (filled 1))) = a \<and> unread b = drop n [7, 8, 9]"
    using read_callback_sees_stream [OF reader_loop_simps(2,3,1) _ kernel_ok_read _ k, of reader]
    by (simp add: filled_ok buffer_size_def new_connection_def numeral_3_eq_3) blast
  then show ?thesis by (auto simp: reader_def)
qed

text \<open>C39: a full receive buffer is taken for the end of the stream. When a callback leaves 4096 bytes
  unconsumed, as it does for a reply longer than that, the next readable event asks for no bytes, gets
  0 as POSIX demands, and the connection is marked as closed by the peer and not read any more.\<close>

theorem full_buffer_ends_reading:
  assumes "accept_set l k = None" and "timer_fds l k = None" and "connections l k = Some c"
    and "buffer_ok (read_buffer c)" and "data_size (read_buffer c) = 4096" and "k_read kn 0 = ReadEof"
  shows "\<exists>c'. connections (handleRead kn k l) k = Some c' \<and> peer_closed c' \<and> \<not> read_registered c' \<and>
    unread (read_buffer c') = unread (read_buffer c)"
  using assms by (intro full_buffer_eof) (simp_all add: buffer_size_def)

theorem full_buffer_ends_reading_witness:
  "\<exists>c'. connections (handleRead (read_kernel [8]) 5 (reader_loop (filled 4096))) 5 = Some c' \<and> peer_closed c' \<and>
    \<not> read_registered c' \<and> unread (read_buffer c') = unread (filled 4096)"
  using full_buffer_ends_reading [OF reader_loop_simps(2,3,1), of "filled 4096" "read_kernel [8]"]
  by (simp add: filled_ok buffer_size_def read_kernel_def)

text \<open>After the peer has closed its side while nothing is pending, the connection stays but is not
  watched any more, and nothing submitted later is ever written: whatever tasks follow, short of
  closing the socket, and whatever events other descriptors have, the wire stays as it was.\<close>

theorem writes_after_eof_lost:
  assumes "connections l k = Some c" and "accept_set l k = None" and "timer_fds l k = None"
    and "write_queue c = []" and "k_read kn (sb_size (read_buffer c) - data_size (read_buffer c)) = ReadEof"
    and "list_all (leaves_alone k) ins"
  shows "connections (run_inputs ins (handleRead kn k l)) k \<noteq> None \<and>
    epoll (run_inputs ins (handleRead kn k l)) k = None \<and>
    wire (run_inputs ins (handleRead kn k l)) k = wire l k"
  using unwatched_run [OF eof_unwatched [OF assms(1-5)] assms(6)] by (simp add: unwatched_def)

theorem writes_after_eof_lost_witness:
  "connections (run_inputs [Task (WriteOnce 5 None [1])] (handleRead eof_kernel 5 (probe ()))) 5 \<noteq> None \<and>
    epoll (run_inputs [Task (WriteOnce 5 None [1])] (handleRead eof_kernel 5 (probe ()))) 5 = None \<and>
    wire (run_inputs [Task (WriteOnce 5 None [1])] (handleRead eof_kernel 5 (probe ()))) 5 = wire (probe ()) 5"
  by (rule writes_after_eof_lost [where c = "the (connections (probe ()) 5)"]) (simp_all add: loop_eval kernel_eval)

text \<open>On a connection that is not registered for reading, as every connection opened by a write is,
  only the first flush works: once its queue has run empty, whatever is written later is queued and
  never sent, whatever tasks follow, short of closing the socket.\<close>

theorem write_only_second_write_lost:
  assumes "connections l k = Some c" and "accept_set l k = None" and "\<not> read_registered c"
    and "no_empty (write_queue c)" and "write_queue c \<noteq> []"
    and "k_writev kn (iovecs (write_queue c)) = Wrote (length (pending (write_queue c)))"
    and "length (write_queue c) \<le> iov_max"
    and "list_all (leaves_alone k) ins"
  shows "wire (run_inputs ins (handleWrite kn k l)) k = wire l k @ pending (write_queue c)"
proof -
  let ?q = "write_queue c"
  have all: "concat (iovecs ?q) = pending ?q" using assms(7) by (simp add: concat_iovecs)
  have "pending (fst (complete_writes (length (pending ?q)) ?q (app l))) = []"
    by (simp add: complete_writes_pending)
  then have "fst (complete_writes (length (pending ?q)) ?q (app l)) = []"
    using complete_writes_no_empty [OF assms(4)] no_empty_pending by blast
  moreover have "iovecs ?q \<noteq> []" using no_empty_iovecs [OF assms(4,5)] by auto
  ultimately have u: "unwatched k (handleWrite kn k l)"
    using assms(1-3,6) by (intro drained_unwatched)
  have "wire (handleWrite kn k l) k = wire l k @ pending ?q"
    using assms(1)
  proof (cases rule: handleWrite_cases [where kn = kn])
    case (wrote n c1 l1)
    then show ?thesis using assms(6) by (simp add: put_conn_def all)
  qed (use assms(6) \<open>iovecs ?q \<noteq> []\<close> in simp_all)
  with unwatched_run [OF u assms(8)] show ?thesis by simp
qed

theorem write_only_second_write_lost_witness:
  "wire (run_inputs [Task (WriteOnce 5 None [4, 5])]
      (handleWrite (write_kernel 3) 5 (exec_task (WriteOnce 5 None [1, 2, 3]) (new_loop (UserTask id) ())))) 5 =
    wire (exec_task (WriteOnce 5 None [1, 2, 3]) (new_loop (UserTask id) ())) 5 @
      pending [\<lparr>wbuffer = [1, 2, 3], offset = 0, callback = None :: unit write_cb option\<rparr>]"
proof -
  let ?l = "exec_task (WriteOnce 5 None [1, 2, 3]) (new_loop (UserTask id) ())"
  let ?q = "[\<lparr>wbuffer = [1, 2, 3], offset = 0, callback = None :: unit write_cb option\<rparr>]"
  have "connections ?l 5 = Some ((new_connection 5 None)\<lparr>write_registered := True, queued_bytes := 3, write_queue := ?q\<rparr>)"
    by (simp add: loop_eval)
  from write_only_second_write_lost [OF this, of "write_kernel 3" "[Task (WriteOnce 5 None [4, 5])]"]
  show ?thesis
    by (simp add: loop_eval kernel_eval no_empty_def)
qed

text \<open>A write of only empty buffers is never completed: no writable event, whatever the kernel
  answers, calls its callback or takes it off the queue.\<close>

theorem empty_writes_stuck:
  assumes "\<forall>m \<in> set (take iov_max (queue_of k l)). unsent m = []"
  shows "write_events k kns l = l"
proof -
  have "handleWrite kn k l = l" for kn
    using assms by (auto simp: handleWrite_def queue_of_def iovecs_def filter_empty_conv split: option.splits)
  then show ?thesis by (induction kns) (simp_all add: write_events_def)
qed

theorem empty_writes_stuck_witness:
  "write_events 5 [write_kernel 3, write_kernel 4] (exec_task (WriteOnce 5 None []) (probe ())) =
     exec_task (WriteOnce 5 None []) (probe ())"
  by (rule empty_writes_stuck) (simp add: loop_eval)

text \<open>Tasks run once each, in the order they were posted: when the threads have posted fewer tasks
  than the 512 slots minus one, no post has to wait, the wake-up descriptor was written exactly when
  the flag was down, and draining executes them all in order and leaves queue and flag empty.\<close>

theorem tasks_run_in_order:
  assumes "mp_inv (task_queue l)" and "mp_contents (task_queue l) = []" and "length ts < mp_cap (task_queue l)"
    and "ts \<noteq> []" and "length ts < f"
  shows "\<exists>l1 q q'. post_all ts l = Some l1 \<and> l1 = wake (l\<lparr>task_queue := q\<rparr>) \<and>
    drainTasks f l1 = Some ((fold exec_task ts l1)\<lparr>task_queue := q', awake := False\<rparr>) \<and> mp_contents q' = []"
proof -
  from push_tasks_contents [OF assms(1), of ts] assms(2,3) obtain q where
    q: "push_tasks ts l = Some (l\<lparr>task_queue := q\<rparr>)" "mp_inv q" "mp_contents q = ts" by auto
  then have "post_all ts l = Some (wake (l\<lparr>task_queue := q\<rparr>))" by (simp add: post_all_batch [OF assms(4)])
  moreover have "\<exists>q'. drainTasks f (wake (l\<lparr>task_queue := q\<rparr>)) =
      Some ((fold exec_task ts (wake (l\<lparr>task_queue := q\<rparr>)))\<lparr>task_queue := q', awake := False\<rparr>) \<and> mp_contents q' = []"
    using drain_tasks [of "wake (l\<lparr>task_queue := q\<rparr>)" f] q(2,3) assms(5) by auto
  ultimately show ?thesis by blast
qed

text \<open>The three values of the witness: two user tasks on a new loop.\<close>

theorem tasks_run_in_order_witness:
  "\<exists>l1 q q'. post_all [UserTask (\<lambda>a. a @ [1]), UserTask (\<lambda>a. a @ [2])] (new_loop (UserTask (\<lambda>a. a)) [0]) = Some l1 \<and>
    l1 = wake ((new_loop (UserTask (\<lambda>a. a)) [0 :: nat])\<lparr>task_queue := q\<rparr>) \<and>
    drainTasks 600 l1 = Some ((fold exec_task [UserTask (\<lambda>a. a @ [1]), UserTask (\<lambda>a. a @ [2])] l1)
      \<lparr>task_queue := q', awake := False\<rparr>) \<and> mp_contents q' = []"
  by (intro tasks_run_in_order) (simp_all add: new_loop_def mp_inv_new)

text \<open>Posting a batch is posting its tasks one after the other: the batch that is not empty leaves
  the same queue, flag and wake-ups, and has to wait in the same cases.\<close>

lemma postTaskBatch_post_all:
  "postTaskBatch (t # ts) l = post_all (t # ts) l"
  using post_all_batch [of "t # ts" l] by (simp add: postTaskBatch_def del: post_all.simps push_tasks.simps)

text \<open>C28: a timer fires once, and only its own event or its destruction ends it: after
  \<^verbatim>\<open>addTimer\<close> on a fresh descriptor, whatever happens to other descriptors, closing the socket it was
  created for included, its first readable event runs the callback once and forgets timer and
  descriptor, and later events on that descriptor do nothing.\<close>

theorem timer_fires_once:
  assumes "connections l k = None" and "accept_set l k = None" and "timer_fds l k = None" and "epoll l k = None"
    and "addTimer (Some k) True True (Some f) l = (h, l1)"
    and "\<And>t. Task t \<in> set ins \<Longrightarrow> task_fd t \<noteq> Some k" and "list_all (leaves_alone k) ins"
  shows "h = k \<and> timer_fds (run_inputs ins l1) k = Some (Some f) \<and>
    epoll (run_inputs ins l1) k = Some (True, False) \<and>
    app (handleRead kn k (run_inputs ins l1)) = f (app (run_inputs ins l1)) \<and>
    timer_fds (handleRead kn k (run_inputs ins l1)) k = None \<and> epoll (handleRead kn k (run_inputs ins l1)) k = None \<and>
    handleRead kn' k (handleRead kn k (run_inputs ins l1)) = handleRead kn k (run_inputs ins l1)"
proof -
  have run: "same_fd k m (run_inputs ins m)" for m
    using assms(6,7)
  proof (induction ins arbitrary: m)
    case (Cons i ins)
    have "same_fd k m (apply_input i m)"
      using Cons.prems by (cases i) (simp_all add: same_fd_exec same_fd_event del: apply_Event)
    with Cons.IH [of "apply_input i m"] Cons.prems show ?case by (auto intro: same_fd_trans)
  qed simp
  have l1: "h = k" "connections l1 k = None" "accept_set l1 k = None" "timer_fds l1 k = Some (Some f)"
    "epoll l1 k = Some (True, False)"
    using assms(1-5) by (auto simp: addTimer_def epoll_add_def)
  then have *: "connections (run_inputs ins l1) k = None" "accept_set (run_inputs ins l1) k = None"
    "timer_fds (run_inputs ins l1) k = Some (Some f)" "epoll (run_inputs ins l1) k = Some (True, False)"
    using run [of l1] by (simp_all add: same_fd_def)
  then have "handleRead kn k (run_inputs ins l1) = handleTimer k (Some f) (run_inputs ins l1)"
    by (simp add: handleRead_def)
  with * l1(1) show ?thesis
    by (simp add: handleTimer_def call_def epoll_del_def) (simp add: handleRead_def)
qed

theorem timer_fires_once_witness:
  "app (handleRead eof_kernel 9 (run_inputs [Task (CloseSocket 5)] (snd (addTimer (Some 9) True True (Some (\<lambda>n. n + 1)) (probe (0 :: nat)))))) =
     app (run_inputs [Task (CloseSocket 5)] (snd (addTimer (Some 9) True True (Some (\<lambda>n. n + 1)) (probe 0)))) + 1"
  using timer_fires_once [of "probe 0" 9 "\<lambda>n. n + 1" 9 "snd (addTimer (Some 9) True True (Some (\<lambda>n. n + 1)) (probe (0 :: nat)))"
      "[Task (CloseSocket 5)]" eof_kernel]
  by (simp add: probe_def new_loop_def addTimer_def epoll_add_def)

end
