(* ===== verification/Redis_Client.thy ===== *)
theory Redis_Client
  imports Epoll_Context Loop_Progress Resp_Commands
begin

text \<open>
  The pipelining client of \<^verbatim>\<open>src/app/redis/SimpleRedisClient.cpp\<close>: four connections, each
  with a queue of promises that are waiting for a reply. A command is written to the next
  connection, its promise enters that connection's queue when the write is reported complete, and
  the read callback resolves the front promise with each reply it parses.

  A promise is a number; what \<^verbatim>\<open>set_value\<close> and \<^verbatim>\<open>set_exception\<close> do to promises is
  the log \<open>outcomes\<close>.
\<close>

section \<open>State\<close>

datatype reply = Value resp_value | Exception string

record redis_connection =
  rsocket :: "fd option"
  promises :: "nat list"
  writing_promises :: "nat list"
  writing_cmds :: "byte list list"
  flush_time :: bool
  highLevel :: bool

record client_state =
  clients :: "redis_connection list"
  outcomes :: "(nat \<times> reply) list"

definition DEFAULT_CLIENT_COUNT :: nat where
  "DEFAULT_CLIENT_COUNT = 4"

definition new_client_state :: "fd option list \<Rightarrow> client_state" where
  "new_client_state ss =
     \<lparr>clients = map (\<lambda>s. \<lparr>rsocket = s, promises = [], writing_promises = [], writing_cmds = [],
        flush_time = False, highLevel = False\<rparr>) ss, outcomes = []\<rparr>"

definition set_promise :: "nat \<Rightarrow> reply \<Rightarrow> client_state \<Rightarrow> client_state" where
  "set_promise p r st = st\<lparr>outcomes := outcomes st @ [(p, r)]\<rparr>"

definition with_promises :: "nat \<Rightarrow> nat list \<Rightarrow> client_state \<Rightarrow> client_state" where
  "with_promises i ps st = st\<lparr>clients := (clients st)[i := (clients st ! i)\<lparr>promises := ps\<rparr>]\<rparr>"

text \<open>Strings of the parser are characters, bytes of a buffer are octets.\<close>

definition chars :: "byte list \<Rightarrow> string" where
  "chars bs = map (\<lambda>b. char_of (unat b)) bs"

definition octets :: "string \<Rightarrow> byte list" where
  "octets s = map (\<lambda>c. of_nat (of_char c)) s"

section \<open>Reading replies\<close>

text \<open>
  \<^verbatim>\<open>ClientImpl::read\<close>: the loop over the replies in the receive buffer. \<open>None\<close> is a read that
  does not return: because the parser does not, or because of an exception out of the log line.
\<close>

partial_function (option) redis_replies :: "nat \<Rightarrow> nat \<Rightarrow> string \<Rightarrow> nat \<Rightarrow> nat \<Rightarrow> client_state \<Rightarrow> (nat \<times> client_state) option" where
  "redis_replies vm i buf sz pos st =
     (if pos < sz then
        Option.bind (parse_run vm buf None pos) (\<lambda>r.
          case r of
            Raised e \<Rightarrow> Some (if e = Incomplete then pos else pos + 1, st)
          | Returned result pos \<Rightarrow>
              (case promises (clients st ! i) of
                 [] \<Rightarrow> Some (pos, st)
               | p # ps \<Rightarrow>
                   (case formatResponse result 0 of
                      None \<Rightarrow> None
                    | Some line \<Rightarrow>
                        redis_replies vm i buf sz pos (set_promise p (Value result) (with_promises i ps st)))))
      else Some (pos, st))"

definition redis_read :: "nat \<Rightarrow> nat \<Rightarrow> string \<Rightarrow> nat \<Rightarrow> client_state \<Rightarrow> (nat \<times> client_state) option" where
  "redis_read vm i buf sz st = redis_replies vm i buf sz 0 st"

definition read_callback :: "nat \<Rightarrow> nat \<Rightarrow> client_state read_fun" where
  "read_callback vm i buf n st = (case redis_read vm i (chars buf) n st of Some r \<Rightarrow> r | None \<Rightarrow> (0, st))"

section \<open>Connecting, executing, closing\<close>

text \<open>\<^verbatim>\<open>connect\<close>: every socket is tried, whatever the others did.\<close>

definition close_client :: "(fd \<Rightarrow> nat) \<Rightarrow> fd option list \<Rightarrow> client_state epoll_context \<Rightarrow> client_state epoll_context option" where
  "close_client hash ss ctx =
     map_option ctx_close (api_calls hash (map ApiRemove (filter (\<lambda>s. s \<noteq> None) ss)) ctx)"

definition connect_client :: "(fd \<Rightarrow> nat) \<Rightarrow> nat \<Rightarrow> fd option list \<Rightarrow> bool list \<Rightarrow> client_state epoll_context \<Rightarrow>
    (bool \<times> client_state epoll_context) option" where
  "connect_client hash vm ss oks ctx =
     (let res = list_all (\<lambda>b. b) oks in
      if \<not> res then map_option (\<lambda>ctx. (False, ctx)) (close_client hash ss ctx)
      else case api_calls hash (map (\<lambda>(i, s). ApiRead s (Some (read_callback vm i))) (enumerate 0 ss)) ctx of
             None \<Rightarrow> None
           | Some ctx \<Rightarrow> map_option (\<lambda>ctx. (True, ctx)) (ctx_run False ctx))"

text \<open>
  The write callback of a command: a promise waits for its reply from the moment its command is
  written. \<^verbatim>\<open>execute\<close> picks the connection by the hash of a counter of the calling thread.
\<close>

definition write_callback :: "nat \<Rightarrow> nat \<Rightarrow> client_state write_cb" where
  "write_callback which p success st =
     (if \<not> success then set_promise p (Exception ''write error'') st
      else with_promises which (promises (clients st ! which) @ [p]) st)"

text \<open>
  The counter, the promise the call returns, the commands, and the client as the calling thread
  sees it: the new counter, and either a promise that has failed at once or the call of the context.
\<close>

definition execute_cmd :: "(nat \<Rightarrow> nat) \<Rightarrow> nat \<Rightarrow> nat \<Rightarrow> byte list \<Rightarrow> client_state \<Rightarrow> nat \<times> (nat \<times> reply) option \<times> client_state api option" where
  "execute_cmd hash counter p cmd st =
     (let counter = (counter + 1) mod 2 ^ 64;
          which_sock = hash counter mod length (clients st) in
      if highLevel (clients st ! which_sock)
      then (counter, Some (p, Exception ''to many bytes to write''), None)
      else (counter, None, Some (ApiWrite (rsocket (clients st ! which_sock)) (Some (write_callback which_sock p)) cmd)))"

definition execute_args :: "(nat \<Rightarrow> nat) \<Rightarrow> nat \<Rightarrow> nat \<Rightarrow> string list \<Rightarrow> client_state \<Rightarrow> nat \<times> (nat \<times> reply) option \<times> client_state api option" where
  "execute_args hash counter p args st = execute_cmd hash counter p (octets (buildRESPCommand args)) st"

definition execute_line :: "(nat \<Rightarrow> nat) \<Rightarrow> nat \<Rightarrow> nat \<Rightarrow> string \<Rightarrow> client_state \<Rightarrow> nat \<times> (nat \<times> reply) option \<times> client_state api option" where
  "execute_line hash counter p cmd st = execute_args hash counter p (stream_words cmd) st"

section \<open>One buffer of replies\<close>

lemma chars_octets [simp]: "chars (octets s) = s"
  by (simp add: chars_def octets_def unat_of_nat comp_def)

lemma octets_chars [simp]: "octets (chars bs) = bs"
proof -
  have "of_nat (unat b mod 256) = b" for b :: byte
  proof -
    have "unat b < 2 ^ LENGTH(8)" by (rule unsigned_less)
    then show ?thesis by simp
  qed
  then show ?thesis by (simp add: chars_def octets_def comp_def)
qed

lemma chars_simps [simp]:
  "chars (xs @ ys) = chars xs @ chars ys" "length (chars xs) = length xs" "length (octets s) = length s"
  "octets (s @ t) = octets s @ octets t" "drop n (octets s) = octets (drop n s)"
  "chars (replicate n 0) = replicate n NUL"
  by (simp_all add: chars_def octets_def drop_map char_of_def)

text \<open>The front promises get the replies.\<close>

definition resolve :: "nat \<Rightarrow> resp_value list \<Rightarrow> client_state \<Rightarrow> client_state" where
  "resolve i vs st =
     (with_promises i (drop (length vs) (promises (clients st ! i))) st)
       \<lparr>outcomes := outcomes st @ zip (promises (clients st ! i)) (map Value vs)\<rparr>"

lemma with_promises_simps [simp]:
  "length (clients (with_promises i ps st)) = length (clients st)"
  "outcomes (with_promises i ps st) = outcomes st"
  "i < length (clients st) \<Longrightarrow> promises (clients (with_promises i ps st) ! i) = ps"
  "with_promises i ps (with_promises i qs st) = with_promises i ps st"
  "with_promises i ps (st\<lparr>outcomes := os\<rparr>) = (with_promises i ps st)\<lparr>outcomes := os\<rparr>"
  "i < length (clients st) \<Longrightarrow> with_promises i (promises (clients st ! i)) st = st"
  by (simp_all add: with_promises_def) (cases "i < length (clients st)"; simp add: list_update_beyond)

lemma resolve_fields [simp]:
  "length (clients (resolve i vs st)) = length (clients st)"
  "i < length (clients st) \<Longrightarrow> promises (clients (resolve i vs st) ! i) = drop (length vs) (promises (clients st ! i))"
  "outcomes (resolve i vs st) = outcomes st @ zip (promises (clients st ! i)) (map Value vs)"
  using with_promises_simps(3) [of i st "drop (length vs) (promises (clients st ! i))"]
  by (simp_all add: resolve_def)

lemma resolve_Nil [simp]: "i < length (clients st) \<Longrightarrow> resolve i [] st = st"
  by (simp add: resolve_def)

lemma zip_take_length: "length ys \<le> length xs \<Longrightarrow> zip (take (length ys) xs) ys = zip xs ys"
  by (induction xs ys rule: list_induct2') simp_all

lemma resolve_append:
  assumes "i < length (clients st)" and "length vs \<le> length (promises (clients st ! i))"
  shows "resolve i ws (resolve i vs st) = resolve i (vs @ ws) st"
proof -
  have "zip (promises (clients st ! i)) (map Value (vs @ ws)) =
      zip (take (length vs) (promises (clients st ! i))) (map Value vs) @
      zip (drop (length vs) (promises (clients st ! i))) (map Value ws)"
    using zip_append [of "take (length vs) (promises (clients st ! i))" "map Value vs"
        "drop (length vs) (promises (clients st ! i))" "map Value ws"] assms(2) by simp
  moreover have "zip (take (length vs) (promises (clients st ! i))) (map Value vs) = zip (promises (clients st ! i)) (map Value vs)"
    using zip_take_length [of "map Value vs"] assms(2) by simp
  ultimately show ?thesis
    using resolve_fields(2) [OF assms(1), of vs]
    by (simp add: resolve_def [of i ws] resolve_def [of i "vs @ ws"]) (simp add: resolve_def add.commute)
qed

text \<open>What a buffer of complete replies, the beginning of another one and zeros comes to.\<close>

definition clean :: "nat \<Rightarrow> resp_value \<Rightarrow> bool" where
  "clean vm v \<longleftrightarrow> encodable vm v \<and> small_counts v"

definition flat :: "resp_value \<Rightarrow> bool" where
  "flat v \<longleftrightarrow> rtype v \<noteq> Array"

definition sendable :: "nat \<Rightarrow> resp_value \<Rightarrow> bool" where
  "sendable vm v \<longleftrightarrow> clean vm v \<and> flat v"

lemma flat_boundary: "flat v \<Longrightarrow> \<not> boundary v n"
  by (cases "(v, n)" rule: boundary.cases) (auto simp: flat_def)

text \<open>The beginning of a reply that does not end between two elements of an array.\<close>

definition begun :: "nat \<Rightarrow> string \<Rightarrow> bool" where
  "begun vm part \<longleftrightarrow> part = [] \<or>
     (\<exists>v q. clean vm v \<and> enc v = part @ q \<and> q \<noteq> [] \<and> \<not> boundary v (length part))"

lemma parse_run_fuel_enough: "parse_value vm f data pos = Some r \<Longrightarrow> parse_run vm data None pos = Some r"
  using parse_run_iff by blast

lemma redis_replies_buffer:
  assumes "\<forall>v \<in> set vs. encodable vm v" and "begun vm part"
    and "fits_memory (pre @ enc_all vs @ part @ replicate n NUL)"
    and "i < length (clients st)" and "length vs \<le> length (promises (clients st ! i))"
  shows "redis_replies vm i (pre @ enc_all vs @ part @ replicate n NUL) (length (pre @ enc_all vs @ part)) (length pre) st =
    Some (length (pre @ enc_all vs), resolve i vs st)"
  using assms
proof (induction vs arbitrary: pre st)
  case Nil
  show ?case
  proof (cases "part = []")
    case True
    with Nil show ?thesis by (subst redis_replies.simps) simp
  next
    case False
    with Nil.prems(2) obtain v q where
      v: "clean vm v" "enc v = part @ q" "q \<noteq> []" "\<not> boundary v (length part)" by (auto simp: begun_def)
    have "parse_run vm (pre @ part @ replicate n NUL) None (length pre) = Some (Raised (cut_exn (boundary v (length part)) (replicate n NUL)))"
      using parse_value_cut [of vm v part q "replicate n NUL" pre "Suc (length (pre @ part @ replicate n NUL))"] v(1-3) Nil.prems(3) False
      by (intro parse_run_fuel_enough) (simp add: clean_def zeros_def list_all_iff)
    then show ?thesis
      using False v(4) Nil.prems(4) by (subst redis_replies.simps) (simp add: cut_exn_def)
  qed
next
  case (Cons v vs)
  from Cons.prems(5) obtain p ps where ps: "promises (clients st ! i) = p # ps"
    by (cases "promises (clients st ! i)") simp_all
  let ?st = "resolve i [v] st"
  have enc: "encodable vm v" using Cons.prems(1) by simp
  have "3 \<le> length (enc v)" using enc by (rule enc_length_pos)
  then have "0 < length (enc v)" by linarith
  then have lt: "length pre < length (pre @ enc_all (v # vs) @ part)"
    unfolding length_append list.map concat.simps by (simp del: length_greater_0_conv)
  have "parse_value vm (Suc (length (pre @ enc_all (v # vs) @ part @ replicate n NUL))) (pre @ enc_all (v # vs) @ part @ replicate n NUL) (length pre) =
      Some (Returned v (length (pre @ enc v)))"
    using parse_value_enc [OF enc, of pre "enc_all vs @ part @ replicate n NUL" "Suc (length (pre @ enc_all (v # vs) @ part @ replicate n NUL))"] Cons.prems(3)
    by simp
  then have parse: "parse_run vm (pre @ enc_all (v # vs) @ part @ replicate n NUL) None (length pre) =
      Some (Returned v (length (pre @ enc v)))" and "wt_value v"
    by (simp_all add: parse_run_fuel_enough parse_value_wt)
  then obtain s where fmt: "formatResponse v 0 = Some s" using formatResponse_total by blast
  have st: "set_promise p (Value v) (with_promises i ps st) = ?st"
    using Cons.prems(4) ps by (simp add: set_promise_def resolve_def)
  have "redis_replies vm i (pre @ enc_all (v # vs) @ part @ replicate n NUL)
      (length (pre @ enc_all (v # vs) @ part)) (length pre) st =
      redis_replies vm i (pre @ enc_all (v # vs) @ part @ replicate n NUL)
        (length (pre @ enc_all (v # vs) @ part)) (length (pre @ enc v)) ?st"
    using lt parse fmt ps st by (subst redis_replies.simps) simp
  moreover have "resolve i vs ?st = resolve i (v # vs) st"
    using resolve_append [of i st "[v]" vs] Cons.prems(4) ps by simp
  ultimately show ?case
    using Cons.IH [of "pre @ enc v" ?st] Cons.prems ps by simp
qed

lemma redis_read_buffer:
  assumes "\<forall>v \<in> set vs. encodable vm v" and "begun vm part"
    and "fits_memory (enc_all vs @ part @ replicate n NUL)"
    and "i < length (clients st)" and "length vs \<le> length (promises (clients st ! i))"
  shows "redis_read vm i (enc_all vs @ part @ replicate n NUL) (length (enc_all vs @ part)) st =
    Some (length (enc_all vs), resolve i vs st)"
  using redis_replies_buffer [of vs vm part "[]" n i st] assms by (simp add: redis_read_def)

text \<open>Whatever a buffer holds, a prefix of the promises is resolved.\<close>

lemma redis_replies_resolve:
  "redis_replies vm i buf sz pos st = Some (n, st') \<Longrightarrow> i < length (clients st) \<Longrightarrow>
   \<exists>vs. st' = resolve i vs st \<and> length vs \<le> length (promises (clients st ! i))"
proof (induction "promises (clients st ! i)" arbitrary: pos st)
  case Nil
  have "st' = st"
    using Nil.prems(1) Nil.hyps [symmetric]
    by (subst (asm) redis_replies.simps) (auto split: if_splits bind_splits outcome.splits)
  then show ?case using Nil.prems(2) by (intro exI [of _ "[]"]) simp
next
  case (Cons q qs)
  note ps = Cons.hyps(2) [symmetric]
  show ?case
  proof (cases "\<exists>v p. pos < sz \<and> parse_run vm buf None pos = Some (Returned v p)")
    case False
    then have "st' = st" using Cons.prems(1)
      by (subst (asm) redis_replies.simps) (auto split: if_splits bind_splits outcome.splits)
    then show ?thesis using Cons.prems(2) by (intro exI [of _ "[]"]) simp
  next
    case True
    then obtain v p where v: "pos < sz" "parse_run vm buf None pos = Some (Returned v p)" by blast
    have set: "set_promise q (Value v) (with_promises i qs st) = resolve i [v] st"
      using Cons.prems(2) ps by (simp add: set_promise_def resolve_def)
    have run: "redis_replies vm i buf sz p (resolve i [v] st) = Some (n, st')"
      using Cons.prems(1) v ps set by (subst (asm) redis_replies.simps) (simp split: option.splits)
    obtain vs where "st' = resolve i vs (resolve i [v] st)" "length vs \<le> length qs"
      using Cons.hyps(1) [OF _ run] Cons.prems(2) ps by auto
    with resolve_append [OF Cons.prems(2), of "[v]" vs] ps show ?thesis
      by (intro exI [of _ "v # vs"]) simp
  qed
qed

lemma parse_run_total: "bulk_len_safe data \<Longrightarrow> fits_memory data \<Longrightarrow> parse_run vm data None pos \<noteq> None"
  using parse_value_terminates [of data pos "Suc (length data - pos)" vm] parse_run_fuel_enough [of vm _ data pos]
  by (metis lessI option.distinct(1))

text \<open>A read that does not return is a call of the parser that does not return.\<close>

lemma redis_replies_hangs:
  "redis_replies vm i buf sz pos st = None \<Longrightarrow> i < length (clients st) \<Longrightarrow>
   \<exists>p < sz. parse_run vm buf None p = None"
proof (induction "promises (clients st ! i)" arbitrary: pos st)
  case Nil
  then show ?case
    by (subst (asm) redis_replies.simps) (auto split: if_splits bind_splits outcome.splits simp: Nil.hyps [symmetric])
next
  case (Cons q qs)
  note ps = Cons.hyps(2) [symmetric]
  have pos: "pos < sz"
    using Cons.prems(1) by (subst (asm) redis_replies.simps) (simp split: if_splits)
  show ?case
  proof (cases "parse_run vm buf None pos")
    case None
    with pos show ?thesis by blast
  next
    case (Some r)
    show ?thesis
    proof (cases r)
      case (Raised e)
      with Some pos Cons.prems(1) show ?thesis by (subst (asm) redis_replies.simps) simp
    next
      case (Returned v p)
      with Some obtain f where "parse_value vm f buf pos = Some (Returned v p)"
        by (auto simp: parse_run_iff)
      then obtain s where fmt: "formatResponse v 0 = Some s"
        using formatResponse_total parse_value_wt by blast
      have set: "set_promise q (Value v) (with_promises i qs st) = resolve i [v] st"
        using Cons.prems(2) ps by (simp add: set_promise_def resolve_def)
      have "redis_replies vm i buf sz p (resolve i [v] st) = None"
        using Cons.prems(1) Some Returned fmt ps set pos by (subst (asm) redis_replies.simps) simp
      from Cons.hyps(1) [OF _ this] Cons.prems(2) ps show ?thesis by simp
    qed
  qed
qed

section \<open>Replies in pieces\<close>

text \<open>Any piece of a stream of replies is some whole replies and the beginning of the next one.\<close>

lemma stream_cut:
  assumes "x @ rest = enc_all vs"
  shows "\<exists>ws ws' part. vs = ws @ ws' \<and> x = enc_all ws @ part \<and> part @ rest = enc_all ws' \<and>
    (part = [] \<or> (\<exists>v ws'' q. ws' = v # ws'' \<and> enc v = part @ q \<and> q \<noteq> []))"
  using assms
proof (induction vs arbitrary: x)
  case Nil
  then show ?case by (intro exI [of _ "[]"] exI [of _ x]) simp
next
  case (Cons v vs)
  show ?case
  proof (cases "length x < length (enc v)")
    case True
    with Cons.prems obtain q where q: "x @ q = enc v" "rest = q @ enc_all vs"
      by (auto simp: append_eq_append_conv2)
    with True have "q \<noteq> []" by auto
    with q(2) q(1) [symmetric] show ?thesis by (intro exI [of _ "[]"] exI [of _ "v # vs"] exI [of _ x]) auto
  next
    case False
    from Cons.prems obtain us where
      "x = enc v @ us \<and> us @ rest = enc_all vs \<or> x @ us = enc v \<and> rest = us @ enc_all vs"
      by (auto simp: append_eq_append_conv2)
    moreover have "us = []" if "x @ us = enc v"
      using False arg_cong [OF that, of length] by (cases us) simp_all
    ultimately obtain y where y: "x = enc v @ y" "y @ rest = enc_all vs" by (metis append_Nil append_Nil2)
    from Cons.IH [OF y(2)] obtain ws ws' part where
      "vs = ws @ ws'" "y = enc_all ws @ part" "part @ rest = enc_all ws'"
      "part = [] \<or> (\<exists>v ws'' q. ws' = v # ws'' \<and> enc v = part @ q \<and> q \<noteq> [])" by blast
    with y show ?thesis by (intro exI [of _ "v # ws"] exI [of _ ws'] exI [of _ part]) simp
  qed
qed

text \<open>Where a connection of the client stands in the stream of its replies.\<close>

definition front_of :: "string \<Rightarrow> resp_value list \<Rightarrow> bool" where
  "front_of part vs \<longleftrightarrow> part = [] \<or>
     (\<exists>v ws q. vs = v # ws \<and> enc v = part @ q \<and> q \<noteq> [] \<and> \<not> boundary v (length part))"

text \<open>The first \<open>n\<close> bytes of a stream of replies do not end between two elements of an array.\<close>

fun cut_clear :: "resp_value list \<Rightarrow> nat \<Rightarrow> bool" where
  "cut_clear [] n \<longleftrightarrow> True"
| "cut_clear (v # vs) n \<longleftrightarrow> (if n < length (enc v) then \<not> boundary v n else cut_clear vs (n - length (enc v)))"

lemma cut_clear_append: "cut_clear (vs @ ws) (length (enc_all vs) + n) \<longleftrightarrow> cut_clear ws n"
  by (induction vs) simp_all

lemma cut_clear_flat: "\<forall>v \<in> set vs. flat v \<Longrightarrow> cut_clear vs n"
  by (induction vs n rule: cut_clear.induct) (simp_all add: flat_boundary)

definition reads_replies :: "nat \<Rightarrow> nat \<Rightarrow> fd \<Rightarrow> string \<Rightarrow> client_state loop \<Rightarrow> bool" where
  "reads_replies vm i k part l \<longleftrightarrow> accept_set l k = None \<and> timer_fds l k = None \<and>
     i < length (clients (app l)) \<and>
     (\<exists>c. connections l k = Some c \<and> read_cb c = Some (read_callback vm i) \<and>
        buffer_ok (read_buffer c) \<and> unread (read_buffer c) = octets part)"

lemma front_of_length:
  assumes "front_of part vs" and "vs \<noteq> []" and "\<forall>v \<in> set vs. length (enc v) + n \<le> buffer_size"
  shows "length part + n \<le> buffer_size"
proof -
  obtain v ws where vs: "vs = v # ws" using assms(2) by (cases vs) simp_all
  have "length part \<le> length (enc v)" using assms(1) vs by (auto simp: front_of_def)
  with assms(3) vs show ?thesis by force
qed

lemma front_of_begun: "front_of part vs \<Longrightarrow> \<forall>v \<in> set vs. clean vm v \<Longrightarrow> begun vm part"
  by (auto simp: front_of_def begun_def)

text \<open>A readable event, by what the read callback does with the unconsumed and the new bytes.\<close>

lemma read_event:
  assumes r: "reads_replies vm i k part l" and "xs \<noteq> []" and room: "length part + length xs \<le> buffer_size"
    and res: "redis_read vm i (part @ chars xs @ replicate (buffer_size - (length part + length xs)) NUL)
      (length part + length xs) (app l) = Some (n, st)" and i: "i < length (clients st)"
  shows "reads_replies vm i k (drop n (part @ chars xs)) (handleRead (read_kernel xs) k l)"
    and "app (handleRead (read_kernel xs) k l) = st"
proof -
  from r obtain c where c: "accept_set l k = None" "timer_fds l k = None" "connections l k = Some c"
    "read_cb c = Some (read_callback vm i)" "buffer_ok (read_buffer c)" "unread (read_buffer c) = octets part"
    by (auto simp: reads_replies_def)
  have size: "data_size (read_buffer c) = length part" using length_unread [OF c(5)] c(6) by simp
  have k: "k_read (read_kernel xs) (buffer_size - data_size (read_buffer c)) = ReadData xs"
    using room \<open>xs \<noteq> []\<close> size by (cases xs) (auto simp: read_kernel_def)
  let ?got = "octets part @ xs"
  have "chars (?got @ replicate (buffer_size - length ?got) 0) =
      part @ chars xs @ replicate (buffer_size - (length part + length xs)) NUL" by simp
  then have cb: "read_callback vm i (?got @ replicate (buffer_size - length ?got) 0) (length ?got) (app l) = (n, st)"
    using res by (simp add: read_callback_def del: chars_simps(1))
  note data = handleRead_data [OF c(1,2,3,5) kernel_ok_read c(4) k, unfolded c(6) cb fst_conv snd_conv]
  from data(2) obtain b where b: "connections (handleRead (read_kernel xs) k l) = (connections l)(k \<mapsto> c\<lparr>read_buffer := b\<rparr>)"
    "buffer_ok b" "unread b = drop n ?got" by blast
  have "drop n ?got = octets (drop n (part @ chars xs))"
    using chars_simps(5) [of n "part @ chars xs"] by simp
  with b c data(3) i show "reads_replies vm i k (drop n (part @ chars xs)) (handleRead (read_kernel xs) k l)"
    by (simp add: reads_replies_def handleRead_accept handleRead_timers)
  show "app (handleRead (read_kernel xs) k l) = st" by (rule data(3))
qed

text \<open>Whole replies are resolved, and the beginning of the next one is kept.\<close>

lemma buffer_event:
  assumes r: "reads_replies vm i k part l" and "xs \<noteq> []" and room: "length part + length xs \<le> buffer_size"
    and split: "part @ chars xs = enc_all ws @ part'" and "\<forall>v \<in> set ws. encodable vm v" and "begun vm part'"
    and ps: "length ws \<le> length (promises (clients (app l) ! i))"
  shows "reads_replies vm i k part' (handleRead (read_kernel xs) k l)"
    and "app (handleRead (read_kernel xs) k l) = resolve i ws (app l)"
proof -
  have i: "i < length (clients (app l))" using r by (simp add: reads_replies_def)
  have len: "length part + length xs = length (enc_all ws @ part')"
    using arg_cong [OF split, of length] by simp
  have "fits_memory (enc_all ws @ part' @ replicate (buffer_size - (length part + length xs)) NUL)"
    using len room by (simp add: fits_memory_def buffer_size_def)
  from redis_read_buffer [OF assms(5,6) this i ps]
  have "redis_read vm i (part @ chars xs @ replicate (buffer_size - (length part + length xs)) NUL)
      (length part + length xs) (app l) = Some (length (enc_all ws), resolve i ws (app l))"
    using split by (simp only: append_assoc [symmetric] len)
  note e = read_event [OF r \<open>xs \<noteq> []\<close> room this]
  show "reads_replies vm i k part' (handleRead (read_kernel xs) k l)"
    using e(1) i split by (simp add: append_eq_append_conv2)
  show "app (handleRead (read_kernel xs) k l) = resolve i ws (app l)" using e(2) i by simp
qed

lemma reply_event:
  assumes r: "reads_replies vm i k part l" and "xs \<noteq> []" and stream: "part @ chars xs @ rest = enc_all vs"
    and vs: "\<forall>v \<in> set vs. clean vm v" and room: "length part + length xs \<le> buffer_size"
    and cut: "cut_clear vs (length part + length xs)" and ps: "length vs \<le> length (promises (clients (app l) ! i))"
  shows "\<exists>ws ws' part'. vs = ws @ ws' \<and> part' @ rest = enc_all ws' \<and> front_of part' ws' \<and>
    part @ chars xs = enc_all ws @ part' \<and>
    reads_replies vm i k part' (handleRead (read_kernel xs) k l) \<and>
    app (handleRead (read_kernel xs) k l) = resolve i ws (app l)"
proof -
  have "(part @ chars xs) @ rest = enc_all vs" using stream by simp
  from stream_cut [OF this] obtain ws ws' part' where
    c: "vs = ws @ ws'" "part @ chars xs = enc_all ws @ part'" "part' @ rest = enc_all ws'"
      "part' = [] \<or> (\<exists>v ws'' q. ws' = v # ws'' \<and> enc v = part' @ q \<and> q \<noteq> [])" by blast
  have "length part + length xs = length (enc_all ws) + length part'"
    using arg_cong [OF c(2), of length] by simp
  with cut c(1) have "cut_clear ws' (length part')" by (simp add: cut_clear_append)
  with c(4) have front: "front_of part' ws'" by (auto simp: front_of_def)
  have "begun vm part'" using front vs c(1) by (intro front_of_begun) auto
  moreover have "\<forall>v \<in> set ws. encodable vm v" using vs c(1) by (auto simp: clean_def)
  moreover have "length ws \<le> length (promises (clients (app l) ! i))" using ps c(1) by simp
  ultimately show ?thesis
    using buffer_event [OF r \<open>xs \<noteq> []\<close> room c(2)] c front by blast
qed

text \<open>A run of readable events, one piece of the stream each.\<close>

lemma reply_events:
  assumes "reads_replies vm i k part l" and "[] \<notin> set xss" and "part @ chars (concat xss) = enc_all vs"
    and "\<forall>v \<in> set vs. sendable vm v" and "\<forall>v \<in> set vs. \<forall>xs \<in> set xss. length (enc v) + length xs \<le> buffer_size"
    and "front_of part vs" and "length vs \<le> length (promises (clients (app l) ! i))"
  shows "app (read_pieces k xss l) = resolve i vs (app l) \<and> reads_replies vm i k [] (read_pieces k xss l)"
  using assms
proof (induction xss arbitrary: part l vs)
  case Nil
  have "vs = []"
  proof (cases vs)
    case (Cons v ws)
    with Nil.prems(4) have "3 \<le> length (enc v)" by (intro enc_length_pos [of vm]) (simp add: sendable_def clean_def)
    moreover have "part = [] \<or> length part < length (enc v)"
      using Nil.prems(6) Cons by (auto simp: front_of_def)
    ultimately show ?thesis using arg_cong [OF Nil.prems(3), of length] Cons by (auto simp: chars_def)
  qed
  with Nil show ?case by (simp add: read_pieces_def chars_def reads_replies_def)
next
  case (Cons xs xss)
  have "part @ chars xs @ chars (concat xss) = enc_all vs" using Cons.prems(3) by simp
  moreover have "xs \<noteq> []" using Cons.prems(2) by auto
  moreover have "vs \<noteq> []"
  proof
    assume "vs = []"
    with arg_cong [OF Cons.prems(3), of length] \<open>xs \<noteq> []\<close> show False by simp
  qed
  then have "length part + length xs \<le> buffer_size" using Cons.prems(5,6) by (intro front_of_length) auto
  moreover have "\<forall>v \<in> set vs. clean vm v" "cut_clear vs (length part + length xs)"
    using Cons.prems(4) by (simp_all add: sendable_def cut_clear_flat)
  ultimately obtain ws ws' part' where
    e: "vs = ws @ ws'" "part' @ chars (concat xss) = enc_all ws'" "front_of part' ws'"
      "reads_replies vm i k part' (handleRead (read_kernel xs) k l)"
      "app (handleRead (read_kernel xs) k l) = resolve i ws (app l)"
    using reply_event [OF Cons.prems(1), of xs "chars (concat xss)" vs] Cons.prems(7) by blast
  have i: "i < length (clients (app l))" using Cons.prems(1) by (simp add: reads_replies_def)
  have "length ws' \<le> length (promises (clients (app (handleRead (read_kernel xs) k l)) ! i))"
    using Cons.prems(7) e(1,5) i by simp
  with Cons.IH [OF e(4) _ e(2) _ _ e(3)] Cons.prems(2,4,5) e(1)
  have "app (read_pieces k xss (handleRead (read_kernel xs) k l)) = resolve i ws' (app (handleRead (read_kernel xs) k l)) \<and>
      reads_replies vm i k [] (read_pieces k xss (handleRead (read_kernel xs) k l))" by auto
  moreover have "resolve i ws' (resolve i ws (app l)) = resolve i vs (app l)"
    using resolve_append [OF i, of ws ws'] Cons.prems(7) e(1) by simp
  ultimately show ?case by (simp add: read_pieces_def e(5))
qed

end
