(* ===== verification/Redis_Properties.thy ===== *)
theory Redis_Properties
  imports Redis_Client Loop_Interest
begin

text \<open>
  What the Redis client promises: every promise is resolved at most once and in the order of the
  commands, and with the reply to its own command; and what happens when the server closes.
\<close>

section \<open>Commands of a connection\<close>

text \<open>The task that \<^verbatim>\<open>execute\<close> posts for a command on connection \<open>i\<close> with descriptor \<open>k\<close>.\<close>

definition command_task :: "nat \<Rightarrow> fd \<Rightarrow> nat \<times> string list \<Rightarrow> client_state task" where
  "command_task i k cmd =
     WriteOnce k (Some (write_callback i (fst cmd))) (octets (buildRESPCommand (snd cmd)))"

definition command_meta :: "nat \<Rightarrow> nat \<times> string list \<Rightarrow> client_state write_meta" where
  "command_meta i cmd =
     \<lparr>wbuffer = octets (buildRESPCommand (snd cmd)), offset = 0, callback = Some (write_callback i (fst cmd))\<rparr>"

lemma execute_args_task:
  "which = hash ((counter + 1) mod 2 ^ 64) mod length (clients st) \<Longrightarrow> \<not> highLevel (clients st ! which) \<Longrightarrow>
   rsocket (clients st ! which) = Some k \<Longrightarrow> k \<noteq> -1 \<Longrightarrow>
   execute_args hash counter p args st = (counter', r, Some c) \<Longrightarrow> api_task c = Some (k, command_task which k (p, args))"
  by (auto simp: execute_args_def execute_cmd_def command_task_def Let_def)

text \<open>Submitting commands only fills the queue.\<close>

lemma command_steps:
  assumes "connections l k = Some c" and "high_level_callback c = None"
  shows "\<exists>c'. fills k c c' l (fold exec_task (map (command_task i k) cmds) l) \<and>
    write_queue c' = write_queue c @ map (command_meta i) cmds"
proof -
  let ?ws = "map (\<lambda>cmd. (Some (write_callback i (fst cmd)), octets (buildRESPCommand (snd cmd)))) cmds"
  have "map (\<lambda>w. WriteOnce k (fst w) (snd w)) ?ws = map (command_task i k) cmds"
    and "map submitted_meta ?ws = map (command_meta i) cmds"
    by (simp_all add: command_task_def command_meta_def submitted_meta_def)
  with write_steps [OF assms, of ?ws] show ?thesis by (simp only:)
qed

text \<open>When they are written, their promises queue up.\<close>

lemma succeed_commands:
  "i < length (clients st) \<Longrightarrow>
   succeed_writes (map (command_meta i) cmds) st = with_promises i (promises (clients st ! i) @ map fst cmds) st"
  by (induction cmds arbitrary: st) (simp_all add: command_meta_def call_opt_def write_callback_def)

lemma command_bytes: "pending (map (command_meta i) cmds) = octets (concat (map (buildRESPCommand \<circ> snd) cmds))"
  by (induction cmds) (simp_all add: command_meta_def unsent_def octets_def)

lemma command_no_empty: "no_empty (map (command_meta i) cmds)"
proof -
  have "buildRESPCommand args \<noteq> []" for args
    by (simp add: buildRESPCommand_enc command_value_def)
  then show ?thesis by (auto simp: no_empty_def command_meta_def unsent_def octets_def)
qed

text \<open>Replies go to the commands they answer. Commands posted on an idle connection are written
  byte for byte and in order once the kernel accepts them, and when the server answers with one reply
  each, in whatever pieces the replies arrive, the promises are resolved with the replies to their own
  commands, in order, once each, and none is left over.\<close>

theorem pipelined_replies:
  assumes "reads_replies vm i k [] l" and "connections l k = Some c"
    and "write_queue c = []" and "high_level_callback c = None" and "low_level_callback c = None"
    and "promises (clients (app l) ! i) = []"
    and "list_all accepts kns" and "length (concat (map (buildRESPCommand \<circ> snd) cmds)) \<le> length kns"
    and "length vs = length cmds" and "\<forall>v \<in> set vs. sendable vm v"
    and "concat xss = octets (enc_all vs)" and "[] \<notin> set xss"
    and "\<forall>v \<in> set vs. \<forall>xs \<in> set xss. length (enc v) + length xs \<le> 4096"
    and "l1 = fold exec_task (map (command_task i k) cmds) l" and "l2 = write_events k kns l1"
  shows "wire l2 k = wire l k @ octets (concat (map (buildRESPCommand \<circ> snd) cmds)) \<and>
    outcomes (app (read_pieces k xss l2)) = outcomes (app l) @ zip (map fst cmds) (map Value vs) \<and>
    promises (clients (app (read_pieces k xss l2)) ! i) = []"
proof -
  have i: "i < length (clients (app l))" using assms(1) by (simp add: reads_replies_def)
  from command_steps [OF assms(2,4), of i cmds] assms(3,14) obtain c1 where
    c1: "fills k c c1 l l1" "write_queue c1 = map (command_meta i) cmds" by auto
  then have conn: "connections l1 k = Some c1" and ne: "no_empty (write_queue c1)"
    and len: "length (pending (write_queue c1)) \<le> length kns" and low: "low_level_callback c1 = None"
    using assms(5,8) by (simp_all add: fills_def same_reader_def command_no_empty command_bytes)
  from write_events_callbacks [OF assms(7) conn ne len low] obtain c2 where
    c2: "connections l2 k = Some c2" "same_reader k c1 c2 l1 l2" "app l2 = succeed_writes (write_queue c1) (app l1)"
    using assms(15) by auto
  have wire: "wire l2 k = wire l k @ octets (concat (map (buildRESPCommand \<circ> snd) cmds))"
    using write_events_progress [OF assms(7) conn ne len] c1 assms(15) by (auto simp: fills_def command_bytes)
  have app: "app l2 = with_promises i (map fst cmds) (app l)"
    using c1 c2(3) succeed_commands [OF i, of cmds] assms(6) by (simp add: fills_def)
  have "reads_replies vm i k [] l2"
    using assms(1,2) c1(1) c2(1,2) app i by (auto simp: reads_replies_def fills_def same_reader_def)
  from reply_events [OF this assms(12) _ assms(10)] assms(9,11,13) app i
  have "app (read_pieces k xss l2) = resolve i vs (app l2)"
    by (simp add: front_of_def buffer_size_def)
  with wire app i assms(9) show ?thesis by simp
qed

text \<open>A loop with one connection of the client, for the examples.\<close>

definition redis_loop :: "client_state loop" where
  "redis_loop = exec_task (RegisterRead 5 (Some (read_callback 10 0))) (new_loop (UserTask id) (new_client_state [Some 5]))"

definition redis_commands :: "(nat \<times> string list) list" where
  "redis_commands = [(1, [''PING'']), (2, [''GET'', ''a''])]"

definition redis_values :: "resp_value list" where
  "redis_values = [RESPValue SimpleString (DString ''PONG''), RESPValue Integer (DInt 7)]"

lemma redis_loop_simps:
  "connections redis_loop 5 = Some ((new_connection 5 (Some (read_callback 10 0)))\<lparr>read_registered := True\<rparr>)"
  "accept_set redis_loop k = None" "timer_fds redis_loop k = None" "app redis_loop = new_client_state [Some 5]"
  "promises (clients (new_client_state [Some 5]) ! 0) = []" "length (clients (new_client_state [Some 5])) = 1"
  by (simp_all add: redis_loop_def new_loop_def new_client_state_def doRegisterRead_def epoll_add_def put_conn_def)

lemma redis_loop_wire: "wire redis_loop k = []"
  by (simp add: redis_loop_def new_loop_def doRegisterRead_def epoll_add_def put_conn_def)

lemma redis_loop_watched: "watched 5 redis_loop"
  unfolding redis_loop_def by (rule watched_register) (simp_all add: new_loop_def)

lemma new_connection_callbacks:
  "read_cb (new_connection k cb) = cb" "high_level_callback (new_connection k cb) = None"
  "low_level_callback (new_connection k cb) = None" "write_queue (new_connection k cb) = []"
  by (simp_all add: new_connection_def)

lemma redis_loop_ready: "reads_replies 10 0 5 [] redis_loop"
  by (simp add: reads_replies_def redis_loop_simps new_connection_callbacks buffer_ok_new octets_def)

theorem pipelined_replies_witness:
  "outcomes (app (read_pieces 5 [octets ''+PO'', octets (''NG'' @ CRLF @ '':7'' @ CRLF)]
      (write_events 5 (replicate 100 (write_kernel 1)) (fold exec_task (map (command_task 0 5) redis_commands) redis_loop)))) =
    outcomes (app redis_loop) @ zip (map fst redis_commands) (map Value redis_values)"
proof -
  have "length (concat (map (buildRESPCommand \<circ> snd) redis_commands)) \<le> length (replicate 100 (write_kernel 1))"
    by (simp add: redis_commands_def buildRESPCommand_def resp_eval)
  moreover have "concat [octets ''+PO'', octets (''NG'' @ CRLF @ '':7'' @ CRLF)] = octets (enc_all redis_values)"
    by (simp add: redis_values_def resp_eval octets_def)
  moreover have "\<forall>v \<in> set redis_values. sendable 10 v"
    by (simp add: redis_values_def sendable_def clean_def flat_def resp_eval)
  moreover have "\<forall>v \<in> set redis_values. \<forall>xs \<in> set [octets ''+PO'', octets (''NG'' @ CRLF @ '':7'' @ CRLF)].
      length (enc v) + length xs \<le> 4096"
    by (simp add: redis_values_def resp_eval)
  ultimately show ?thesis
    using pipelined_replies [OF redis_loop_ready, of _ "replicate 100 (write_kernel 1)" redis_commands redis_values
        "[octets ''+PO'', octets (''NG'' @ CRLF @ '':7'' @ CRLF)]"]
    by (simp add: redis_loop_simps new_connection_callbacks list_all_iff accepts_write_kernel redis_commands_def
        redis_values_def octets_def)
qed

text \<open>C23: whatever bytes the receive buffer holds, malformed ones included, a read that returns resolves a
  prefix of the waiting promises, in queue order, once each, with values, and takes exactly these out
  of the queue; it touches no other connection and fails no promise. A read that does not return is
  stuck in a call of the parser on these bytes, and there is none when no header of the buffer asks for
  a length below -1.\<close>

theorem reads_resolve_in_order:
  assumes "i < length (clients st)"
  shows "(\<forall>n st'. redis_read vm i buf sz st = Some (n, st') \<longrightarrow>
      (\<exists>vs. length vs \<le> length (promises (clients st ! i)) \<and>
        outcomes st' = outcomes st @ zip (take (length vs) (promises (clients st ! i))) (map Value vs) \<and>
        promises (clients st' ! i) = drop (length vs) (promises (clients st ! i)) \<and>
        (\<forall>j. j \<noteq> i \<longrightarrow> clients st' ! j = clients st ! j))) \<and>
    (redis_read vm i buf sz st = None \<longrightarrow> (\<exists>p < sz. parse_run vm buf None p = None)) \<and>
    (bulk_len_safe buf \<and> fits_memory buf \<longrightarrow> redis_read vm i buf sz st \<noteq> None)"
proof (intro conjI allI impI)
  fix n st'
  assume "redis_read vm i buf sz st = Some (n, st')"
  with redis_replies_resolve assms obtain vs where
    vs: "st' = resolve i vs st" "length vs \<le> length (promises (clients st ! i))"
    unfolding redis_read_def by blast
  moreover have "zip (take (length vs) (promises (clients st ! i))) (map Value vs) =
      zip (promises (clients st ! i)) (map Value vs)"
    using zip_take_length [of "map Value vs"] vs(2) by simp
  moreover have "clients (resolve i vs st) ! j = clients st ! j" if "j \<noteq> i" for j
    using that by (simp add: resolve_def with_promises_def)
  ultimately show "\<exists>vs. length vs \<le> length (promises (clients st ! i)) \<and>
      outcomes st' = outcomes st @ zip (take (length vs) (promises (clients st ! i))) (map Value vs) \<and>
      promises (clients st' ! i) = drop (length vs) (promises (clients st ! i)) \<and>
      (\<forall>j. j \<noteq> i \<longrightarrow> clients st' ! j = clients st ! j)"
    using assms by (intro exI [of _ vs]) simp
next
  assume "redis_read vm i buf sz st = None"
  with redis_replies_hangs assms show "\<exists>p < sz. parse_run vm buf None p = None" unfolding redis_read_def by blast
next
  assume "bulk_len_safe buf \<and> fits_memory buf"
  then have "parse_run vm buf None p \<noteq> None" for p
    using parse_run_total by blast
  with redis_replies_hangs assms show "redis_read vm i buf sz st \<noteq> None" unfolding redis_read_def by blast
qed

theorem reads_resolve_in_order_witness:
  "\<exists>n st'. redis_read 10 0 ''x'' 1 (new_client_state [Some 5]) = Some (n, st') \<and>
    outcomes st' = [] \<and> promises (clients st' ! 0) = []"
proof -
  have "bulk_len_safe ''x'' \<and> fits_memory ''x''" by (simp add: resp_eval)
  with reads_resolve_in_order [of 0 "new_client_state [Some 5]" 10 "''x''" 1]
  obtain n st' where "redis_read 10 0 ''x'' 1 (new_client_state [Some 5]) = Some (n, st')"
    by (auto simp: new_client_state_def)
  with reads_resolve_in_order [of 0 "new_client_state [Some 5]" 10 "''x''" 1] show ?thesis
    by (auto simp: new_client_state_def)
qed

text \<open>C38: when the server closes a connection while nothing is being written, its promises are lost: the
  callback for the closing resolves nothing, and commands executed on the connection from then on
  are queued but neither written nor reported as failed, so that waiting for any of these promises
  does not end.\<close>

theorem promises_lost_after_close:
  assumes "reads_replies vm i k part l" and "connections l k = Some c" and "write_queue c = []"
    and "high_level_callback c = None"
    and "k_read kn (sb_size (read_buffer c) - data_size (read_buffer c)) = ReadEof"
  shows "app (fold exec_task (map (command_task i k) cmds) (handleRead kn k l)) = app l \<and>
    epoll (fold exec_task (map (command_task i k) cmds) (handleRead kn k l)) k = None \<and>
    wire (fold exec_task (map (command_task i k) cmds) (handleRead kn k l)) k = wire l k"
proof -
  have r: "accept_set l k = None" "timer_fds l k = None" "read_cb c = Some (read_callback vm i)"
    using assms(1,2) by (auto simp: reads_replies_def)
  let ?l = "handleRead kn k l" and ?c = "c\<lparr>peer_closed := True, read_registered := False, write_registered := False\<rparr>"
  have cb: "snd (read_callback vm i bs 0 st) = st" for bs st
    by (simp add: read_callback_def redis_read_def redis_replies.simps)
  have l: "connections ?l k = Some ?c" "app ?l = app l"
    using assms(2,3,5) r cb by (simp_all add: handleRead_def loop_defs Let_def)
  have "unwatched k ?l" using assms(2,3,5) r by (intro eof_unwatched)
  moreover have "list_all (leaves_alone k) (map (Task \<circ> command_task i k) cmds)"
    by (simp add: list_all_iff command_task_def)
  ultimately have "unwatched k (run_inputs (map (Task \<circ> command_task i k) cmds) ?l)"
    "wire (run_inputs (map (Task \<circ> command_task i k) cmds) ?l) k = wire ?l k" by (simp_all add: unwatched_run)
  moreover have "run_inputs (map (Task \<circ> command_task i k) cmds) m = fold exec_task (map (command_task i k) cmds) m" for m
    by (induction cmds arbitrary: m) simp_all
  moreover have "high_level_callback ?c = None" using assms(4) by simp
  from command_steps [OF l(1) this, of i cmds] have
    "app (fold exec_task (map (command_task i k) cmds) ?l) = app ?l" by (auto simp: fills_def)
  ultimately show ?thesis using l(2) by (simp add: unwatched_def)
qed

theorem promises_lost_after_close_witness:
  "app (fold exec_task (map (command_task 0 5) redis_commands) (handleRead eof_kernel 5 redis_loop)) = app redis_loop"
  using promises_lost_after_close [OF redis_loop_ready, of _ eof_kernel redis_commands]
  by (simp add: redis_loop_simps new_connection_callbacks eof_kernel_def)

end
