(* ===== verification/Redis_Session.thy ===== *)
theory Redis_Session
  imports Redis_Properties
begin

text \<open>
  The Redis client and a server under every interleaving: commands are executed, written in pieces,
  answered by the server, and the replies arrive in pieces, in any order that the two directions of the
  stream allow. Then what an array reply that is cut between two elements does to the replies behind it.
\<close>

section \<open>Client, stream and server\<close>

text \<open>
  The loop thread of one connection; the commands executed on it, with their promises; the replies
  the server has given; and the bytes of the replies that have arrived.
\<close>

record redis_run =
  cloop :: "client_state loop"
  issued :: "(nat \<times> string list) list"
  replied :: "resp_value list"
  delivered :: "byte list"

definition command_bytes_of :: "(nat \<times> string list) list \<Rightarrow> byte list" where
  "command_bytes_of cmds = octets (concat (map (buildRESPCommand \<circ> snd) cmds))"

text \<open>
  \<open>w\<close> is what the socket had taken before. The server answers a command, with any reply, once all its
  bytes are on the wire and the commands before it are answered. The client reads what fits
  into its buffer; a piece may end anywhere but between two elements of an array.
\<close>

inductive redis_step :: "nat \<Rightarrow> nat \<Rightarrow> fd \<Rightarrow> byte list \<Rightarrow> redis_run \<Rightarrow> redis_run \<Rightarrow> bool"
  for vm :: nat and i :: nat and k :: fd and w :: "byte list" where
  command: "execute_args hash counter p args (app (cloop r)) = (counter', None, Some cl) \<Longrightarrow>
    hash counter' mod length (clients (app (cloop r))) = i \<Longrightarrow> api_task cl = Some (k, t) \<Longrightarrow>
    redis_step vm i k w r (r\<lparr>cloop := exec_task t (cloop r), issued := issued r @ [(p, args)]\<rparr>)"
| flush: "kernel_ok kn \<Longrightarrow> \<forall>iovs. k_writev kn iovs \<noteq> WriteFail \<Longrightarrow>
    redis_step vm i k w r (r\<lparr>cloop := handleWrite kn k (cloop r)\<rparr>)"
| serve: "clean vm v \<Longrightarrow> length (replied r) < length (issued r) \<Longrightarrow>
    wire (cloop r) k = w @ command_bytes_of (take (Suc (length (replied r))) (issued r)) @ rest \<Longrightarrow>
    redis_step vm i k w r (r\<lparr>replied := replied r @ [v]\<rparr>)"
| receive: "xs \<noteq> [] \<Longrightarrow> delivered r @ xs @ rest = octets (enc_all (replied r)) \<Longrightarrow>
    connections (cloop r) k = Some c \<Longrightarrow> length (unread (read_buffer c)) + length xs \<le> buffer_size \<Longrightarrow>
    cut_clear (replied r) (length (delivered r) + length xs) \<Longrightarrow>
    redis_step vm i k w r (r\<lparr>cloop := handleRead (read_kernel xs) k (cloop r), delivered := delivered r @ xs\<rparr>)"

section \<open>The invariant\<close>

text \<open>
  \<open>n\<close> commands are written, of which \<open>d\<close> have been answered to their promises; \<open>part\<close> is the beginning
  of the next reply in the receive buffer.
\<close>

definition session_ok :: "nat \<Rightarrow> nat \<Rightarrow> fd \<Rightarrow> byte list \<Rightarrow> (nat \<times> reply) list \<Rightarrow> nat \<Rightarrow> nat \<Rightarrow> string \<Rightarrow> redis_run \<Rightarrow> bool" where
  "session_ok vm i k w os n d part r \<longleftrightarrow>
     reads_replies vm i k part (cloop r) \<and>
     (\<exists>c. connections (cloop r) k = Some c \<and> high_level_callback c = None \<and> low_level_callback c = None \<and>
        tidy (write_queue c) \<and>
        map submission (write_queue c) = map submission (map (command_meta i) (drop n (issued r)))) \<and>
     stream k (cloop r) = w @ command_bytes_of (issued r) \<and>
     n \<le> length (issued r) \<and> length (replied r) \<le> n \<and> d \<le> length (replied r) \<and>
     delivered r = octets (enc_all (take d (replied r)) @ part) \<and> front_of part (drop d (replied r)) \<and>
     (\<forall>v \<in> set (replied r). clean vm v) \<and>
     promises (clients (app (cloop r)) ! i) = drop d (map fst (take n (issued r))) \<and>
     outcomes (app (cloop r)) = os @ zip (map fst (take d (issued r))) (map Value (take d (replied r)))"

lemma execute_args_command:
  assumes "execute_args hash counter p args st = (counter', None, Some cl)"
    and "hash counter' mod length (clients st) = i" and "api_task cl = Some (k, t)"
  shows "t = command_task i k (p, args)"
  using assms by (auto simp: execute_args_def execute_cmd_def command_task_def Let_def split: if_splits)

lemma command_bytes_append: "command_bytes_of (xs @ ys) = command_bytes_of xs @ command_bytes_of ys"
  by (simp add: command_bytes_of_def)

lemma session_command:
  assumes s: "session_ok vm i k w os n d part r" and t: "t = command_task i k (p, args)"
  shows "session_ok vm i k w os n d part (r\<lparr>cloop := exec_task t (cloop r), issued := issued r @ [(p, args)]\<rparr>)"
proof -
  from s obtain c where c: "connections (cloop r) k = Some c" "high_level_callback c = None"
    "low_level_callback c = None" "tidy (write_queue c)"
    "map submission (write_queue c) = map submission (map (command_meta i) (drop n (issued r)))"
    by (auto simp: session_ok_def)
  from command_steps [OF c(1,2), of i "[(p, args)]"] obtain c' where
    c': "fills k c c' (cloop r) (exec_task t (cloop r))" "write_queue c' = write_queue c @ [command_meta i (p, args)]"
    by (auto simp: t)
  have "no_empty [command_meta i (p, args)]" using command_no_empty [of i "[(p, args)]"] by simp
  then have tidy: "tidy (write_queue c')"
    using c(4) c'(2) by (cases "write_queue c") (auto simp: tidy_def no_empty_def command_meta_def)
  have "stream k (exec_task t (cloop r)) = stream k (cloop r) @ command_bytes_of [(p, args)]"
    using exec_task_stream [of t "cloop r" k] c'(1) by (simp add: t fills_def command_task_def command_bytes_of_def)
  moreover have "reads_replies vm i k part (exec_task t (cloop r))"
    using s c(1) c'(1) by (auto simp: session_ok_def reads_replies_def fills_def same_reader_def)
  ultimately show ?thesis
    using s c c' tidy by (auto simp: session_ok_def fills_def same_reader_def command_bytes_append)
qed

text \<open>A writable event moves the promises of the commands it completes to the waiting ones.\<close>

lemma submission_take:
  assumes "map submission (gone @ rest) = map submission (map (command_meta i) cs)"
  shows "map submission gone = map submission (map (command_meta i) (take (length gone) cs))"
    and "map submission rest = map submission (map (command_meta i) (drop (length gone) cs))"
proof -
  have "map submission (gone @ rest) =
      map submission (map (command_meta i) (take (length gone) cs)) @
      map submission (map (command_meta i) (drop (length gone) cs))"
    unfolding assms by (simp flip: map_append)
  moreover have "length (map submission (map (command_meta i) (take (length gone) cs))) = length (map submission gone)"
    using arg_cong [OF assms, of length] by simp
  ultimately show "map submission gone = map submission (map (command_meta i) (take (length gone) cs))"
    and "map submission rest = map submission (map (command_meta i) (drop (length gone) cs))"
    by (simp_all add: append_eq_append_conv)
qed

lemma session_flush:
  assumes s: "session_ok vm i k w os n d part r" and kn: "kernel_ok kn" "\<forall>iovs. k_writev kn iovs \<noteq> WriteFail"
  shows "\<exists>n'. session_ok vm i k w os n' d part (r\<lparr>cloop := handleWrite kn k (cloop r)\<rparr>)"
proof -
  let ?l = "cloop r" and ?l' = "handleWrite kn k (cloop r)"
  from s obtain c where c: "connections ?l k = Some c" "high_level_callback c = None"
    "low_level_callback c = None" "tidy (write_queue c)"
    "map submission (write_queue c) = map submission (map (command_meta i) (drop n (issued r)))"
    by (auto simp: session_ok_def)
  from handleWrite_open [OF c(1) _ c(3)] kn(2) obtain c' gone rest where
    c': "connections ?l' k = Some c'" "same_reader k c c' ?l ?l'" "high_level_callback c' = high_level_callback c"
      "tidy (write_queue c')" "write_queue c = gone @ rest" "map submission (write_queue c') = map submission rest"
      "app ?l' = succeed_writes gone (app ?l)"
    using c(4) by blast
  note sub = submission_take [OF c(5) [unfolded c'(5)]]
  let ?n = "n + length gone"
  have i: "i < length (clients (app ?l))" using s by (simp add: session_ok_def reads_replies_def)
  have n: "n \<le> length (issued r)" using s by (simp add: session_ok_def)
  have len: "length gone \<le> length (issued r) - n" using arg_cong [OF sub(1), of length] by simp
  have P: "promises (clients (app ?l) ! i) = drop d (map fst (take n (issued r)))" and d: "d \<le> n"
    using s by (auto simp: session_ok_def)
  have "app ?l' = succeed_writes (map (command_meta i) (take (length gone) (drop n (issued r)))) (app ?l)"
    unfolding c'(7) by (rule succeed_writes_callbacks [OF submission_callbacks [OF sub(1)]])
  then have app: "app ?l' = with_promises i (drop d (map fst (take n (issued r))) @ map fst (take (length gone) (drop n (issued r)))) (app ?l)"
    using i P by (simp add: succeed_commands)
  have "map fst (take ?n (issued r)) = map fst (take n (issued r)) @ map fst (take (length gone) (drop n (issued r)))"
    by (simp add: take_add)
  then have new: "drop d (map fst (take n (issued r))) @ map fst (take (length gone) (drop n (issued r))) =
      drop d (map fst (take ?n (issued r)))"
    using d n by simp
  have facts: "promises (clients (app ?l') ! i) = drop d (map fst (take ?n (issued r)))" "outcomes (app ?l') = outcomes (app ?l)"
    unfolding app new using i by simp_all
  have "accept_set ?l k = None" using s by (simp add: session_ok_def reads_replies_def)
  then have "stream k ?l' = stream k ?l" using kn(1) c'(1) by (intro handleWrite_stream) simp_all
  moreover have "reads_replies vm i k part ?l'"
    using s c(1) c'(1,2) i by (auto simp: session_ok_def reads_replies_def same_reader_def app)
  moreover have "map submission (write_queue c') = map submission (map (command_meta i) (drop ?n (issued r)))"
    using c'(6) sub(2) by (simp add: add.commute)
  ultimately show ?thesis
    using s c'(1-4) c(2,3) len n by (intro exI [of _ ?n]) (auto simp: session_ok_def same_reader_def facts)
qed

text \<open>A command whose bytes are all on the wire has been completed.\<close>

lemma pending_fresh: "\<forall>m \<in> set q. offset m = 0 \<Longrightarrow> pending q = concat (map snd (map submission q))"
  by (induction q) (simp_all add: unsent_def submission_def)

lemma command_metas_bytes: "concat (map snd (map submission (map (command_meta i) cmds))) = command_bytes_of cmds"
  by (induction cmds) (simp_all add: submission_def command_meta_def command_bytes_of_def octets_def)

lemma session_on_wire:
  assumes s: "session_ok vm i k w os n d part r" and "m < length (issued r)"
    and wire: "wire (cloop r) k = w @ command_bytes_of (take (Suc m) (issued r)) @ rest"
  shows "m < n"
proof (rule ccontr)
  assume "\<not> m < n"
  then have n: "n \<le> m" by simp
  from s obtain c where c: "connections (cloop r) k = Some c" "tidy (write_queue c)"
    "map submission (write_queue c) = map submission (map (command_meta i) (drop n (issued r)))"
    by (auto simp: session_ok_def)
  have "drop n (issued r) \<noteq> []" using n assms(2) by simp
  then obtain e q where q: "write_queue c = e # q" using c(3) by (cases "write_queue c") simp_all
  have "map submission q = map submission (map (command_meta i) (drop (Suc n) (issued r)))"
    using c(3) q by (cases "drop n (issued r)") (simp_all add: drop_Suc drop_tl)
  then have "pending q = command_bytes_of (drop (Suc n) (issued r))"
    using c(2) q pending_fresh [of q] command_metas_bytes [of i "drop (Suc n) (issued r)"] by (simp add: tidy_def)
  moreover have "drop (Suc n) (issued r) = take (m - n) (drop (Suc n) (issued r)) @ drop (Suc m) (issued r)"
    using n append_take_drop_id [of "m - n" "drop (Suc n) (issued r)"] by (simp add: add.commute)
  ultimately have "length (pending q) \<ge> length (command_bytes_of (drop (Suc m) (issued r)))"
    by (metis command_bytes_append le_add2 length_append)
  moreover have "unsent e \<noteq> []" using c(2) q by (simp add: tidy_def no_empty_def)
  ultimately have "length (pending (write_queue c)) > length (command_bytes_of (drop (Suc m) (issued r)))"
    using q by (simp add: length_greater_0_conv [symmetric] del: length_greater_0_conv)
  moreover have "wire (cloop r) k @ pending (write_queue c) = w @ command_bytes_of (issued r)"
    using s c(1) by (simp add: session_ok_def stream_def queue_of_def)
  then have "rest @ pending (write_queue c) = command_bytes_of (drop (Suc m) (issued r))"
    unfolding wire using command_bytes_append [of "take (Suc m) (issued r)" "drop (Suc m) (issued r)"] by simp
  then have "length (pending (write_queue c)) \<le> length (command_bytes_of (drop (Suc m) (issued r)))"
    by (metis le_add2 length_append)
  ultimately show False by simp
qed

lemma session_serve:
  assumes s: "session_ok vm i k w os n d part r" and v: "clean vm v" and m: "length (replied r) < length (issued r)"
    and wire: "wire (cloop r) k = w @ command_bytes_of (take (Suc (length (replied r))) (issued r)) @ rest"
  shows "session_ok vm i k w os n d part (r\<lparr>replied := replied r @ [v]\<rparr>)"
proof -
  have "length (replied r) < n" using session_on_wire [OF s m wire] .
  moreover have "front_of part (drop d (replied r @ [v]))"
    using s by (auto simp: session_ok_def front_of_def)
  ultimately show ?thesis using s v by (auto simp: session_ok_def)
qed

lemma handleRead_wire: "wire (handleRead kn k l) = wire l"
  by (auto simp: handleRead_def handleAccept_def handleTimer_def closeConnection_def loop_defs Let_def case_prod_beta
      split: option.splits read_result.splits)

text \<open>Arriving bytes resolve the front promises with the replies they complete.\<close>

lemma session_receive:
  assumes s: "session_ok vm i k w os n d part r" and "xs \<noteq> []"
    and stream: "delivered r @ xs @ rest = octets (enc_all (replied r))"
    and c: "connections (cloop r) k = Some c" "length (unread (read_buffer c)) + length xs \<le> buffer_size"
    and cut: "cut_clear (replied r) (length (delivered r) + length xs)"
  shows "\<exists>d' part'. session_ok vm i k w os n d' part'
    (r\<lparr>cloop := handleRead (read_kernel xs) k (cloop r), delivered := delivered r @ xs\<rparr>)"
proof -
  let ?l = "cloop r" and ?l' = "handleRead (read_kernel xs) k (cloop r)"
  have rr: "reads_replies vm i k part ?l" and del: "delivered r = octets (enc_all (take d (replied r)) @ part)"
    and clean: "\<forall>v \<in> set (replied r). clean vm v" and d: "d \<le> length (replied r)" "length (replied r) \<le> n" "n \<le> length (issued r)"
    and P: "promises (clients (app ?l) ! i) = drop d (map fst (take n (issued r)))"
    and O: "outcomes (app ?l) = os @ zip (map fst (take d (issued r))) (map Value (take d (replied r)))"
    using s by (simp_all add: session_ok_def)
  have i: "i < length (clients (app ?l))" using rr by (simp add: reads_replies_def)
  have "enc_all (replied r) = enc_all (take d (replied r)) @ enc_all (drop d (replied r))"
    by (metis append_take_drop_id concat_append map_append)
  moreover have "chars (delivered r @ xs @ rest) = enc_all (replied r)" unfolding stream by simp
  then have "enc_all (take d (replied r)) @ part @ chars xs @ chars rest = enc_all (replied r)" by (simp add: del)
  ultimately have st: "part @ chars xs @ chars rest = enc_all (drop d (replied r))" by simp
  have "cut_clear (take d (replied r) @ drop d (replied r)) (length (enc_all (take d (replied r))) + (length part + length xs))"
    using cut by (simp add: del add.assoc)
  then have cut': "cut_clear (drop d (replied r)) (length part + length xs)" by (simp only: cut_clear_append)
  have room: "length part + length xs \<le> buffer_size" using rr c by (auto simp: reads_replies_def)
  have cl: "\<forall>v \<in> set (drop d (replied r)). clean vm v" using clean by (meson in_set_dropD)
  have "length (drop d (replied r)) \<le> length (promises (clients (app ?l) ! i))" using d by (simp add: P)
  from reply_event [OF rr \<open>xs \<noteq> []\<close> st cl room cut' this] obtain ws ws' part' where
    e: "drop d (replied r) = ws @ ws'" "front_of part' ws'" "part @ chars xs = enc_all ws @ part'"
      "reads_replies vm i k part' ?l'" "app ?l' = resolve i ws (app ?l)" by blast
  let ?d = "d + length ws"
  have ws: "take ?d (replied r) = take d (replied r) @ ws" "drop ?d (replied r) = ws'" "?d \<le> length (replied r)"
  proof -
    show "take ?d (replied r) = take d (replied r) @ ws" by (simp only: take_add e(1)) simp
    have "drop ?d (replied r) = drop (length ws) (drop d (replied r))" by (simp add: add.commute)
    then show "drop ?d (replied r) = ws'" by (simp only: e(1)) simp
    show "?d \<le> length (replied r)" using d arg_cong [OF e(1), of length] by simp
  qed
  have wi: "take ?d (issued r) = take d (issued r) @ take (length ws) (drop d (issued r))" by (rule take_add)
  have "min (length ws) (n - d) = length ws" using d ws(3) by simp
  then have "take (length ws) (drop d (take n (issued r))) = take (length ws) (drop d (issued r))"
    by (simp only: drop_take take_take)
  then have "take (length ws) (drop d (map fst (take n (issued r)))) = map fst (take (length ws) (drop d (issued r)))"
    by (simp only: drop_map take_map)
  moreover have "length ws \<le> length (drop d (map fst (take n (issued r))))" using d ws(3) by simp
  ultimately have "zip (drop d (map fst (take n (issued r)))) (map Value ws) =
      zip (map fst (take (length ws) (drop d (issued r)))) (map Value ws)"
    using zip_take_length [of "map Value ws" "drop d (map fst (take n (issued r)))"] by simp
  then have O': "outcomes (app ?l') = os @ zip (map fst (take ?d (issued r))) (map Value (take ?d (replied r)))"
    using d i by (simp add: e(5) O P ws(1) wi zip_append)
  have P': "promises (clients (app ?l') ! i) = drop ?d (map fst (take n (issued r)))"
    using i P by (simp add: e(5) add.commute)
  have del': "delivered r @ xs = octets (enc_all (take ?d (replied r)) @ part')"
  proof -
    have "chars (delivered r @ xs) = enc_all (take ?d (replied r)) @ part'"
      using e(3) by (simp add: del ws(1))
    then show ?thesis by (metis octets_chars)
  qed
  have acc: "accept_set ?l k = None" "timer_fds ?l k = None" using rr by (simp_all add: reads_replies_def)
  obtain f where f: "read_cb c = Some f" "buffer_ok (read_buffer c)" using rr c(1) by (auto simp: reads_replies_def)
  have "k_read (read_kernel xs) (buffer_size - data_size (read_buffer c)) = ReadData xs"
    using c(2) \<open>xs \<noteq> []\<close> length_unread [OF f(2)] by (cases xs) (auto simp: read_kernel_def)
  from handleRead_data(2) [OF acc c(1) f(2) kernel_ok_read f(1) this] obtain b where
    b: "connections ?l' = (connections ?l)(k \<mapsto> c\<lparr>read_buffer := b\<rparr>)" by blast
  have wire: "wire ?l' = wire ?l" by (rule handleRead_wire)
  show ?thesis
    using s b c(1) wire e(2,4) ws(2,3) d O' P' del'
    by (intro exI [of _ ?d] exI [of _ part']) (auto simp: session_ok_def stream_def queue_of_def)
qed

section \<open>Every run\<close>

lemma session_step:
  assumes "redis_step vm i k w r r'" and "session_ok vm i k w os n d part r"
  shows "\<exists>n d part. session_ok vm i k w os n d part r'"
  using assms
proof cases
  case command
  from session_command [OF assms(2) execute_args_command [OF command(2-4)]] command(1) show ?thesis by blast
next
  case flush
  with session_flush [OF assms(2)] show ?thesis by blast
next
  case serve
  with session_serve [OF assms(2)] show ?thesis by blast
next
  case receive
  from session_receive [OF assms(2) receive(2-6)] receive(1) show ?thesis by blast
qed

lemma session_run:
  assumes "(redis_step vm i k w)\<^sup>*\<^sup>* r r'" and "\<exists>n d part. session_ok vm i k w os n d part r"
  shows "\<exists>n d part. session_ok vm i k w os n d part r'"
  using assms by (induction rule: rtranclp_induct) (use session_step in blast)+

lemma front_of_all:
  assumes "front_of part vs" and "part = enc_all vs" and "\<forall>v \<in> set vs. clean vm v"
  shows "vs = []"
proof (cases vs)
  case (Cons v ws)
  then have "3 \<le> length (enc v)" using assms(3) by (intro enc_length_pos [of vm]) (simp add: clean_def)
  then show ?thesis using assms(1,2) Cons by (auto simp: front_of_def)
qed

lemma session_all_delivered:
  assumes s: "session_ok vm i k w os n d part r" and all: "delivered r = octets (enc_all (replied r))"
  shows "d = length (replied r)"
proof -
  have front: "front_of part (drop d (replied r))" and d: "d \<le> length (replied r)"
    and del: "delivered r = octets (enc_all (take d (replied r)) @ part)" and clean: "\<forall>v \<in> set (replied r). clean vm v"
    using s by (simp_all add: session_ok_def)
  have "enc_all (take d (replied r)) @ part = enc_all (replied r)"
    using arg_cong [OF trans [OF del [symmetric] all], of chars] by (simp only: chars_octets)
  also have "\<dots> = enc_all (take d (replied r)) @ enc_all (drop d (replied r))"
    by (metis append_take_drop_id concat_append map_append)
  finally have "part = enc_all (drop d (replied r))" by (simp only: same_append_eq)
  moreover have "\<forall>v \<in> set (drop d (replied r)). clean vm v" using clean by (meson in_set_dropD)
  ultimately have "drop d (replied r) = []" by (rule front_of_all [OF front])
  then show ?thesis using d by simp
qed

text \<open>An idle connection.\<close>

lemma session_start:
  assumes "reads_replies vm i k [] l" and "connections l k = Some c"
    and "write_queue c = []" and "high_level_callback c = None" and "low_level_callback c = None"
    and "promises (clients (app l) ! i) = []"
  shows "session_ok vm i k (wire l k) (outcomes (app l)) 0 0 [] \<lparr>cloop = l, issued = [], replied = [], delivered = []\<rparr>"
  using assms by (simp add: session_ok_def stream_def queue_of_def command_bytes_of_def front_of_def tidy_def no_empty_def octets_def)

text \<open>C1: replies go to the commands they answer, under every interleaving. Whatever commands are executed on
  an idle connection, however their bytes are cut by the kernel, whenever the server answers a command it
  has received, and in whatever pieces (none ending between two elements of an array) the replies
  arrive: the promises that have been resolved are those of the first commands, in order, once each, each
  with the reply of the server to its own command; the bytes handed to the kernel and still queued are the
  commands in order; and once every byte has arrived, every command that the server has answered has its reply.\<close>

theorem replies_matched:
  assumes "reads_replies vm i k [] l" and "connections l k = Some c"
    and "write_queue c = []" and "high_level_callback c = None" and "low_level_callback c = None"
    and "promises (clients (app l) ! i) = []"
    and "(redis_step vm i k (wire l k))\<^sup>*\<^sup>* \<lparr>cloop = l, issued = [], replied = [], delivered = []\<rparr> r"
  shows "\<exists>d \<le> length (replied r). length (replied r) \<le> length (issued r) \<and>
    outcomes (app (cloop r)) = outcomes (app l) @ zip (map fst (take d (issued r))) (map Value (take d (replied r))) \<and>
    stream k (cloop r) = wire l k @ command_bytes_of (issued r) \<and>
    (delivered r = octets (enc_all (replied r)) \<longrightarrow> d = length (replied r))"
proof -
  have "session_ok vm i k (wire l k) (outcomes (app l)) 0 0 [] \<lparr>cloop = l, issued = [], replied = [], delivered = []\<rparr>"
    by (rule session_start [OF assms(1-6)])
  then have "\<exists>n d part. session_ok vm i k (wire l k) (outcomes (app l)) n d part r"
    using session_run [OF assms(7)] by blast
  then obtain n d part where s: "session_ok vm i k (wire l k) (outcomes (app l)) n d part r" by blast
  have "delivered r = octets (enc_all (replied r)) \<longrightarrow> d = length (replied r)"
    using session_all_delivered [OF s] by blast
  moreover have "d \<le> length (replied r)" using s by (simp add: session_ok_def)
  moreover have "length (replied r) \<le> length (issued r)" "stream k (cloop r) = wire l k @ command_bytes_of (issued r)"
    "outcomes (app (cloop r)) = outcomes (app l) @ zip (map fst (take d (issued r))) (map Value (take d (replied r)))"
    using s by (simp_all add: session_ok_def)
  ultimately show ?thesis by blast
qed

text \<open>A client on one connection: a command is executed, written a byte at a time, answered, and the
  reply arrives in two pieces, while a second command waits for its answer.\<close>

lemma octets_empty: "octets s = [] \<longleftrightarrow> s = []"
  by (simp add: octets_def)

lemma flush_run: "(redis_step vm i k w)\<^sup>*\<^sup>* r (r\<lparr>cloop := write_events k (replicate m (write_kernel 1)) (cloop r)\<rparr>)"
  using flushing_run [of "redis_step vm i k w" "\<lambda>l. r\<lparr>cloop := l\<rparr>" k "cloop r" m] redis_step.flush [of _ vm i k w "r\<lparr>cloop := _\<rparr>"]
  by simp

lemma receive_run:
  assumes "\<exists>n d part. session_ok vm i k w os n d part r" and "xs \<noteq> []"
    and "delivered r @ xs @ rest = octets (enc_all (replied r))" and "length (delivered r) + length xs \<le> buffer_size"
    and "\<forall>v \<in> set (replied r). flat v"
  shows "redis_step vm i k w r (r\<lparr>cloop := handleRead (read_kernel xs) k (cloop r), delivered := delivered r @ xs\<rparr>)"
proof -
  from assms(1) obtain d part c where "connections (cloop r) k = Some c" "unread (read_buffer c) = octets part"
    "delivered r = octets (enc_all (take d (replied r)) @ part)"
    by (auto simp: session_ok_def reads_replies_def)
  then show ?thesis
    using assms(2-5) by (intro redis_step.receive [where rest = rest and c = c]) (simp_all add: cut_clear_flat octets_def)
qed

definition ping_run :: "client_state loop \<Rightarrow> redis_run" where
  "ping_run l = \<lparr>cloop = l, issued = [(1, [''PING''])], replied = [], delivered = []\<rparr>"

lemma ping_issued:
  "redis_step 10 0 5 [] \<lparr>cloop = redis_loop, issued = [], replied = [], delivered = []\<rparr>
     (ping_run (exec_task (command_task 0 5 (1, [''PING''])) redis_loop))"
  using redis_step.command [of "\<lambda>_. 0" 0 1 "[''PING'']" "\<lparr>cloop = redis_loop, issued = [], replied = [], delivered = []\<rparr>"
      1 "ApiWrite (Some 5) (Some (write_callback 0 1)) (octets (buildRESPCommand [''PING'']))" 0 5
      "command_task 0 5 (1, [''PING''])" 10 "[]"]
  by (simp add: execute_args_def execute_cmd_def redis_loop_simps new_client_state_def command_task_def ping_run_def)

lemma ping_served:
  "\<exists>l. (redis_step 10 0 5 [])\<^sup>*\<^sup>* \<lparr>cloop = redis_loop, issued = [], replied = [], delivered = []\<rparr>
     ((ping_run l)\<lparr>replied := [RESPValue SimpleString (DString ''PONG'')]\<rparr>)"
proof -
  let ?t = "command_task 0 5 (1, [''PING''])"
  let ?l1 = "exec_task ?t redis_loop"
  let ?l2 = "write_events 5 (replicate 100 (write_kernel 1)) ?l1"
  have "redis_step 10 0 5 [] \<lparr>cloop = redis_loop, issued = [], replied = [], delivered = []\<rparr> (ping_run ?l1)"
    by (rule ping_issued)
  also have "(redis_step 10 0 5 [])\<^sup>*\<^sup>* (ping_run ?l1) (ping_run ?l2)"
    using flush_run [of 10 0 5 "[]" "ping_run ?l1" 100] by (simp add: ping_run_def)
  also have "redis_step 10 0 5 [] (ping_run ?l2) ((ping_run ?l2)\<lparr>replied := [RESPValue SimpleString (DString ''PONG'')]\<rparr>)"
  proof -
    let ?c0 = "(new_connection 5 (Some (read_callback 10 0)))\<lparr>read_registered := True\<rparr>"
    have "high_level_callback ?c0 = None" by (simp add: new_connection_callbacks)
    from command_steps [OF redis_loop_simps(1) this, of 0 "[(1, [''PING''])]"]
    obtain c where c: "fills 5 ?c0 c redis_loop ?l1" "write_queue c = [command_meta 0 (1, [''PING''])]"
      by (auto simp: new_connection_callbacks)
    have "pending (write_queue c) = command_bytes_of [(1, [''PING''])]"
      using c(2) command_bytes [of 0 "[(1, [''PING''])]"] by (simp add: command_bytes_of_def)
    moreover have "length (command_bytes_of [(1, [''PING''])]) \<le> 100"
      by (simp add: command_bytes_of_def buildRESPCommand_def resp_eval)
    moreover have "no_empty (write_queue c)" using c(2) command_no_empty [of 0 "[(1, [''PING''])]"] by simp
    ultimately have "wire ?l2 5 = wire ?l1 5 @ command_bytes_of [(1, [''PING''])]"
      using write_events_progress [of "replicate 100 (write_kernel 1)" ?l1 5 c] c(1)
      by (auto simp: list_all_iff accepts_write_kernel fills_def)
    moreover have "wire ?l1 5 = []" using c(1) by (simp add: fills_def redis_loop_wire)
    ultimately show ?thesis
      using redis_step.serve [of 10 "RESPValue SimpleString (DString ''PONG'')" "ping_run ?l2" 5 "[]" "[]" 0]
      by (simp add: ping_run_def clean_def resp_eval)
  qed
  finally show ?thesis by blast
qed

theorem replies_matched_witness:
  "\<exists>r. (redis_step 10 0 5 (wire redis_loop 5))\<^sup>*\<^sup>* \<lparr>cloop = redis_loop, issued = [], replied = [], delivered = []\<rparr> r \<and>
     issued r = [(1, [''PING''])] \<and> outcomes (app (cloop r)) = [(1, Value (RESPValue SimpleString (DString ''PONG'')))]"
proof -
  let ?v = "RESPValue SimpleString (DString ''PONG'')"
  let ?r0 = "\<lparr>cloop = redis_loop, issued = [], replied = [], delivered = []\<rparr>"
  note w = redis_loop_wire [of 5]
  have ok: "session_ok 10 0 5 [] [] 0 0 [] ?r0"
    using redis_loop_ready by (simp add: session_ok_def stream_def queue_of_def command_bytes_of_def front_of_def tidy_def
        no_empty_def octets_def redis_loop_simps new_connection_callbacks w new_client_state_def)
  obtain l where l: "(redis_step 10 0 5 [])\<^sup>*\<^sup>* ?r0 ((ping_run l)\<lparr>replied := [?v]\<rparr>)" using ping_served by blast
  let ?r1 = "(ping_run l)\<lparr>replied := [?v]\<rparr>"
  define r2 where "r2 = ?r1\<lparr>cloop := handleRead (read_kernel (octets ''+PO'')) 5 l, delivered := octets ''+PO''\<rparr>"
  define r3 where "r3 = r2\<lparr>cloop := handleRead (read_kernel (octets (''NG'' @ CRLF))) 5 (cloop r2),
    delivered := octets ''+PO'' @ octets (''NG'' @ CRLF)\<rparr>"
  have all: "octets ''+PO'' @ octets (''NG'' @ CRLF) = octets (enc_all [?v])" by (simp add: octets_def resp_eval)
  have one: "redis_step 10 0 5 [] ?r1 r2"
  proof -
    have "\<exists>n d part. session_ok 10 0 5 [] [] n d part ?r1" by (rule session_run [OF l]) (use ok in blast)
    moreover have "octets ''+PO'' \<noteq> []" "length (octets ''+PO'') \<le> buffer_size"
      by (simp_all add: octets_def buffer_size_def)
    moreover have "delivered ?r1 = []" "replied ?r1 = [?v]" "cloop ?r1 = l" by (simp_all add: ping_run_def)
    ultimately show ?thesis
      using receive_run [of 10 0 5 "[]" "[]" ?r1 "octets ''+PO''" "octets (''NG'' @ CRLF)"] all
      by (simp only: r2_def append_Nil list.size add_0) (simp add: flat_def)
  qed
  have two: "redis_step 10 0 5 [] r2 r3"
  proof -
    have "(redis_step 10 0 5 [])\<^sup>*\<^sup>* ?r0 r2" using l one by (rule rtranclp.rtrancl_into_rtrancl)
    moreover have "\<exists>n d part. session_ok 10 0 5 [] [] n d part ?r0" using ok by blast
    ultimately have "\<exists>n d part. session_ok 10 0 5 [] [] n d part r2" by (rule session_run)
    moreover have "octets (''NG'' @ CRLF) \<noteq> []" by (simp only: octets_empty) simp
    moreover have "length (octets ''+PO'') + length (octets (''NG'' @ CRLF)) \<le> buffer_size"
      by (simp only: chars_simps) (simp add: buffer_size_def)
    moreover have "delivered r2 = octets ''+PO''" "replied r2 = [?v]" by (simp_all add: r2_def ping_run_def)
    ultimately show ?thesis
      using receive_run [of 10 0 5 "[]" "[]" r2 "octets (''NG'' @ CRLF)" "[]"] all
      by (simp only: r3_def append_Nil2) (simp add: flat_def)
  qed
  have run: "(redis_step 10 0 5 [])\<^sup>*\<^sup>* ?r0 r3" by (meson l one two rtranclp.rtrancl_into_rtrancl)
  have "\<exists>d \<le> length (replied r3). outcomes (app (cloop r3)) = zip (map fst (take d (issued r3))) (map Value (take d (replied r3))) \<and>
    d = length (replied r3)"
    using replies_matched [OF redis_loop_ready, of _ r3] run all
    by (simp add: redis_loop_simps new_connection_callbacks w new_client_state_def r3_def r2_def ping_run_def)
  then show ?thesis using run w by (intro exI [of _ r3]) (simp add: r3_def r2_def ping_run_def)
qed

section \<open>An array cut between two elements\<close>

text \<open>A malformed reply at the front of the buffer costs one byte and ends the callback.\<close>

lemma garbage_event:
  assumes r: "reads_replies vm i k part l" and "xs \<noteq> []" and room: "length part + length xs \<le> buffer_size"
    and e: "resp_parse vm (Suc buffer_size) (part @ chars xs @ replicate (buffer_size - (length part + length xs)) NUL) 0 = Some (Raised e)"
      "e \<noteq> Incomplete"
  shows "reads_replies vm i k (tl (part @ chars xs)) (handleRead (read_kernel xs) k l)"
    and "app (handleRead (read_kernel xs) k l) = app l"
proof -
  have i: "i < length (clients (app l))" using r by (simp add: reads_replies_def)
  let ?buf = "part @ chars xs @ replicate (buffer_size - (length part + length xs)) NUL"
  have len: "length ?buf = buffer_size" using room by simp
  obtain n where n: "length part + length xs = Suc n" using \<open>xs \<noteq> []\<close> by (cases xs) simp_all
  have "parse_run vm ?buf None 0 = Some (Raised e)"
    using e(1) by (simp add: resp_parse_def parse_run_fuel_enough)
  then have "redis_read vm i ?buf (Suc n) (app l) = Some (1, app l)"
    unfolding redis_read_def using e(2) by (subst redis_replies.simps) simp
  note ev = read_event [OF r \<open>xs \<noteq> []\<close> room this [folded n] i]
  show "reads_replies vm i k (tl (part @ chars xs)) (handleRead (read_kernel xs) k l)"
    using ev(1) by (simp only: drop_Suc One_nat_def drop_0)
  show "app (handleRead (read_kernel xs) k l) = app l" by (rule ev(2))
qed

lemma unknown_event:
  assumes "reads_replies vm i k (ch # part) l" and "xs \<noteq> []" and "Suc (length part + length xs) \<le> buffer_size"
    and "ch \<notin> set ''+-:$*''"
  shows "reads_replies vm i k (part @ chars xs) (handleRead (read_kernel xs) k l)"
    and "app (handleRead (read_kernel xs) k l) = app l"
proof -
  have "resp_parse vm (Suc buffer_size) (ch # s) 0 = Some (Raised (UnknownType ch))" for s
    using assms(4) by (simp add: resp_parse_def parse_value.simps)
  from garbage_event [OF assms(1,2) _ this [of "part @ chars xs @ replicate (buffer_size - (length (ch # part) + length xs)) NUL", folded append_Cons]]
  show "reads_replies vm i k (part @ chars xs) (handleRead (read_kernel xs) k l)"
    and "app (handleRead (read_kernel xs) k l) = app l" using assms(3) by simp_all
qed

text \<open>
  The server answers four commands; the first answer is an array of two integers. The stream is cut behind
  the first element and then behind every reply.
\<close>

definition pair_reply :: resp_value where
  "pair_reply = RESPValue Array (DArray [RESPValue Integer (DInt 1), RESPValue Integer (DInt 2)])"

definition pair_pieces :: "resp_value list \<Rightarrow> byte list list" where
  "pair_pieces ws = octets (''*2'' @ CRLF @ '':1'' @ CRLF) # octets ('':2'' @ CRLF) # map (octets \<circ> enc) ws"

lemma pair_pieces_concat: "concat (pair_pieces ws) = octets (enc_all (pair_reply # ws))"
proof -
  have "concat (map (octets \<circ> enc) ws) = octets (enc_all ws)" by (induction ws) (simp_all add: octets_def)
  moreover have "enc pair_reply = ''*2'' @ CRLF @ '':1'' @ CRLF @ '':2'' @ CRLF" by (simp add: pair_reply_def resp_eval)
  ultimately show ?thesis by (simp add: pair_pieces_def octets_def)
qed

lemma pair_cut:
  assumes "reserve_ok vm 2"
  shows "resp_parse vm (Suc buffer_size) (''*2'' @ CRLF @ '':1'' @ CRLF @ replicate (buffer_size - 8) NUL) 0 =
    Some (Raised (UnknownType NUL))"
proof -
  let ?z = "replicate (buffer_size - 8) NUL"
  have "parse_value vm (Suc buffer_size) ([] @ (''*2'' @ CRLF @ '':1'' @ CRLF) @ ?z) (length ([] :: string)) =
      Some (Raised (cut_exn (boundary pair_reply (length (''*2'' @ CRLF @ '':1'' @ CRLF))) ?z))"
    by (rule parse_value_cut [where q = "'':2'' @ CRLF"])
      (use assms in \<open>simp_all add: pair_reply_def resp_eval zeros_def list_all_iff fits_memory_def buffer_size_def reserve_ok_def\<close>)
  then show ?thesis
    by (simp add: resp_parse_def pair_reply_def cut_exn_def buffer_size_def resp_eval)
qed

text \<open>C32: an array reply cut between two elements gives every waiting command the wrong reply. The parser takes
  the zero bytes behind the first element for a malformed reply, the client skips a byte and then hands
  the elements of the array to the commands one by one: the second command gets the second element, the
  third the reply to the second, and a command that the server has not answered gets the reply to
  the one before it. When the same bytes arrive at once, every command gets its own reply.\<close>

theorem array_cut_shifts_replies:
  assumes "reads_replies vm i k [] l" and "\<forall>v \<in> set [w1, w2, w3]. sendable vm v"
    and "length (enc w1) + length (enc w2) + length (enc w3) \<le> 4000" and "reserve_ok vm 2"
    and "5 \<le> length (promises (clients (app l) ! i))"
  shows "app (read_pieces k (pair_pieces [w1, w2, w3]) l) =
      resolve i [RESPValue Integer (DInt 1), RESPValue Integer (DInt 2), w1, w2, w3] (app l) \<and>
    app (read_pieces k [concat (pair_pieces [w1, w2, w3])] l) = resolve i [pair_reply, w1, w2, w3] (app l)"
proof
  let ?p1 = "octets (''*2'' @ CRLF @ '':1'' @ CRLF)" and ?p2 = "octets ('':2'' @ CRLF)"
  let ?l1 = "handleRead (read_kernel ?p1) k l"
  let ?l2 = "handleRead (read_kernel ?p2) k ?l1"
  let ?l3 = "handleRead (read_kernel (octets (enc w1))) k ?l2"
  let ?l4 = "handleRead (read_kernel (octets (enc w2))) k ?l3"
  let ?l5 = "handleRead (read_kernel (octets (enc w3))) k ?l4"
  have enc: "\<forall>v \<in> set [w1, w2, w3]. encodable vm v" using assms(2) by (auto simp: sendable_def clean_def)
  then have "\<forall>v \<in> set [w1, w2, w3]. 3 \<le> length (enc v)" by (meson enc_length_pos)
  then have ne: "octets (enc w1) \<noteq> []" "octets (enc w2) \<noteq> []" "octets (enc w3) \<noteq> []" by (auto simp: octets_empty)
  have room: "length (enc w1) + length (enc w2) + length (enc w3) + 96 \<le> buffer_size" using assms(3) by (simp add: buffer_size_def)
  have r1: "reads_replies vm i k (''2'' @ CRLF @ '':1'' @ CRLF) ?l1" "app ?l1 = app l"
    using garbage_event [OF assms(1), of ?p1 "UnknownType NUL"] pair_cut [OF assms(4)]
    by (simp_all add: octets_empty buffer_size_def del: chars_simps(4))
  have r2: "reads_replies vm i k (CRLF @ '':1'' @ CRLF @ '':2'' @ CRLF) ?l2" "app ?l2 = app l"
    using unknown_event [of vm i k "CHR ''2''" "CRLF @ '':1'' @ CRLF" ?l1 ?p2] r1
    by (simp_all add: octets_empty buffer_size_def del: chars_simps(4))
  have r3: "reads_replies vm i k (LF # '':1'' @ CRLF @ '':2'' @ CRLF @ enc w1) ?l3" "app ?l3 = app l"
    using unknown_event [of vm i k CR "LF # '':1'' @ CRLF @ '':2'' @ CRLF" ?l2 "octets (enc w1)"] r2 ne room
    by simp_all
  have r4: "reads_replies vm i k ('':1'' @ CRLF @ '':2'' @ CRLF @ enc w1 @ enc w2) ?l4" "app ?l4 = app l"
    using unknown_event [of vm i k LF "'':1'' @ CRLF @ '':2'' @ CRLF @ enc w1" ?l3 "octets (enc w2)"] r3 ne room
    by simp_all
  have "app ?l5 = resolve i [RESPValue Integer (DInt 1), RESPValue Integer (DInt 2), w1, w2, w3] (app ?l4)"
    by (rule buffer_event(2) [OF r4(1) ne(3), of "[RESPValue Integer (DInt 1), RESPValue Integer (DInt 2), w1, w2, w3]" "[]"])
      (use enc room assms(5) r4(2) in \<open>simp_all add: resp_eval begun_def\<close>)
  then show "app (read_pieces k (pair_pieces [w1, w2, w3]) l) =
      resolve i [RESPValue Integer (DInt 1), RESPValue Integer (DInt 2), w1, w2, w3] (app l)"
    using r4(2) by (simp add: read_pieces_def pair_pieces_def)
  have "app (handleRead (read_kernel (octets (enc_all [pair_reply, w1, w2, w3]))) k l) = resolve i [pair_reply, w1, w2, w3] (app l)"
    by (rule buffer_event(2) [OF assms(1), of _ _ "[]"])
      (use enc room assms(4,5) in \<open>simp_all add: resp_eval begun_def pair_reply_def octets_empty\<close>)
  then show "app (read_pieces k [concat (pair_pieces [w1, w2, w3])] l) = resolve i [pair_reply, w1, w2, w3] (app l)"
    unfolding pair_pieces_concat by (simp add: read_pieces_def)
qed

definition waiting_loop :: "client_state loop" where
  "waiting_loop = redis_loop\<lparr>app := with_promises 0 [1, 2, 3, 4, 5] (new_client_state [Some 5])\<rparr>"

theorem array_cut_shifts_replies_witness:
  "outcomes (app (read_pieces 5 (pair_pieces [RESPValue Integer (DInt 10), RESPValue Integer (DInt 20), RESPValue Integer (DInt 30)]) waiting_loop)) =
    [(1, Value (RESPValue Integer (DInt 1))), (2, Value (RESPValue Integer (DInt 2))), (3, Value (RESPValue Integer (DInt 10))),
     (4, Value (RESPValue Integer (DInt 20))), (5, Value (RESPValue Integer (DInt 30)))] \<and>
   promises (clients (app waiting_loop) ! 0) = [1, 2, 3, 4, 5]"
proof -
  have p: "promises (clients (app waiting_loop) ! 0) = [1, 2, 3, 4, 5]" "outcomes (app waiting_loop) = []"
    "length (clients (app waiting_loop)) = 1"
    by (simp_all add: waiting_loop_def new_client_state_def)
  have r: "reads_replies 10 0 5 [] waiting_loop"
    using redis_loop_ready p(3) by (simp add: reads_replies_def waiting_loop_def)
  have "\<forall>v \<in> set [RESPValue Integer (DInt 10), RESPValue Integer (DInt 20), RESPValue Integer (DInt 30)]. sendable 10 v"
    by (simp add: sendable_def clean_def flat_def resp_eval)
  from array_cut_shifts_replies [OF r this] p show ?thesis
    by (simp add: resp_eval del: length_greater_0_conv)
qed

end
