(* ===== verification/Redis_Liveness.thy ===== *)
theory Redis_Liveness
  imports Redis_Session
begin

text \<open>
  A session of the Redis client can always be completed: from wherever the client, the kernel and the server
  have got to, the commands are written, answered and their promises resolved.
\<close>

section \<open>The steps that complete a session\<close>

text \<open>
  The steps of a session without another command, and with those events alone that epoll reports: the loop
  writes when it has asked for writing, and reads when it has asked for reading.
\<close>

inductive redis_own_step :: "nat \<Rightarrow> nat \<Rightarrow> fd \<Rightarrow> byte list \<Rightarrow> redis_run \<Rightarrow> redis_run \<Rightarrow> bool"
  for vm :: nat and i :: nat and k :: fd and w :: "byte list" where
  flush: "epoll (cloop r) k = Some (b, True) \<Longrightarrow> kernel_ok kn \<Longrightarrow> \<forall>iovs. k_writev kn iovs \<noteq> WriteFail \<Longrightarrow>
    redis_own_step vm i k w r (r\<lparr>cloop := handleWrite kn k (cloop r)\<rparr>)"
| serve: "clean vm v \<Longrightarrow> length (replied r) < length (issued r) \<Longrightarrow>
    wire (cloop r) k = w @ command_bytes_of (take (Suc (length (replied r))) (issued r)) @ rest \<Longrightarrow>
    redis_own_step vm i k w r (r\<lparr>replied := replied r @ [v]\<rparr>)"
| receive: "epoll (cloop r) k = Some (True, b) \<Longrightarrow> xs \<noteq> [] \<Longrightarrow> delivered r @ xs @ rest = octets (enc_all (replied r)) \<Longrightarrow>
    connections (cloop r) k = Some c \<Longrightarrow> length (unread (read_buffer c)) + length xs \<le> buffer_size \<Longrightarrow>
    cut_clear (replied r) (length (delivered r) + length xs) \<Longrightarrow>
    redis_own_step vm i k w r (r\<lparr>cloop := handleRead (read_kernel xs) k (cloop r), delivered := delivered r @ xs\<rparr>)"

lemma own_redis_step: "redis_own_step vm i k w r r' \<Longrightarrow> redis_step vm i k w r r'"
  by (induction rule: redis_own_step.induct) (auto intro: redis_step.intros)

lemma own_redis_steps: "(redis_own_step vm i k w)\<^sup>*\<^sup>* r r' \<Longrightarrow> (redis_step vm i k w)\<^sup>*\<^sup>* r r'"
  by (induction rule: rtranclp_induct) (auto intro: own_redis_step rtranclp.rtrancl_into_rtrancl)

text \<open>A session in order, on a connection that is watched.\<close>

definition session_live :: "nat \<Rightarrow> nat \<Rightarrow> fd \<Rightarrow> byte list \<Rightarrow> (nat \<times> reply) list \<Rightarrow> redis_run \<Rightarrow> bool" where
  "session_live vm i k w os r \<longleftrightarrow> (\<exists>n d part. session_ok vm i k w os n d part r) \<and> watched k (cloop r)"

lemma session_live_step:
  assumes "redis_step vm i k w r r'" and "session_live vm i k w os r"
  shows "session_live vm i k w os r'"
proof -
  have "\<exists>n d part. session_ok vm i k w os n d part r'"
    using session_run [OF r_into_rtranclp [of "redis_step vm i k w", OF assms(1)]] assms(2) by (simp add: session_live_def)
  moreover have "watched k (cloop r')"
    using assms
  proof cases
    case (command hash counter p args counter' cl t)
    with assms(2) show ?thesis
      using execute_args_command [OF command(2-4)] by (simp add: session_live_def command_task_def watched_once del: exec_task.simps)
  next
    case (receive xs rest c)
    from assms(2) obtain d where d: "connections (cloop r) k = Some d" "buffer_ok (read_buffer d)"
      by (auto simp: session_live_def session_ok_def reads_replies_def)
    then have "k_read (read_kernel xs) (sb_size (read_buffer d) - data_size (read_buffer d)) = ReadData xs"
      using receive(2,4,5) length_unread [OF d(2)] by (cases xs) (auto simp: read_kernel_def buffer_ok_def)
    with assms(2) d(1) receive(1) show ?thesis by (auto simp: session_live_def intro: watched_read)
  qed (use assms(2) in \<open>simp_all add: session_live_def watched_write\<close>)
  ultimately show ?thesis by (simp add: session_live_def)
qed

lemma session_live_run: "(redis_step vm i k w)\<^sup>*\<^sup>* r r' \<Longrightarrow> session_live vm i k w os r \<Longrightarrow> session_live vm i k w os r'"
  by (induction rule: rtranclp_induct) (auto intro: session_live_step)

section \<open>Writing, answering, receiving\<close>

text \<open>All commands go to the wire.\<close>

lemma write_all:
  assumes "session_live vm i k w os r"
  shows "\<exists>l. (redis_own_step vm i k w)\<^sup>*\<^sup>* r (r\<lparr>cloop := l\<rparr>) \<and> wire l k = w @ command_bytes_of (issued r)"
proof -
  from assms obtain c where c: "watched k (cloop r)" "connections (cloop r) k = Some c" "no_empty (write_queue c)"
    "stream k (cloop r) = w @ command_bytes_of (issued r)" by (auto simp: session_live_def session_ok_def tidy_def)
  have "redis_own_step vm i k w (r\<lparr>cloop := l\<rparr>) (r\<lparr>cloop := handleWrite kn k l\<rparr>)"
    if "kernel_ok kn" "\<forall>iovs. k_writev kn iovs \<noteq> WriteFail" "\<exists>b. epoll l k = Some (b, True)" for l kn
    using redis_own_step.flush [of "r\<lparr>cloop := l\<rparr>" k _ kn vm i w] that by auto
  from queue_flushed [of k "redis_own_step vm i k w" "\<lambda>l. r\<lparr>cloop := l\<rparr>", OF this c(1-3)] c(4) show ?thesis by auto
qed

text \<open>The server answers one command after the other.\<close>

lemma serve_all:
  assumes "wire (cloop r) k = w @ command_bytes_of (issued r)" and "\<forall>v \<in> set vs. clean vm v"
    and "length (replied r) + length vs \<le> length (issued r)"
  shows "(redis_own_step vm i k w)\<^sup>*\<^sup>* r (r\<lparr>replied := replied r @ vs\<rparr>)"
  using assms
proof (induction vs arbitrary: r)
  case (Cons v vs)
  let ?n = "Suc (length (replied r))"
  have "command_bytes_of (issued r) = command_bytes_of (take ?n (issued r)) @ command_bytes_of (drop ?n (issued r))"
    using command_bytes_append [of "take ?n (issued r)" "drop ?n (issued r)"] by simp
  with Cons.prems have "redis_own_step vm i k w r (r\<lparr>replied := replied r @ [v]\<rparr>)"
    by (intro redis_own_step.serve [where rest = "command_bytes_of (drop ?n (issued r))"]) simp_all
  moreover have "(redis_own_step vm i k w)\<^sup>*\<^sup>* (r\<lparr>replied := replied r @ [v]\<rparr>) (r\<lparr>replied := replied r @ v # vs\<rparr>)"
    using Cons.IH [of "r\<lparr>replied := replied r @ [v]\<rparr>"] Cons.prems by simp
  ultimately show ?case by (rule converse_rtranclp_into_rtranclp)
qed simp

lemma boundary_zero [simp]: "\<not> boundary v 0"
  by (cases "(v, 0 :: nat)" rule: boundary.cases) (simp_all add: Let_def)

text \<open>The rest of the next reply, which completes it and fits into the receive buffer.\<close>

lemma next_piece:
  assumes s: "session_ok vm i k w os n d part r" and "d < length (replied r)"
    and fits: "\<forall>v \<in> set (replied r). length (enc v) \<le> buffer_size"
  obtains xs rest where "xs \<noteq> []" and "delivered r @ xs @ rest = octets (enc_all (replied r))"
    and "length part + length xs \<le> buffer_size" and "cut_clear (replied r) (length (delivered r) + length xs)"
proof -
  obtain v ws where v: "drop d (replied r) = v # ws" using assms(2) by (cases "drop d (replied r)") simp_all
  then have mem: "v \<in> set (replied r)" "set ws \<subseteq> set (replied r)" using set_drop_subset [of d "replied r"] by auto
  have clean: "\<forall>v \<in> set (replied r). clean vm v" and front: "front_of part (v # ws)"
    and del: "delivered r = octets (enc_all (take d (replied r)) @ part)"
    using s v by (simp_all add: session_ok_def)
  have pos: "0 < length (enc u)" if "u \<in> set (replied r)" for u
    using that clean enc_length_pos [of vm u] by (auto simp: clean_def)
  obtain q where q: "enc v = part @ q" "q \<noteq> []" using front pos [OF mem(1)] by (auto simp: front_of_def)
  have split: "replied r = take (Suc d) (replied r) @ ws"
    by (metis append_take_drop_id drop_Suc_Cons v)
  have take: "take (Suc d) (replied r) = take d (replied r) @ [v]"
    using v assms(2) by (metis append_eq_append_conv append_take_drop_id length_append_singleton length_drop take_add take_Suc_Cons take0 Suc_eq_plus1 One_nat_def)
  show thesis
  proof (rule that [of "octets q" "octets (enc_all ws)"])
    show "octets q \<noteq> []" using q(2) by (simp add: octets_def)
    show "delivered r @ octets q @ octets (enc_all ws) = octets (enc_all (replied r))"
      by (subst split, unfold take) (simp add: del q(1) octets_def)
    show "length part + length (octets q) \<le> buffer_size" using fits mem(1) q(1) by (force simp: octets_def)
    have "length (delivered r) + length (octets q) = length (enc_all (take (Suc d) (replied r))) + 0"
      unfolding take by (simp add: del q(1) octets_def)
    moreover have "cut_clear ws 0"
      using pos mem(2) by (cases ws) auto
    ultimately show "cut_clear (replied r) (length (delivered r) + length (octets q))"
      using cut_clear_append [of "take (Suc d) (replied r)" ws 0] split by simp
  qed
qed

text \<open>The replies arrive, one after the other.\<close>

lemma receive_all:
  assumes "session_live vm i k w os r"
    and "\<forall>v \<in> set (replied r). length (enc v) \<le> buffer_size"
  shows "\<exists>l. (redis_own_step vm i k w)\<^sup>*\<^sup>* r (r\<lparr>cloop := l, delivered := octets (enc_all (replied r))\<rparr>)"
  using assms
proof (induction "length (octets (enc_all (replied r))) - length (delivered r)" arbitrary: r rule: less_induct)
  case less
  from less.prems(1) obtain n d part where s: "session_ok vm i k w os n d part r"
    by (auto simp: session_live_def)
  show ?case
  proof (cases "d < length (replied r)")
    case False
    with s have "delivered r = octets (enc_all (replied r))" by (auto simp: session_ok_def front_of_def octets_def)
    then have "r\<lparr>cloop := cloop r, delivered := octets (enc_all (replied r))\<rparr> = r" by simp
    then show ?thesis by (metis rtranclp.rtrancl_refl)
  next
    case True
    from next_piece [OF s True less.prems(2)] obtain xs rest where xs: "xs \<noteq> []"
      "delivered r @ xs @ rest = octets (enc_all (replied r))" "length part + length xs \<le> buffer_size"
      "cut_clear (replied r) (length (delivered r) + length xs)" by blast
    let ?r = "r\<lparr>cloop := handleRead (read_kernel xs) k (cloop r), delivered := delivered r @ xs\<rparr>"
    from s obtain c where c: "connections (cloop r) k = Some c" "unread (read_buffer c) = octets part"
      by (auto simp: session_ok_def reads_replies_def)
    have "epoll (cloop r) k = Some (True, queue_of k (cloop r) \<noteq> [])"
      using less.prems(1) watched_interest by (auto simp: session_live_def)
    then have step: "redis_own_step vm i k w r ?r"
      using xs c by (intro redis_own_step.receive [where rest = rest and c = c]) (simp_all add: octets_def)
    have ok: "session_live vm i k w os ?r"
      using session_live_step [OF own_redis_step [OF step] less.prems(1)] .
    have "c - (a + b) < c - a" if "a + b \<le> c" "0 < b" for a b c :: nat
      using that by simp
    from this [of "length (delivered r)" "length xs" "length (octets (enc_all (replied r)))"]
    have "length (octets (enc_all (replied ?r))) - length (delivered ?r) < length (octets (enc_all (replied r))) - length (delivered r)"
      using arg_cong [OF xs(2), of length] xs(1) by simp
    from less.hyps [OF this ok] less.prems(2) obtain l where
      "(redis_own_step vm i k w)\<^sup>*\<^sup>* ?r (r\<lparr>cloop := l, delivered := octets (enc_all (replied r))\<rparr>)" by auto
    with step show ?thesis by (meson converse_rtranclp_into_rtranclp)
  qed
qed

section \<open>Every command gets its reply\<close>

text \<open>C3: a session can always be completed. From wherever commands, writable events, the server and arriving
  pieces have led to, with whatever replies the server gives to the commands it has not answered yet, and
  without another command: the client writes what is queued, the server answers, the replies arrive, and
  the promise of every command has been resolved with the reply to that command, in order and once. The
  loop writes and reads only when epoll watches the connection for it. The provisos are those of the
  code: the connection stays open and no write fails, every reply fits into the receive buffer of 4096
  bytes, and no piece that is received ends between two elements of an array.\<close>

theorem replies_come:
  assumes "reads_replies vm i k [] l" and "watched k l" and "connections l k = Some c"
    and "write_queue c = []" and "high_level_callback c = None" and "low_level_callback c = None"
    and "promises (clients (app l) ! i) = []"
    and "(redis_step vm i k (wire l k))\<^sup>*\<^sup>* \<lparr>cloop = l, issued = [], replied = [], delivered = []\<rparr> r"
    and "length (replied r) + length vs = length (issued r)" and "\<forall>v \<in> set vs. clean vm v"
    and "\<forall>v \<in> set (replied r @ vs). length (enc v) \<le> buffer_size"
  shows "\<exists>r'. (redis_own_step vm i k (wire l k))\<^sup>*\<^sup>* r r' \<and> issued r' = issued r \<and> replied r' = replied r @ vs \<and>
    outcomes (app (cloop r')) = outcomes (app l) @ zip (map fst (issued r)) (map Value (replied r @ vs))"
proof -
  let ?step = "redis_own_step vm i k (wire l k)" and ?ok = "session_live vm i k (wire l k) (outcomes (app l))"
  have "?ok \<lparr>cloop = l, issued = [], replied = [], delivered = []\<rparr>"
    using session_start [OF assms(1,3-7)] assms(2) by (auto simp: session_live_def)
  then have ok: "?ok r" by (rule session_live_run [OF assms(8)])
  from write_all [OF ok] obtain l1 where
    l1: "?step\<^sup>*\<^sup>* r (r\<lparr>cloop := l1\<rparr>)" "wire l1 k = wire l k @ command_bytes_of (issued r)" by blast
  let ?r = "r\<lparr>cloop := l1, replied := replied r @ vs\<rparr>"
  have served: "?step\<^sup>*\<^sup>* r ?r"
    using rtranclp_trans [OF l1(1) serve_all [of "r\<lparr>cloop := l1\<rparr>" k "wire l k" vs vm i]] l1(2) assms(9,10) by simp
  from session_live_run [OF own_redis_steps [OF this] ok] have "?ok ?r" .
  from receive_all [OF this] assms(11) obtain l2 where
    "?step\<^sup>*\<^sup>* ?r (?r\<lparr>cloop := l2, delivered := octets (enc_all (replied r @ vs))\<rparr>)" by auto
  with served have run: "?step\<^sup>*\<^sup>* r (?r\<lparr>cloop := l2, delivered := octets (enc_all (replied r @ vs))\<rparr>)"
    by (rule rtranclp_trans)
  from session_live_run [OF own_redis_steps [OF run] ok] obtain n d part where
    s: "session_ok vm i k (wire l k) (outcomes (app l)) n d part (?r\<lparr>cloop := l2, delivered := octets (enc_all (replied r @ vs))\<rparr>)"
    by (auto simp: session_live_def)
  from session_all_delivered [OF s] s assms(9)
  have "outcomes (app l2) = outcomes (app l) @ zip (map fst (issued r)) (map Value (replied r @ vs))"
    by (simp add: session_ok_def)
  with run show ?thesis
    by (intro exI [of _ "?r\<lparr>cloop := l2, delivered := octets (enc_all (replied r @ vs))\<rparr>"]) simp
qed

theorem replies_come_witness:
  "\<exists>r. (redis_own_step 10 0 5 (wire redis_loop 5))\<^sup>*\<^sup>* (ping_run (exec_task (command_task 0 5 (1, [''PING''])) redis_loop)) r \<and>
     outcomes (app (cloop r)) = [(1, Value (RESPValue SimpleString (DString ''PONG'')))]"
  using replies_come [OF redis_loop_ready redis_loop_watched, of _ "ping_run (exec_task (command_task 0 5 (1, [''PING''])) redis_loop)"
      "[RESPValue SimpleString (DString ''PONG'')]"] r_into_rtranclp [of "redis_step 10 0 5 []", OF ping_issued]
  by (simp add: redis_loop_simps new_connection_callbacks redis_loop_wire new_client_state_def ping_run_def clean_def resp_eval buffer_size_def)
    blast

end
