(* ===== verification/Redis_Batch.thy ===== *)
theory Redis_Batch
  imports Redis_Client
begin

text \<open>
  \<^verbatim>\<open>execute1\<close> of \<^verbatim>\<open>src/app/redis/SimpleRedisClient.cpp\<close>: the variant of
  \<^verbatim>\<open>execute\<close> that collects commands on the loop thread and writes them in batches, at once when
  a thousand are waiting, otherwise when a timer of ten milliseconds is set up and again when it fires.

  A task of the loop thread is a function on the client's state that also yields the calls it
  makes to the socket.
\<close>

section \<open>The functions\<close>

definition WRITE_BATCH_SIZE :: nat where
  "WRITE_BATCH_SIZE = 1000"

definition with_conn :: "nat \<Rightarrow> (redis_connection \<Rightarrow> redis_connection) \<Rightarrow> client_state \<Rightarrow> client_state" where
  "with_conn i f st = st\<lparr>clients := (clients st)[i := f (clients st ! i)]\<rparr>"

text \<open>The callback of a batch takes the promise at the front, whatever index it is called with.\<close>

definition batch_write_callback :: "nat \<Rightarrow> client_state batch_cb" where
  "batch_write_callback i success index st =
     (let promise = hd (writing_promises (clients st ! i));
          st = with_conn i (\<lambda>c. c\<lparr>writing_promises := tl (writing_promises c)\<rparr>) st in
      if \<not> success then set_promise promise (Exception ''write error'') st
      else with_conn i (\<lambda>c. c\<lparr>promises := promises c @ [promise]\<rparr>) st)"

definition flush_commands :: "nat \<Rightarrow> client_state \<Rightarrow> client_state \<times> client_state api list" where
  "flush_commands i st =
     (if writing_cmds (clients st ! i) \<noteq> []
      then (with_conn i (\<lambda>c. c\<lparr>writing_cmds := []\<rparr>) st,
            [ApiBatch (rsocket (clients st ! i)) (batch_write_callback i) (writing_cmds (clients st ! i))])
      else (st, []))"

text \<open>The task of one command; \<open>timer_ok\<close> is whether \<^verbatim>\<open>addTimer\<close> returns a descriptor.\<close>

definition execute1_task :: "nat \<Rightarrow> nat \<Rightarrow> byte list \<Rightarrow> bool \<Rightarrow> client_state \<Rightarrow> client_state \<times> client_state api list" where
  "execute1_task i p args timer_ok st =
     (let st = with_conn i (\<lambda>c. c\<lparr>writing_cmds := writing_cmds c @ [args],
                 writing_promises := writing_promises c @ [p]\<rparr>) st in
      if length (writing_cmds (clients st ! i)) \<ge> WRITE_BATCH_SIZE then flush_commands i st
      else if \<not> flush_time (clients st ! i) then
        if timer_ok then flush_commands i (with_conn i (\<lambda>c. c\<lparr>flush_time := True\<rparr>) st)
        else (st, [])
      else (st, []))"

definition flush_timer :: "nat \<Rightarrow> client_state \<Rightarrow> client_state \<times> client_state api list" where
  "flush_timer i st =
     (case flush_commands i st of (st, calls) \<Rightarrow> (with_conn i (\<lambda>c. c\<lparr>flush_time := False\<rparr>) st, calls))"

text \<open>The calling thread: the new counter, and either a promise that has failed at once or the
  connection the task is posted for.\<close>

definition execute1 :: "(nat \<Rightarrow> nat) \<Rightarrow> nat \<Rightarrow> nat \<Rightarrow> client_state \<Rightarrow> nat \<times> (nat \<times> reply) option \<times> nat option" where
  "execute1 hash counter p st =
     (let counter = (counter + 1) mod 2 ^ 64;
          which_sock = hash counter mod length (clients st) in
      if highLevel (clients st ! which_sock)
      then (counter, Some (p, Exception ''to many bytes to write''), None)
      else (counter, None, Some which_sock))"

section \<open>Runs of a connection\<close>

text \<open>
  A run of the loop thread on one connection: a command, a timer, or the completion of the write that
  is at the front. The state carries the commands that are in flight, that is handed to
  \<^verbatim>\<open>asyncWriteBatch\<close> and not completed.
\<close>

datatype batch_event = Command nat "byte list" bool | Timer | Completed bool

fun batch_bytes :: "client_state api \<Rightarrow> byte list list" where
  "batch_bytes (ApiBatch s cbs bufs) = bufs"
| "batch_bytes c = []"

fun batch_step :: "nat \<Rightarrow> batch_event \<Rightarrow> client_state \<times> byte list list \<Rightarrow> client_state \<times> byte list list" where
  "batch_step i (Command p args timer_ok) (st, flight) =
     (case execute1_task i p args timer_ok st of (st, cs) \<Rightarrow> (st, flight @ concat (map batch_bytes cs)))"
| "batch_step i Timer (st, flight) =
     (case flush_timer i st of (st, cs) \<Rightarrow> (st, flight @ concat (map batch_bytes cs)))"
| "batch_step i (Completed success) (st, flight) =
     (case flight of [] \<Rightarrow> (st, []) | c # cs \<Rightarrow> (batch_write_callback i success 0 st, cs))"

text \<open>Every command is either completed, in flight or collected, in this order.\<close>

definition batch_inv :: "nat \<Rightarrow> (nat \<times> byte list) list \<Rightarrow> client_state \<times> byte list list \<Rightarrow> bool" where
  "batch_inv i cmds s \<longleftrightarrow> (case s of (st, flight) \<Rightarrow>
     i < length (clients st) \<and>
     writing_promises (clients st ! i) = map fst cmds \<and>
     flight @ writing_cmds (clients st ! i) = map snd cmds)"

lemma with_conn_simps [simp]:
  "i < length (clients st) \<Longrightarrow> clients (with_conn i f st) ! i = f (clients st ! i)"
  "length (clients (with_conn i f st)) = length (clients st)"
  "outcomes (with_conn i f st) = outcomes st"
  by (simp_all add: with_conn_def)

lemma batch_inv_command:
  "batch_inv i cmds (st, flight) \<Longrightarrow> batch_inv i (cmds @ [(p, args)]) (batch_step i (Command p args ok) (st, flight))"
  by (simp add: batch_inv_def execute1_task_def flush_commands_def Let_def)

lemma batch_inv_timer: "batch_inv i cmds (st, flight) \<Longrightarrow> batch_inv i cmds (batch_step i Timer (st, flight))"
  by (auto simp: batch_inv_def flush_timer_def flush_commands_def)

lemma set_promise_clients [simp]: "clients (set_promise p r st) = clients st"
  by (simp add: set_promise_def)

lemma batch_inv_completed:
  assumes "batch_inv i cmds (st, flight)" and "flight \<noteq> []"
  shows "batch_inv i (tl cmds) (batch_step i (Completed ok) (st, flight))"
  using assms by (cases cmds; cases flight) (auto simp: batch_inv_def batch_write_callback_def Let_def)

text \<open>The completion of a write takes the promise of its own command: to the queue of those that wait for
  a reply, or it fails.\<close>

lemma batch_completion_matches:
  assumes "batch_inv i ((p, args) # cmds) (st, flight)" and "flight \<noteq> []"
  shows "hd flight = args"
    and "promises (clients (fst (batch_step i (Completed True) (st, flight))) ! i) = promises (clients st ! i) @ [p]"
    and "outcomes (fst (batch_step i (Completed False) (st, flight))) = outcomes st @ [(p, Exception ''write error'')]"
  using assms
  by (cases flight; simp add: batch_inv_def batch_write_callback_def Let_def set_promise_def)+

section \<open>Order of the promises\<close>

text \<open>The commands of a run and the results of its completions; a completion needs a write in flight.\<close>

fun batch_commands :: "batch_event list \<Rightarrow> (nat \<times> byte list) list" where
  "batch_commands [] = []"
| "batch_commands (Command p args ok # es) = (p, args) # batch_commands es"
| "batch_commands (e # es) = batch_commands es"

fun batch_results :: "batch_event list \<Rightarrow> bool list" where
  "batch_results [] = []"
| "batch_results (Completed ok # es) = ok # batch_results es"
| "batch_results (e # es) = batch_results es"

fun batch_run_ok :: "nat \<Rightarrow> batch_event list \<Rightarrow> client_state \<times> byte list list \<Rightarrow> bool" where
  "batch_run_ok i [] s \<longleftrightarrow> True"
| "batch_run_ok i (e # es) s \<longleftrightarrow>
     (\<forall>ok. e = Completed ok \<longrightarrow> snd s \<noteq> []) \<and> batch_run_ok i es (batch_step i e s)"

text \<open>The front completions of a list of commands: those written, and those failed.\<close>

definition written :: "(nat \<times> byte list) list \<Rightarrow> bool list \<Rightarrow> nat list" where
  "written cmds oks = map fst (filter snd (zip (map fst cmds) oks))"

lemma batch_step_promises:
  "i < length (clients st) \<Longrightarrow> e \<noteq> Completed True \<Longrightarrow> e \<noteq> Completed False \<Longrightarrow>
   promises (clients (fst (batch_step i e (st, flight))) ! i) = promises (clients st ! i)"
  by (cases e) (auto simp: execute1_task_def flush_timer_def flush_commands_def Let_def)

lemma batch_run_promises:
  assumes "batch_inv i cmds s" and "batch_run_ok i es s"
  shows "batch_inv i (drop (length (batch_results es)) (cmds @ batch_commands es)) (fold (batch_step i) es s) \<and>
    promises (clients (fst (fold (batch_step i) es s)) ! i) =
      promises (clients (fst s) ! i) @ written (cmds @ batch_commands es) (batch_results es)"
  using assms
proof (induction es arbitrary: cmds s)
  case Nil
  then show ?case by (simp add: written_def)
next
  case (Cons e es)
  obtain st flight where s: "s = (st, flight)" by (rule prod.exhaust)
  have i: "i < length (clients st)" using Cons.prems(1) s by (simp add: batch_inv_def)
  show ?case
  proof (cases e)
    case (Command p args ok)
    with Cons.IH [OF batch_inv_command [OF Cons.prems(1) [unfolded s]], of p args ok] Cons.prems(2) s
      batch_step_promises [OF i, of e flight]
    show ?thesis by (simp del: batch_step.simps)
  next
    case Timer
    with Cons.IH [OF batch_inv_timer [OF Cons.prems(1) [unfolded s]]] Cons.prems(2) s
      batch_step_promises [OF i, of e flight]
    show ?thesis by (simp del: batch_step.simps)
  next
    case (Completed ok)
    then have fl: "flight \<noteq> []" using Cons.prems(2) s by simp
    then obtain p args cmds' where c: "cmds = (p, args) # cmds'"
      using Cons.prems(1) s by (cases cmds) (auto simp: batch_inv_def)
    have "promises (clients (fst (batch_step i e s)) ! i) = promises (clients st ! i) @ (if ok then [p] else [])"
      using Cons.prems(1) fl c s Completed
      by (cases flight) (auto simp: batch_inv_def batch_write_callback_def Let_def)
    with Cons.IH [OF batch_inv_completed [OF Cons.prems(1) [unfolded s] fl], of ok] Cons.prems(2) s c Completed
    show ?thesis by (simp add: written_def del: batch_step.simps)
  qed
qed

text \<open>A command is never left behind while no timer is set up, unless setting it up failed.\<close>

lemma execute1_task_flushed:
  assumes "i < length (clients st)" and "execute1_task i p args True st = (st', calls)"
  shows "flush_time (clients st' ! i) \<or> writing_cmds (clients st' ! i) = []"
  using assms by (auto simp: execute1_task_def flush_commands_def Let_def split: if_splits)

end
