(* ===== verification/Redis_Cli.thy ===== *)
theory Redis_Cli
  imports Redis_Client
begin

text \<open>
  The interactive client of \<^verbatim>\<open>src/redis_cli.cpp\<close>: its \<^verbatim>\<open>main\<close> from the connection to the end of
  the input. The client object is a parameter: \<open>ask\<close> is \<^verbatim>\<open>execute\<close> and \<^verbatim>\<open>get\<close> on the future
  it returns, and yields no reply when the promise is never resolved. What the program prints is the first
  part of the result.
\<close>

text \<open>The program returns, is ended by an exception nobody catches, or waits for ever.\<close>

datatype cli_end = Exits nat | Aborts | Hangs

definition prompt :: string where "prompt = ''redis> ''"
definition newline :: string where "newline = [CHR 0x0A]"

definition printing :: "string \<Rightarrow> string \<times> cli_end \<times> 's \<Rightarrow> string \<times> cli_end \<times> 's" where
  "printing t r = (t @ fst r, snd r)"

definition bye :: "'s \<Rightarrow> string \<times> cli_end \<times> 's" where
  "bye s = (''Bey.'' @ newline, Exits 0, s)"

fun cli_loop :: "(string list \<Rightarrow> 's \<Rightarrow> (reply \<times> 's) option) \<Rightarrow> string list \<Rightarrow> 's \<Rightarrow> string \<times> cli_end \<times> 's" where
  "cli_loop ask [] s = printing (prompt @ newline) (bye s)"
| "cli_loop ask (line # ls) s =
     (case repl_line (Some line) of
        Quit \<Rightarrow> printing prompt (bye s)
      | Continue \<Rightarrow> printing prompt (cli_loop ask ls s)
      | Run args \<Rightarrow>
          (case ask args s of
             None \<Rightarrow> (prompt, Hangs, s)
           | Some (Exception e, s) \<Rightarrow> (prompt, Aborts, s)
           | Some (Value v, s) \<Rightarrow>
               (case formatResponse v 0 of
                  None \<Rightarrow> (prompt, Aborts, s)
                | Some t \<Rightarrow> printing (prompt @ t @ newline) (cli_loop ask ls s))))"

definition cli_main :: "bool \<Rightarrow> (string list \<Rightarrow> 's \<Rightarrow> (reply \<times> 's) option) \<Rightarrow> string list \<Rightarrow> 's \<Rightarrow> string \<times> cli_end \<times> 's" where
  "cli_main connected ask ls s =
     (if \<not> connected then ([], Exits 1, s)
      else printing (''Connected to Redis at 127.0.0.1:6379'' @ newline @
        ''Type '' @ [CHR 0x27] @ ''quit'' @ [CHR 0x27] @ '' or '' @ [CHR 0x27] @ ''exit'' @ [CHR 0x27] @
        '' to disconnect.'' @ newline) (cli_loop ask ls s))"

text \<open>The commands of an input: those of its lines up to the first that quits.\<close>

fun cli_commands :: "string list \<Rightarrow> string list list" where
  "cli_commands [] = []"
| "cli_commands (line # ls) =
     (case repl_line (Some line) of Quit \<Rightarrow> [] | Continue \<Rightarrow> cli_commands ls | Run args \<Rightarrow> args # cli_commands ls)"

text \<open>Asking one command after the other: the replies, and the state if all of them are values.\<close>

fun ask_all :: "(string list \<Rightarrow> 's \<Rightarrow> (reply \<times> 's) option) \<Rightarrow> string list list \<Rightarrow> 's \<Rightarrow> (resp_value list \<times> 's) option" where
  "ask_all ask [] s = Some ([], s)"
| "ask_all ask (c # cs) s =
     (case ask c s of
        Some (Value v, s) \<Rightarrow> map_option (\<lambda>(vs, s). (v # vs, s)) (ask_all ask cs s)
      | _ \<Rightarrow> None)"

text \<open>
  As long as every command gets a value, the program asks the commands of its input in order, each when the
  reply to the one before has come, and returns; otherwise it does not return.
\<close>

lemma cli_loop_end:
  assumes "\<And>c s v s'. ask c s = Some (Value v, s') \<Longrightarrow> formatResponse v 0 \<noteq> None"
  shows "case ask_all ask (cli_commands ls) s of
      Some (vs, s') \<Rightarrow> snd (cli_loop ask ls s) = (Exits 0, s')
    | None \<Rightarrow> fst (snd (cli_loop ask ls s)) \<in> {Aborts, Hangs}"
proof (induction ls arbitrary: s)
  case Nil
  then show ?case by (simp add: printing_def bye_def)
next
  case (Cons line ls)
  show ?case
  proof (cases "repl_line (Some line)")
    case (Run args)
    show ?thesis
    proof (cases "ask args s")
      case (Some r)
      with Cons.IH [of "snd r"] assms [of args s] Run show ?thesis
        by (cases r; cases "fst r") (auto simp: printing_def split: option.splits)
    qed (simp add: Run)
  qed (use Cons.IH [of s] in \<open>auto simp: printing_def bye_def split: option.splits\<close>)
qed

end
