(* ===== verification/Mpsc_Concurrent.thy ===== *)
theory Mpsc_Concurrent
  imports Queues
begin

text \<open>
  \<^verbatim>\<open>MPSCQueue\<close> of \<^verbatim>\<open>LockFreeQueue.h\<close> under any interleaving: every atomic access of
  \<^verbatim>\<open>push\<close> and \<^verbatim>\<open>pop\<close> is one step of one thread, any number of producers and one consumer.
  The memory is sequentially consistent. The items in the order in which their producers won the
  head index, and the items the consumer has returned, are kept beside the queue.
\<close>

section \<open>Threads and steps\<close>

text \<open>Where a producer is: the head it has loaded, checked against the tail, won, and filled.\<close>

datatype 'a producer =
    PIdle
  | PLoaded nat 'a
  | PChecked nat 'a
  | PClaimed nat 'a
  | PWritten nat 'a

datatype 'a consumer =
    CIdle
  | CTail nat
  | CWait nat
  | CReady nat
  | CTaken nat 'a
  | CCleared nat 'a

record 'a mpsc =
  mq :: "'a mp_queue"
  producers :: "nat \<Rightarrow> 'a producer"
  consumer :: "'a consumer"
  claimed :: "'a list"
  popped :: "'a list"

abbreviation slots :: "'a mpsc \<Rightarrow> 'a slot list" where "slots s \<equiv> mp_data (mq s)"
abbreviation capacity :: "'a mpsc \<Rightarrow> nat" where "capacity s \<equiv> length (slots s)"
abbreviation head :: "'a mpsc \<Rightarrow> nat" where "head s \<equiv> mp_head (mq s)"
abbreviation tail :: "'a mpsc \<Rightarrow> nat" where "tail s \<equiv> mp_tail (mq s)"
abbreviation invalid :: "'a mpsc \<Rightarrow> nat" where "invalid s \<equiv> invalid_index (mq s)"

definition set_producer :: "nat \<Rightarrow> 'a producer \<Rightarrow> 'a mpsc \<Rightarrow> 'a mpsc" where
  "set_producer p st s = s\<lparr>producers := (producers s)(p := st)\<rparr>"

definition set_slot :: "nat \<Rightarrow> 'a slot \<Rightarrow> 'a mpsc \<Rightarrow> 'a mpsc" where
  "set_slot i sl s = s\<lparr>mq := (mq s)\<lparr>mp_data := (slots s)[i := sl]\<rparr>\<rparr>"

inductive mpsc_step :: "'a mpsc \<Rightarrow> 'a mpsc \<Rightarrow> bool" where
  load: "producers s p = PIdle \<Longrightarrow> mpsc_step s (set_producer p (PLoaded (head s) x) s)"
| full: "producers s p = PLoaded h x \<Longrightarrow> ring_next (capacity s) h = tail s \<Longrightarrow>
    mpsc_step s (set_producer p PIdle s)"
| check: "producers s p = PLoaded h x \<Longrightarrow> ring_next (capacity s) h \<noteq> tail s \<Longrightarrow>
    mpsc_step s (set_producer p (PChecked h x) s)"
| cas_ok: "producers s p = PChecked h x \<Longrightarrow> head s = h \<Longrightarrow>
    mpsc_step s ((set_producer p (PClaimed h x) s)
      \<lparr>mq := (mq s)\<lparr>mp_head := ring_next (capacity s) h\<rparr>, claimed := claimed s @ [x]\<rparr>)"
| cas_fail: "producers s p = PChecked h x \<Longrightarrow> mpsc_step s (set_producer p (PLoaded (head s) x) s)"
| store_item: "producers s p = PClaimed h x \<Longrightarrow>
    mpsc_step s (set_slot h ((slots s ! h)\<lparr>item := x\<rparr>) (set_producer p (PWritten h x) s))"
| store_seq: "producers s p = PWritten h x \<Longrightarrow>
    mpsc_step s (set_slot h ((slots s ! h)\<lparr>seq := h\<rparr>) (set_producer p PIdle s))"
| load_tail: "consumer s = CIdle \<Longrightarrow> mpsc_step s (s\<lparr>consumer := CTail (tail s)\<rparr>)"
| see_empty: "consumer s = CTail t \<Longrightarrow> t = head s \<Longrightarrow> mpsc_step s (s\<lparr>consumer := CIdle\<rparr>)"
| see_item: "consumer s = CTail t \<Longrightarrow> t \<noteq> head s \<Longrightarrow> mpsc_step s (s\<lparr>consumer := CWait t\<rparr>)"
| spin: "consumer s = CWait t \<Longrightarrow> seq (slots s ! t) = invalid s \<Longrightarrow> mpsc_step s s"
| ready: "consumer s = CWait t \<Longrightarrow> seq (slots s ! t) \<noteq> invalid s \<Longrightarrow> mpsc_step s (s\<lparr>consumer := CReady t\<rparr>)"
| take_item: "consumer s = CReady t \<Longrightarrow> mpsc_step s (s\<lparr>consumer := CTaken t (item (slots s ! t))\<rparr>)"
| clear: "consumer s = CTaken t x \<Longrightarrow>
    mpsc_step s (set_slot t ((slots s ! t)\<lparr>seq := invalid s\<rparr>) (s\<lparr>consumer := CCleared t x\<rparr>))"
| advance: "consumer s = CCleared t x \<Longrightarrow>
    mpsc_step s (s\<lparr>mq := (mq s)\<lparr>mp_tail := ring_next (capacity s) t\<rparr>, consumer := CIdle, popped := popped s @ [x]\<rparr>)"

definition mpsc_init :: "nat \<Rightarrow> 'a \<Rightarrow> 'a mpsc" where
  "mpsc_init n x = \<lparr>mq = mp_new n x, producers = (\<lambda>_. PIdle), consumer = CIdle, claimed = [], popped = []\<rparr>"

text \<open>
  A step that does not move the head of a full queue: what the check before the exchange is for.
  The exchange can still succeed on a full queue when the head has come round to the same index in
  between.
\<close>

definition in_lap :: "'a mpsc \<Rightarrow> 'a mpsc \<Rightarrow> bool" where
  "in_lap s s' \<longleftrightarrow> (claimed s' \<noteq> claimed s \<longrightarrow> ring_next (capacity s) (head s) \<noteq> tail s)"

definition lap_step :: "'a mpsc \<Rightarrow> 'a mpsc \<Rightarrow> bool" where
  "lap_step s s' \<longleftrightarrow> mpsc_step s s' \<and> in_lap s s'"

section \<open>The invariant\<close>

definition busy :: "'a mpsc \<Rightarrow> nat \<Rightarrow> nat \<Rightarrow> 'a \<Rightarrow> bool" where
  "busy s p h x \<longleftrightarrow> producers s p = PClaimed h x \<or> producers s p = PWritten h x"

text \<open>Positions count items from the beginning; the slot of a position is its remainder.\<close>

definition live :: "'a mpsc \<Rightarrow> nat \<Rightarrow> bool" where
  "live s n \<longleftrightarrow> length (popped s) \<le> n \<and> n < length (claimed s)"

definition place :: "'a mpsc \<Rightarrow> nat \<Rightarrow> nat" where
  "place s n = n mod capacity s"

definition counts_ok :: "'a mpsc \<Rightarrow> bool" where
  "counts_ok s \<longleftrightarrow> 0 < capacity s \<and> length (popped s) \<le> length (claimed s) \<and>
     length (claimed s) < length (popped s) + capacity s \<and>
     take (length (popped s)) (claimed s) = popped s \<and>
     head s = place s (length (claimed s)) \<and> tail s = place s (length (popped s))"

definition producers_ok :: "'a mpsc \<Rightarrow> bool" where
  "producers_ok s \<longleftrightarrow>
     (\<forall>p h x. busy s p h x \<longrightarrow>
        (\<exists>n. live s n \<and> h = place s n \<and> x = claimed s ! n) \<and> seq (slots s ! h) = invalid s \<and>
        (producers s p = PWritten h x \<longrightarrow> item (slots s ! h) = x) \<and>
        (\<forall>q y. busy s q h y \<longrightarrow> q = p))"

definition slots_ok :: "'a mpsc \<Rightarrow> bool" where
  "slots_ok s \<longleftrightarrow>
     (\<forall>n. live s n \<longrightarrow>
        (if seq (slots s ! place s n) = invalid s
         then (\<exists>p x. busy s p (place s n) x) \<or> (n = length (popped s) \<and> (\<exists>t x. consumer s = CCleared t x))
         else item (slots s ! place s n) = claimed s ! n)) \<and>
     (\<forall>i < capacity s. (\<forall>n. live s n \<longrightarrow> place s n \<noteq> i) \<longrightarrow> seq (slots s ! i) = invalid s)"

fun consumer_ok :: "'a consumer \<Rightarrow> 'a mpsc \<Rightarrow> bool" where
  "consumer_ok CIdle s \<longleftrightarrow> True"
| "consumer_ok (CTail t) s \<longleftrightarrow> t = tail s"
| "consumer_ok (CWait t) s \<longleftrightarrow> t = tail s \<and> live s (length (popped s))"
| "consumer_ok (CReady t) s \<longleftrightarrow> t = tail s \<and> live s (length (popped s)) \<and> seq (slots s ! t) \<noteq> invalid s"
| "consumer_ok (CTaken t x) s \<longleftrightarrow> t = tail s \<and> live s (length (popped s)) \<and> seq (slots s ! t) \<noteq> invalid s \<and>
     x = claimed s ! length (popped s)"
| "consumer_ok (CCleared t x) s \<longleftrightarrow> t = tail s \<and> live s (length (popped s)) \<and> seq (slots s ! t) = invalid s \<and>
     x = claimed s ! length (popped s) \<and> (\<forall>p y. \<not> busy s p t y)"

definition mpsc_inv :: "'a mpsc \<Rightarrow> bool" where
  "mpsc_inv s \<longleftrightarrow> counts_ok s \<and> producers_ok s \<and> slots_ok s \<and> consumer_ok (consumer s) s"

text \<open>Two live positions have two slots.\<close>

lemma mod_window_le:
  assumes "(n :: nat) \<le> m" and "m < n + c" and "n mod c = m mod c"
  shows "n = m"
proof -
  have "c dvd m - n" using assms(1,3) by (metis mod_eq_dvd_iff_nat)
  moreover have "m - n < c" using assms(1,2) by simp
  ultimately have "m - n = 0" using dvd_imp_le [of c "m - n"] by (cases "m - n = 0") simp_all
  with assms(1) show ?thesis by simp
qed

lemma mod_window:
  assumes "(a :: nat) \<le> n" and "a \<le> m" and "n < a + c" and "m < a + c" and "n mod c = m mod c"
  shows "n = m"
proof (cases "n \<le> m")
  case True
  with assms show ?thesis by (intro mod_window_le [of n m c]) simp_all
next
  case False
  with assms have "m = n" by (intro mod_window_le [of m n c]) simp_all
  then show ?thesis by simp
qed

lemma countsD:
  assumes "counts_ok s"
  shows "0 < capacity s" "length (popped s) \<le> length (claimed s)"
    "length (claimed s) < length (popped s) + capacity s" "take (length (popped s)) (claimed s) = popped s"
    "head s = place s (length (claimed s))" "tail s = place s (length (popped s))"
  using assms by (simp_all only: counts_ok_def)

lemma place_inj:
  "counts_ok s \<Longrightarrow> live s n \<Longrightarrow> live s m \<Longrightarrow> place s n = place s m \<Longrightarrow> n = m"
  unfolding live_def place_def
  by (rule mod_window [of "length (popped s)" n m "capacity s"]) (auto dest: countsD(3))

lemma tail_live:
  assumes c: "counts_ok s"
  shows "live s (length (popped s)) \<longleftrightarrow> head s \<noteq> tail s"
proof
  assume "live s (length (popped s))"
  then have lt: "length (popped s) < length (claimed s)" by (simp add: live_def)
  show "head s \<noteq> tail s"
  proof
    assume "head s = tail s"
    then have "length (popped s) mod capacity s = length (claimed s) mod capacity s"
      using countsD(5,6) [OF c] by (simp add: place_def)
    from mod_window_le [OF _ _ this] lt countsD(3) [OF c] show False by simp
  qed
next
  assume "head s \<noteq> tail s"
  then have "length (popped s) \<noteq> length (claimed s)" using countsD(5,6) [OF c] by force
  then show "live s (length (popped s))" using countsD(2) [OF c] by (simp add: live_def)
qed

text \<open>The next head is the slot of the next position; when it is not the tail, there is room for one more.\<close>

lemma place_Suc: "0 < capacity s \<Longrightarrow> ring_next (capacity s) (place s n) = place s (Suc n)"
  by (simp add: ring_next_def place_def mod_Suc_eq)

lemma room:
  assumes c: "counts_ok s" and "ring_next (capacity s) (head s) \<noteq> tail s"
  shows "length (claimed s) + 1 < length (popped s) + capacity s"
proof (rule ccontr)
  assume "\<not> ?thesis"
  then have "Suc (length (claimed s)) = length (popped s) + capacity s" using countsD(3) [OF c] by simp
  then have "place s (Suc (length (claimed s))) = place s (length (popped s))" by (simp add: place_def)
  then show False
    using assms(2) place_Suc [OF countsD(1) [OF c], of "length (claimed s)"] countsD(5,6) [OF c] by simp
qed

section \<open>Steps keep the invariant\<close>

lemma set_producer_simps [simp]:
  "mq (set_producer p st s) = mq s" "consumer (set_producer p st s) = consumer s"
  "claimed (set_producer p st s) = claimed s" "popped (set_producer p st s) = popped s"
  "producers (set_producer p st s) q = (if q = p then st else producers s q)"
  by (simp_all add: set_producer_def)

lemma set_slot_simps [simp]:
  "slots (set_slot i sl s) = (slots s)[i := sl]" "head (set_slot i sl s) = head s" "tail (set_slot i sl s) = tail s"
  "invalid (set_slot i sl s) = invalid s"
  "consumer (set_slot i sl s) = consumer s" "producers (set_slot i sl s) = producers s"
  "claimed (set_slot i sl s) = claimed s" "popped (set_slot i sl s) = popped s"
  by (simp_all add: set_slot_def invalid_index_def)

lemma place_less: "0 < capacity s \<Longrightarrow> place s n < capacity s"
  by (simp add: place_def)

lemma busyD:
  assumes "producers_ok s" and "busy s p h x"
  shows "\<exists>n. live s n \<and> h = place s n \<and> x = claimed s ! n" and "seq (slots s ! h) = invalid s"
    and "producers s p = PWritten h x \<Longrightarrow> item (slots s ! h) = x" and "busy s q h y \<Longrightarrow> q = p"
  using assms unfolding producers_ok_def by blast+

lemma slotsD:
  assumes "slots_ok s"
  shows "live s n \<Longrightarrow> seq (slots s ! place s n) = invalid s \<Longrightarrow>
      (\<exists>p x. busy s p (place s n) x) \<or> (n = length (popped s) \<and> (\<exists>t x. consumer s = CCleared t x))"
    and "live s n \<Longrightarrow> seq (slots s ! place s n) \<noteq> invalid s \<Longrightarrow> item (slots s ! place s n) = claimed s ! n"
    and "i < capacity s \<Longrightarrow> (\<And>n. live s n \<Longrightarrow> place s n \<noteq> i) \<Longrightarrow> seq (slots s ! i) = invalid s"
  using assms unfolding slots_ok_def by (presburger, presburger, blast)

text \<open>Steps that change neither the queue nor who is busy.\<close>

lemma inv_same:
  assumes "mq s' = mq s" and "claimed s' = claimed s" and "popped s' = popped s"
    and "\<And>p h x. busy s' p h x = busy s p h x" and "\<And>p h x. producers s' p = PWritten h x \<longleftrightarrow> producers s p = PWritten h x"
    and "(\<exists>t x. consumer s' = CCleared t x) = (\<exists>t x. consumer s = CCleared t x)"
    and "consumer_ok (consumer s') s" and "mpsc_inv s"
  shows "mpsc_inv s'"
proof -
  have l: "live s' n = live s n" "place s' n = place s n" for n using assms(1-3) by (simp_all add: live_def place_def)
  have b: "busy s' = busy s" using assms(4) by (intro ext) simp
  have "consumer_ok (consumer s') s' = consumer_ok (consumer s') s"
    using assms(1-4) l by (cases "consumer s'") simp_all
  moreover have "counts_ok s' = counts_ok s" unfolding counts_ok_def by (simp only: assms(1-3) l)
  moreover have "producers_ok s' = producers_ok s" unfolding producers_ok_def by (simp only: assms(1-5) l)
  moreover have "slots_ok s' = slots_ok s" unfolding slots_ok_def by (simp only: assms(1-3,6) l b)
  ultimately show ?thesis using assms(7,8) by (simp add: mpsc_inv_def)
qed

lemma inv_producer:
  assumes "mpsc_inv s" and "\<And>h x. \<not> busy s p h x" and "\<And>h x. st \<noteq> PClaimed h x \<and> st \<noteq> PWritten h x"
  shows "mpsc_inv (set_producer p st s)"
proof (rule inv_same [OF _ _ _ _ _ _ _ assms(1)])
  show "busy (set_producer p st s) q h x = busy s q h x" for q h x using assms(2,3) by (simp add: busy_def)
  show "producers (set_producer p st s) q = PWritten h x \<longleftrightarrow> producers s q = PWritten h x" for q h x
    using assms(2,3) by (auto simp: busy_def)
qed (use assms(1) in \<open>simp_all add: mpsc_inv_def\<close>)

lemma inv_consumer:
  assumes "mpsc_inv s" and "consumer_ok st s" and "\<And>t x. consumer s \<noteq> CCleared t x" and "\<And>t x. st \<noteq> CCleared t x"
  shows "mpsc_inv (s\<lparr>consumer := st\<rparr>)"
  by (rule inv_same [OF _ _ _ _ _ _ _ assms(1)]) (use assms in \<open>simp_all add: busy_def\<close>)

text \<open>Winning the head: a new position at the end.\<close>

lemma inv_claim:
  assumes inv: "mpsc_inv s" and p: "producers s p = PChecked h x" and h: "head s = h"
    and nf: "ring_next (capacity s) (head s) \<noteq> tail s"
  defines "s' \<equiv> (set_producer p (PClaimed h x) s)
      \<lparr>mq := (mq s)\<lparr>mp_head := ring_next (capacity s) h\<rparr>, claimed := claimed s @ [x]\<rparr>"
  shows "mpsc_inv s'"
proof -
  have c: "counts_ok s" and P: "producers_ok s" and S: "slots_ok s" and C: "consumer_ok (consumer s) s"
    using inv by (simp_all add: mpsc_inv_def)
  note cd = countsD [OF c]
  let ?H = "length (claimed s)"
  have f: "slots s' = slots s" "tail s' = tail s" "popped s' = popped s" "claimed s' = claimed s @ [x]"
    "consumer s' = consumer s" "invalid s' = invalid s" "head s' = ring_next (capacity s) h" "place s' n = place s n" for n
    by (simp_all add: s'_def place_def invalid_index_def)
  have live: "live s' n \<longleftrightarrow> live s n \<or> n = ?H" for n using cd(2) by (auto simp: live_def f)
  have hH: "h = place s ?H" using cd(5) h by simp
  have fresh: "place s n \<noteq> h" if "live s n" for n
  proof
    assume "place s n = h"
    then have "n mod capacity s = ?H mod capacity s" using hH by (simp add: place_def)
    from mod_window [OF _ _ _ _ this, of "length (popped s)"] that cd(2,3) show False by (simp add: live_def)
  qed
  have np: "\<not> busy s p i y" for i y using p by (simp add: busy_def)
  have busy: "busy s' q i y \<longleftrightarrow> busy s q i y \<or> (q = p \<and> i = h \<and> y = x)" for q i y
    using np by (auto simp: busy_def s'_def)
  have old: "\<not> busy s q h y" for q y using busyD(1) [OF P] fresh by metis
  have free: "seq (slots s ! h) = invalid s"
    using slotsD(3) [OF S, of h] fresh hH place_less [OF cd(1)] by simp
  have nth: "(claimed s @ [x]) ! n = claimed s ! n" if "live s n" for n using that by (simp add: live_def nth_append)
  have "counts_ok s'"
    unfolding counts_ok_def f using cd room [OF c nf] hH place_Suc [OF cd(1), of ?H] by simp
  moreover have "producers_ok s'"
    unfolding producers_ok_def
  proof (intro allI impI)
    fix q i y assume b: "busy s' q i y"
    show "(\<exists>n. live s' n \<and> i = place s' n \<and> y = claimed s' ! n) \<and> seq (slots s' ! i) = invalid s' \<and>
        (producers s' q = PWritten i y \<longrightarrow> item (slots s' ! i) = y) \<and> (\<forall>r z. busy s' r i z \<longrightarrow> r = q)"
    proof (cases "q = p \<and> i = h \<and> y = x")
      case True
      then have "live s' ?H \<and> i = place s' ?H \<and> y = claimed s' ! ?H" by (simp add: live f hH)
      with True free old show ?thesis by (auto simp: f busy) (simp_all add: s'_def)
    next
      case False
      with b have b: "busy s q i y" by (simp add: busy)
      then have "q \<noteq> p" using np by blast
      from busyD [OF P b] obtain n where n: "live s n" "i = place s n" "y = claimed s ! n" by blast
      then have "i \<noteq> h" using fresh by blast
      moreover have "producers s' q = producers s q" using \<open>q \<noteq> p\<close> by (simp add: s'_def)
      moreover have "live s' n \<and> i = place s' n \<and> y = claimed s' ! n" using n nth by (simp add: live f)
      ultimately show ?thesis using busyD [OF P b] by (auto simp: f busy)
    qed
  qed
  moreover have "slots_ok s'"
    unfolding slots_ok_def
  proof (intro conjI allI impI)
    fix n assume n: "live s' n"
    show "if seq (slots s' ! place s' n) = invalid s'
        then (\<exists>q y. busy s' q (place s' n) y) \<or> n = length (popped s') \<and> (\<exists>t x. consumer s' = CCleared t x)
        else item (slots s' ! place s' n) = claimed s' ! n"
    proof (cases "n = ?H")
      case True
      have "busy s' p (place s' n) x" using True hH by (simp add: f busy)
      moreover have "seq (slots s' ! place s' n) = invalid s'" using True free hH by (simp add: f)
      ultimately show ?thesis by auto
    next
      case False
      with n have l: "live s n" by (simp add: live)
      with slotsD(1,2) [OF S l] nth show ?thesis unfolding f busy by auto
    qed
  next
    fix i assume "i < capacity s'" and "\<forall>n. live s' n \<longrightarrow> place s' n \<noteq> i"
    then show "seq (slots s' ! i) = invalid s'" unfolding f live by (intro slotsD(3) [OF S]) auto
  qed
  moreover have "consumer_ok (consumer s') s'"
  proof -
    have "t \<noteq> h" if "t = tail s" "live s (length (popped s))" for t
      using fresh [OF that(2)] that(1) cd(6) by simp
    with C show ?thesis by (cases "consumer s") (auto simp: f live busy nth)
  qed
  ultimately show ?thesis by (simp add: mpsc_inv_def)
qed

text \<open>Filling the slot, then publishing it.\<close>

lemma live_place_less: "counts_ok s \<Longrightarrow> place s n < capacity s"
  using place_less countsD(1) by blast

lemma inv_store_item:
  assumes inv: "mpsc_inv s" and p: "producers s p = PClaimed h x"
  defines "s' \<equiv> set_slot h ((slots s ! h)\<lparr>item := x\<rparr>) (set_producer p (PWritten h x) s)"
  shows "mpsc_inv s'"
proof -
  have c: "counts_ok s" and P: "producers_ok s" and S: "slots_ok s" and C: "consumer_ok (consumer s) s"
    using inv by (simp_all add: mpsc_inv_def)
  have bp: "busy s p h x" using p by (simp add: busy_def)
  note bpD = busyD [OF P bp]
  from bpD(1) have hl: "h < capacity s" using live_place_less [OF c] by auto
  have f: "capacity s' = capacity s" "head s' = head s" "tail s' = tail s" "popped s' = popped s" "claimed s' = claimed s"
    "consumer s' = consumer s" "invalid s' = invalid s" "place s' n = place s n" "live s' n = live s n" for n
    by (simp_all add: s'_def place_def live_def)
  have sl: "seq (slots s' ! i) = seq (slots s ! i)" "item (slots s' ! i) = (if i = h then x else item (slots s ! i))" for i
    using hl by (simp_all add: s'_def nth_list_update)
  have busy: "busy s' = busy s" using p by (auto simp: busy_def s'_def fun_eq_iff)
  have pr: "producers s' q = producers s q" if "q \<noteq> p" for q using that by (simp add: s'_def)
  have "counts_ok s'" using c unfolding counts_ok_def f .
  moreover have "producers_ok s'"
    unfolding producers_ok_def f busy sl
  proof (intro allI impI)
    fix q i y assume b: "busy s q i y"
    have "item (slots s' ! i) = y" if "producers s' q = PWritten i y"
    proof (cases "q = p")
      case True
      with that have "i = h \<and> y = x" by (simp add: s'_def)
      then show ?thesis by (simp add: sl)
    next
      case False
      then have "i \<noteq> h" using bpD(4) b by blast
      with False that pr busyD(3) [OF P b] show ?thesis by (simp add: sl)
    qed
    with busyD(1,2,4) [OF P b] show "(\<exists>n. live s n \<and> i = place s n \<and> y = claimed s ! n) \<and> seq (slots s ! i) = invalid s \<and>
        (producers s' q = PWritten i y \<longrightarrow> (if i = h then x else item (slots s ! i)) = y) \<and> (\<forall>r z. busy s r i z \<longrightarrow> r = q)"
      unfolding sl by blast
  qed
  moreover have "slots_ok s'"
    unfolding slots_ok_def f busy sl
  proof (intro conjI allI impI)
    fix n assume n: "live s n"
    show "if seq (slots s ! place s n) = invalid s
        then (\<exists>q y. busy s q (place s n) y) \<or> n = length (popped s) \<and> (\<exists>t x. consumer s = CCleared t x)
        else (if place s n = h then x else item (slots s ! place s n)) = claimed s ! n"
      using slotsD(1,2) [OF S n] bpD(2) by auto
  next
    fix i assume "i < capacity s" and "\<forall>n. live s n \<longrightarrow> place s n \<noteq> i"
    then show "seq (slots s ! i) = invalid s" using slotsD(3) [OF S] by blast
  qed
  moreover have "consumer_ok (consumer s') s'"
    using C by (cases "consumer s") (simp_all add: f busy sl)
  ultimately show ?thesis by (simp add: mpsc_inv_def)
qed

lemma inv_store_seq:
  assumes inv: "mpsc_inv s" and p: "producers s p = PWritten h x"
  defines "s' \<equiv> set_slot h ((slots s ! h)\<lparr>seq := h\<rparr>) (set_producer p PIdle s)"
  shows "mpsc_inv s'"
proof -
  have c: "counts_ok s" and P: "producers_ok s" and S: "slots_ok s" and C: "consumer_ok (consumer s) s"
    using inv by (simp_all add: mpsc_inv_def)
  have bp: "busy s p h x" using p by (simp add: busy_def)
  note bpD = busyD [OF P bp]
  from bpD(1) obtain m where m: "live s m" "h = place s m" "x = claimed s ! m" by blast
  have hl: "h < capacity s" using live_place_less [OF c] m(2) by simp
  then have hi: "h \<noteq> invalid s" by (simp add: invalid_index_def)
  have f: "capacity s' = capacity s" "head s' = head s" "tail s' = tail s" "popped s' = popped s" "claimed s' = claimed s"
    "consumer s' = consumer s" "invalid s' = invalid s" "place s' n = place s n" "live s' n = live s n" for n
    by (simp_all add: s'_def place_def live_def)
  have sl: "seq (slots s' ! i) = (if i = h then h else seq (slots s ! i))" "item (slots s' ! i) = item (slots s ! i)" for i
    using hl by (simp_all add: s'_def nth_list_update)
  have busy: "busy s' q i y \<longleftrightarrow> busy s q i y \<and> q \<noteq> p" for q i y by (auto simp: busy_def s'_def)
  have pr: "producers s' q = producers s q" if "q \<noteq> p" for q using that by (simp add: s'_def)
  have "counts_ok s'" using c unfolding counts_ok_def f .
  moreover have "producers_ok s'"
    unfolding producers_ok_def f busy sl
  proof (intro allI impI)
    fix q i y assume b: "busy s q i y \<and> q \<noteq> p"
    then have "i \<noteq> h" using bpD(4) by blast
    with b pr busyD [OF P conjunct1 [OF b]]
    show "(\<exists>n. live s n \<and> i = place s n \<and> y = claimed s ! n) \<and> (if i = h then h else seq (slots s ! i)) = invalid s \<and>
        (producers s' q = PWritten i y \<longrightarrow> item (slots s ! i) = y) \<and> (\<forall>r z. busy s r i z \<and> r \<noteq> p \<longrightarrow> r = q)" by auto
  qed
  moreover have "slots_ok s'"
    unfolding slots_ok_def f busy sl
  proof (intro conjI allI impI)
    fix n assume n: "live s n"
    show "if (if place s n = h then h else seq (slots s ! place s n)) = invalid s
        then (\<exists>q y. busy s q (place s n) y \<and> q \<noteq> p) \<or> n = length (popped s) \<and> (\<exists>t x. consumer s = CCleared t x)
        else item (slots s ! place s n) = claimed s ! n"
    proof (cases "place s n = h")
      case True
      with place_inj [OF c n m(1)] m have "n = m" by simp
      with True m(2,3) hi busyD(3) [OF P bp p] show ?thesis by simp
    next
      case False
      have "q \<noteq> p" if "busy s q (place s n) y" for q y
        using that p False by (auto simp: busy_def)
      then have "(\<exists>q y. busy s q (place s n) y \<and> q \<noteq> p) = (\<exists>q y. busy s q (place s n) y)" by blast
      with False slotsD(1,2) [OF S n] show ?thesis by simp
    qed
  next
    fix i assume "i < capacity s" and i: "\<forall>n. live s n \<longrightarrow> place s n \<noteq> i"
    then show "(if i = h then h else seq (slots s ! i)) = invalid s"
      using m slotsD(3) [OF S] by auto
  qed
  moreover have "consumer_ok (consumer s') s'"
    using C hi bpD(2) bp by (cases "consumer s") (auto simp: f busy sl)
  ultimately show ?thesis by (simp add: mpsc_inv_def)
qed

text \<open>Freeing the slot, then moving the tail.\<close>

lemma inv_clear:
  assumes inv: "mpsc_inv s" and k: "consumer s = CTaken t x"
  defines "s' \<equiv> set_slot t ((slots s ! t)\<lparr>seq := invalid s\<rparr>) (s\<lparr>consumer := CCleared t x\<rparr>)"
  shows "mpsc_inv s'"
proof -
  have c: "counts_ok s" and P: "producers_ok s" and S: "slots_ok s"
    and C: "t = tail s" "live s (length (popped s))" "seq (slots s ! t) \<noteq> invalid s" "x = claimed s ! length (popped s)"
    using inv unfolding mpsc_inv_def k consumer_ok.simps by blast+
  have tp: "t = place s (length (popped s))" using C(1) countsD(6) [OF c] by simp
  have tl: "t < capacity s" using live_place_less [OF c] tp by simp
  have f: "capacity s' = capacity s" "head s' = head s" "tail s' = tail s" "popped s' = popped s" "claimed s' = claimed s"
    "consumer s' = CCleared t x" "invalid s' = invalid s" "place s' n = place s n" "live s' n = live s n"
    "producers s' = producers s" "busy s' = busy s" for n
    by (simp_all add: s'_def place_def live_def busy_def fun_eq_iff)
  have sl: "seq (slots s' ! i) = (if i = t then invalid s else seq (slots s ! i))" "item (slots s' ! i) = item (slots s ! i)" for i
    using tl by (simp_all add: s'_def nth_list_update)
  have free: "\<not> busy s p t y" for p y using busyD(2) [OF P] C(3) by blast
  have "counts_ok s'" using c unfolding counts_ok_def f .
  moreover have "producers_ok s'"
    using P free unfolding producers_ok_def f sl by auto
  moreover have "slots_ok s'"
    unfolding slots_ok_def f sl
  proof (intro conjI allI impI)
    fix n assume n: "live s n"
    show "if (if place s n = t then invalid s else seq (slots s ! place s n)) = invalid s
        then (\<exists>q y. busy s q (place s n) y) \<or> n = length (popped s) \<and> (\<exists>t' x'. CCleared t x = CCleared t' x')
        else item (slots s ! place s n) = claimed s ! n"
    proof (cases "place s n = t")
      case True
      with place_inj [OF c n C(2)] tp show ?thesis by simp
    next
      case False
      with slotsD(1,2) [OF S n] k show ?thesis by auto
    qed
  next
    fix i assume "i < capacity s" and i: "\<forall>n. live s n \<longrightarrow> place s n \<noteq> i"
    then show "(if i = t then invalid s else seq (slots s ! i)) = invalid s"
      using slotsD(3) [OF S] by auto
  qed
  moreover have "consumer_ok (consumer s') s'"
    using C free by (simp add: f sl)
  ultimately show ?thesis by (simp add: mpsc_inv_def)
qed

lemma inv_advance:
  assumes inv: "mpsc_inv s" and k: "consumer s = CCleared t x"
  defines "s' \<equiv> s\<lparr>mq := (mq s)\<lparr>mp_tail := ring_next (capacity s) t\<rparr>, consumer := CIdle, popped := popped s @ [x]\<rparr>"
  shows "mpsc_inv s'"
proof -
  let ?T = "length (popped s)"
  have c: "counts_ok s" and P: "producers_ok s" and S: "slots_ok s"
    and C: "t = tail s" "live s ?T" "seq (slots s ! t) = invalid s" "x = claimed s ! ?T" "\<And>p y. \<not> busy s p t y"
    using inv unfolding mpsc_inv_def k consumer_ok.simps by blast+
  note cd = countsD [OF c]
  have tp: "t = place s ?T" using C(1) cd(6) by simp
  have T: "?T < length (claimed s)" using C(2) by (simp add: live_def)
  have f: "slots s' = slots s" "head s' = head s" "tail s' = ring_next (capacity s) t" "popped s' = popped s @ [x]"
    "claimed s' = claimed s" "consumer s' = CIdle" "invalid s' = invalid s" "place s' n = place s n"
    "producers s' = producers s" "busy s' = busy s" for n
    by (simp_all add: s'_def place_def busy_def invalid_index_def fun_eq_iff)
  have live: "live s' n \<longleftrightarrow> live s n \<and> n \<noteq> ?T" for n by (auto simp: live_def f)
  have "take (length (popped s @ [x])) (claimed s) = popped s @ [x]"
    using T C(4) cd(4) by (simp add: take_Suc_conv_app_nth)
  then have "counts_ok s'"
    unfolding counts_ok_def f using cd(1,3,5) T tp place_Suc [OF cd(1), of ?T] by simp
  moreover have "producers_ok s'"
    unfolding producers_ok_def f live
  proof (intro allI impI)
    fix q i y assume b: "busy s q i y"
    from busyD(1) [OF P b] obtain n where n: "live s n" "i = place s n" "y = claimed s ! n" by blast
    moreover have "n \<noteq> ?T" using n(2) b C(5) tp by blast
    ultimately show "(\<exists>n. (live s n \<and> n \<noteq> ?T) \<and> i = place s n \<and> y = claimed s ! n) \<and> seq (slots s ! i) = invalid s \<and>
        (producers s q = PWritten i y \<longrightarrow> item (slots s ! i) = y) \<and> (\<forall>r z. busy s r i z \<longrightarrow> r = q)"
      using busyD(2-4) [OF P b] by blast
  qed
  moreover have "slots_ok s'"
    unfolding slots_ok_def f live
  proof (intro conjI allI impI)
    fix n assume n: "live s n \<and> n \<noteq> ?T"
    then show "if seq (slots s ! place s n) = invalid s
        then (\<exists>q y. busy s q (place s n) y) \<or> n = length (popped s @ [x]) \<and> (\<exists>t x. CIdle = CCleared t x)
        else item (slots s ! place s n) = claimed s ! n"
      using slotsD(1,2) [OF S conjunct1 [OF n]] by auto
  next
    fix i assume i: "i < capacity s" "\<forall>n. live s n \<and> n \<noteq> ?T \<longrightarrow> place s n \<noteq> i"
    show "seq (slots s ! i) = invalid s"
    proof (cases "i = t")
      case True
      with C(3) show ?thesis by simp
    next
      case False
      with i tp show ?thesis by (intro slotsD(3) [OF S]) auto
    qed
  qed
  ultimately show ?thesis by (simp add: mpsc_inv_def f)
qed

lemma inv_step:
  assumes "lap_step s s'" and inv: "mpsc_inv s"
  shows "mpsc_inv s'"
proof -
  have c: "counts_ok s" and C: "consumer_ok (consumer s) s" using inv by (simp_all add: mpsc_inv_def)
  from assms(1) have "mpsc_step s s'" "in_lap s s'" by (simp_all add: lap_step_def)
  then show ?thesis
  proof (cases rule: mpsc_step.cases)
    case (cas_ok p h x)
    then have "ring_next (capacity s) (head s) \<noteq> tail s" using \<open>in_lap s s'\<close> by (simp add: in_lap_def)
    with cas_ok inv show ?thesis by (simp add: inv_claim)
  next
    case (see_item t)
    with C c tail_live [OF c] show ?thesis by (auto intro!: inv_consumer [OF inv])
  next
    case (take_item t)
    have "item (slots s ! t) = claimed s ! length (popped s)"
      using take_item C inv countsD(6) [OF c] slotsD(2) [of s "length (popped s)"] by (simp add: mpsc_inv_def)
    with take_item C show ?thesis by (auto intro!: inv_consumer [OF inv])
  next
    case (load_tail)
    then show ?thesis by (simp add: inv_consumer [OF inv])
  next
    case (see_empty t)
    then show ?thesis by (simp add: inv_consumer [OF inv])
  next
    case (ready t)
    with C show ?thesis by (simp add: inv_consumer [OF inv])
  qed (simp_all add: inv inv_producer [OF inv] inv_store_item [OF inv] inv_store_seq [OF inv] inv_clear [OF inv]
      inv_advance [OF inv] busy_def)
qed

lemma inv_init: "0 < n \<Longrightarrow> mpsc_inv (mpsc_init n x)"
  by (simp add: mpsc_inv_def counts_ok_def producers_ok_def slots_ok_def mpsc_init_def mp_new_def busy_def live_def
      place_def invalid_index_def)

lemma inv_reachable: "lap_step\<^sup>*\<^sup>* (mpsc_init n x) s \<Longrightarrow> 0 < n \<Longrightarrow> mpsc_inv s"
  by (induction rule: rtranclp_induct) (simp_all add: inv_init inv_step)

lemma step_capacity: "mpsc_step s s' \<Longrightarrow> capacity s' = capacity s"
  by (induction rule: mpsc_step.induct) simp_all

lemma reachable_capacity: "lap_step\<^sup>*\<^sup>* (mpsc_init n x) s \<Longrightarrow> capacity s = n"
proof (induction rule: rtranclp_induct)
  case base
  then show ?case by (simp add: mpsc_init_def mp_new_def)
next
  case (step s s')
  then show ?case using step_capacity [of s s'] by (simp add: lap_step_def)
qed

section \<open>Schedules\<close>

text \<open>The next step of a producer, who pushes \<open>x\<close> when idle and does not fail spuriously, and of the
  consumer.\<close>

definition produce :: "nat \<Rightarrow> 'a \<Rightarrow> 'a mpsc \<Rightarrow> 'a mpsc" where
  "produce p x s =
     (case producers s p of
        PIdle \<Rightarrow> set_producer p (PLoaded (head s) x) s
      | PLoaded h y \<Rightarrow>
          if ring_next (capacity s) h = tail s then set_producer p PIdle s
          else set_producer p (PChecked h y) s
      | PChecked h y \<Rightarrow>
          if head s = h then (set_producer p (PClaimed h y) s)
            \<lparr>mq := (mq s)\<lparr>mp_head := ring_next (capacity s) h\<rparr>, claimed := claimed s @ [y]\<rparr>
          else set_producer p (PLoaded (head s) y) s
      | PClaimed h y \<Rightarrow> set_slot h ((slots s ! h)\<lparr>item := y\<rparr>) (set_producer p (PWritten h y) s)
      | PWritten h y \<Rightarrow> set_slot h ((slots s ! h)\<lparr>seq := h\<rparr>) (set_producer p PIdle s))"

definition consume :: "'a mpsc \<Rightarrow> 'a mpsc" where
  "consume s =
     (case consumer s of
        CIdle \<Rightarrow> s\<lparr>consumer := CTail (tail s)\<rparr>
      | CTail t \<Rightarrow> s\<lparr>consumer := (if t = head s then CIdle else CWait t)\<rparr>
      | CWait t \<Rightarrow> if seq (slots s ! t) = invalid s then s else s\<lparr>consumer := CReady t\<rparr>
      | CReady t \<Rightarrow> s\<lparr>consumer := CTaken t (item (slots s ! t))\<rparr>
      | CTaken t x \<Rightarrow> set_slot t ((slots s ! t)\<lparr>seq := invalid s\<rparr>) (s\<lparr>consumer := CCleared t x\<rparr>)
      | CCleared t x \<Rightarrow>
          s\<lparr>mq := (mq s)\<lparr>mp_tail := ring_next (capacity s) t\<rparr>, consumer := CIdle, popped := popped s @ [x]\<rparr>)"

lemma produce_step: "mpsc_step s (produce p x s)"
  by (auto simp: produce_def split: producer.splits intro: mpsc_step.intros)

lemma consume_step: "mpsc_step s (consume s)"
  by (auto simp: consume_def split: consumer.splits intro: mpsc_step.intros)

text \<open>A schedule names the thread of every step: a producer with the item it pushes next, or the consumer.\<close>

fun schedule :: "(nat \<times> 'a) option list \<Rightarrow> 'a mpsc \<Rightarrow> 'a mpsc" where
  "schedule [] s = s"
| "schedule (Some (p, x) # as) s = schedule as (produce p x s)"
| "schedule (None # as) s = schedule as (consume s)"

lemma schedule_steps: "mpsc_step\<^sup>*\<^sup>* s (schedule as s)"
  by (induction as s rule: schedule.induct)
    (auto intro: converse_rtranclp_into_rtranclp produce_step consume_step)

text \<open>Running alone, five steps of a producer are \<^verbatim>\<open>push\<close>, and six of the consumer \<^verbatim>\<open>pop\<close>.\<close>

lemma push_alone:
  assumes "producers s p = PIdle" and "ring_next (capacity s) (head s) \<noteq> tail s" and "head s < capacity s"
  shows "mpsc_push x (mq s) = Some (True, mq (schedule (replicate 5 (Some (p, x))) s))"
  using assms
  by (simp add: mpsc_push_def produce_def set_slot_def Let_def numeral_eq_Suc slot_filled)

lemma pop_alone:
  assumes "consumer s = CIdle" and "tail s \<noteq> head s" and "seq (slots s ! tail s) \<noteq> invalid s"
  shows "mpsc_pop (mq s) = Some (Some (item (slots s ! tail s)), mq (schedule (replicate 6 None) s))"
  using assms
  by (simp add: mpsc_pop_def consume_def set_slot_def Let_def numeral_eq_Suc invalid_index_def)

section \<open>A run with a lap\<close>

text \<open>One push after the other, by one producer, on a ring with room for all of them.\<close>

lemma schedule_append: "schedule (as @ bs) s = schedule bs (schedule as s)"
  by (induction as s rule: schedule.induct) simp_all

lemma push_whole:
  assumes "producers s p = PIdle" and "ring_next (capacity s) (head s) \<noteq> tail s" and "head s < capacity s"
  shows "schedule (replicate 5 (Some (p, x))) s =
    s\<lparr>mq := (mq s)\<lparr>mp_head := ring_next (capacity s) (head s), mp_data := (slots s)[head s := \<lparr>seq = head s, item = x\<rparr>]\<rparr>,
      claimed := claimed s @ [x]\<rparr>"
proof -
  have "(producers s)(p := PIdle) = producers s" using assms(1) by (simp add: fun_upd_idem)
  then show ?thesis
    using assms by (simp add: produce_def set_producer_def set_slot_def numeral_eq_Suc slot_filled)
qed

lemma next_place: "ring_next n ((t + j) mod n) = (t + Suc j) mod n"
  by (simp add: ring_next_def mod_simps)

lemma not_full: "t < n \<Longrightarrow> Suc j < n \<Longrightarrow> (t + Suc j) mod n \<noteq> (t :: nat)"
  by (cases "t + Suc j < n") (auto simp: mod_if)

definition push_turns :: "nat \<Rightarrow> 'a list \<Rightarrow> (nat \<times> 'a) option list" where
  "push_turns p xs = concat (map (\<lambda>x. replicate 5 (Some (p, x))) xs)"

lemma push_all:
  assumes "producers s p = PIdle" and "tail s < capacity s" and "head s = (tail s + j) mod capacity s"
    and "j + length xs < capacity s"
  shows "capacity (schedule (push_turns p xs) s) = capacity s \<and>
    tail (schedule (push_turns p xs) s) = tail s \<and>
    head (schedule (push_turns p xs) s) = (tail s + j + length xs) mod capacity s \<and>
    producers (schedule (push_turns p xs) s) = producers s \<and>
    consumer (schedule (push_turns p xs) s) = consumer s \<and> popped (schedule (push_turns p xs) s) = popped s \<and>
    claimed (schedule (push_turns p xs) s) = claimed s @ xs"
  using assms
proof (induction xs arbitrary: s j)
  case Nil
  then show ?case by (simp add: push_turns_def)
next
  case (Cons x xs)
  let ?s = "schedule (replicate 5 (Some (p, x))) s"
  have turns: "schedule (push_turns p (x # xs)) s = schedule (push_turns p xs) ?s"
    by (simp only: push_turns_def list.map concat.simps schedule_append)
  have nx: "ring_next (capacity s) (head s) = (tail s + Suc j) mod capacity s"
    using Cons.prems(3) next_place by simp
  have "ring_next (capacity s) (head s) \<noteq> tail s" unfolding nx using Cons.prems(2,4) by (intro not_full) simp_all
  moreover have "head s < capacity s" using Cons.prems(2,3) by (metis gr_implies_not0 mod_less_divisor neq0_conv)
  ultimately have s: "?s = s\<lparr>mq := (mq s)\<lparr>mp_head := (tail s + Suc j) mod capacity s,
      mp_data := (slots s)[head s := \<lparr>seq = head s, item = x\<rparr>]\<rparr>, claimed := claimed s @ [x]\<rparr>"
    unfolding nx [symmetric] by (rule push_whole [OF Cons.prems(1)])
  show ?case unfolding turns using Cons.IH [of ?s "Suc j"] Cons.prems unfolding s by simp
qed

text \<open>
  Producer 0 checks an empty ring; meanwhile producer 1 pushes an item, which is returned, and then
  fills the ring, so that the head is back at the index producer 0 has seen.
\<close>

definition lap_turns :: "'a \<Rightarrow> 'a list \<Rightarrow> 'a \<Rightarrow> (nat \<times> 'a) option list" where
  "lap_turns x ys z = replicate 2 (Some (0, z)) @ push_turns 1 [x] @ replicate 6 None @ push_turns 1 ys @
     replicate 3 (Some (0, z))"

lemma win_stale:
  assumes "producers s = (\<lambda>_. PIdle)(0 := PChecked 0 z)" and "head s = 0" and "tail s = 1" and "2 \<le> capacity s"
  shows "schedule (replicate 3 (Some (0, z'))) s =
    s\<lparr>producers := (\<lambda>_. PIdle), mq := (mq s)\<lparr>mp_head := 1, mp_data := (slots s)[0 := \<lparr>seq = 0, item = z\<rparr>]\<rparr>,
      claimed := claimed s @ [z]\<rparr>"
proof -
  have "0 < capacity s" using assms(4) by linarith
  moreover have "(\<lambda>_ :: nat. PIdle)(0 := PIdle) = (\<lambda>_. PIdle :: 'a producer)" by auto
  ultimately show ?thesis
    using assms by (simp add: numeral_eq_Suc produce_def set_producer_def set_slot_def slot_filled ring_next_def)
qed

lemma lap_run:
  fixes x z x0 :: 'a
  assumes "2 \<le> n" and "length ys = n - 1"
  defines "s \<equiv> schedule (lap_turns x ys z) (mpsc_init n x0)"
  shows "\<forall>p. producers s p = PIdle" and "consumer s = CIdle" and "claimed s = x # ys @ [z]" and "popped s = [x]"
    and "mp_empty (mq s)"
proof -
  let ?s1 = "schedule (replicate 2 (Some (0, z))) (mpsc_init n x0)"
  let ?s3 = "schedule (replicate 6 None) (schedule (push_turns 1 [x]) ?s1)"
  let ?s4 = "schedule (push_turns 1 ys) ?s3"
  have n: "0 < n" "1 mod n = 1" using assms(1) by simp_all
  have s1: "?s1 = (mpsc_init n x0)\<lparr>producers := (\<lambda>_. PIdle)(0 := PChecked 0 z)\<rparr>"
    using n by (simp add: numeral_eq_Suc produce_def set_producer_def mpsc_init_def mp_new_def ring_next_def)
  have s3: "producers ?s3 = (\<lambda>_. PIdle)(0 := PChecked 0 z) \<and> consumer ?s3 = CIdle \<and> claimed ?s3 = [x] \<and>
      popped ?s3 = [x] \<and> head ?s3 = 1 \<and> tail ?s3 = 1 \<and> capacity ?s3 = n"
    unfolding s1 push_turns_def using n
    by (simp add: push_whole mpsc_init_def mp_new_def ring_next_def)
      (simp add: numeral_eq_Suc consume_def set_slot_def ring_next_def invalid_index_def)
  then have s4: "capacity ?s4 = n \<and> tail ?s4 = 1 \<and> head ?s4 = 0 \<and> producers ?s4 = (\<lambda>_. PIdle)(0 := PChecked 0 z) \<and>
      consumer ?s4 = CIdle \<and> popped ?s4 = [x] \<and> claimed ?s4 = x # ys"
    using push_all [of ?s3 1 0 ys] assms(1,2) by simp
  then obtain t where t: "t = ?s4" "capacity t = n" "tail t = 1" "head t = 0"
    "producers t = (\<lambda>_. PIdle)(0 := PChecked 0 z)" "consumer t = CIdle" "popped t = [x]" "claimed t = x # ys" by blast
  have "s = schedule (replicate 3 (Some (0, z))) t"
    by (simp only: s_def lap_turns_def schedule_append t(1))
  also have "\<dots> = t\<lparr>producers := (\<lambda>_. PIdle),
      mq := (mq t)\<lparr>mp_head := 1, mp_data := (slots t)[0 := \<lparr>seq = 0, item = z\<rparr>]\<rparr>, claimed := claimed t @ [z]\<rparr>"
    using t(2-5) assms(1) by (intro win_stale) simp_all
  finally show "\<forall>p. producers s p = PIdle" and "consumer s = CIdle" and "claimed s = x # ys @ [z]"
    and "popped s = [x]" and "mp_empty (mq s)"
    using t(3,6-8) by (simp_all add: mp_empty_def)
qed

end
