(* ===== verification/Spsc_Concurrent.thy ===== *)
theory Spsc_Concurrent
  imports Queues
begin

text \<open>
  \<^verbatim>\<open>LockFreeQueue\<close> of \<^verbatim>\<open>LockFreeQueue.h\<close> with one producer and one consumer at a
  time, every access to the ring one step. The memory is sequentially consistent. The pushed and the
  popped items are kept beside the queue.
\<close>

section \<open>States and steps\<close>

datatype 'a sp_producer = SpIdle | SpLoaded nat 'a | SpChecked nat 'a | SpWritten nat 'a

datatype 'a sp_consumer = ScIdle | ScTail nat | ScSeen nat | ScTaken nat 'a

record 'a spsc =
  sq_ring :: "'a lf_queue"
  sp :: "'a sp_producer"
  sc :: "'a sp_consumer"
  pushed_items :: "'a list"
  popped_items :: "'a list"

definition spsc_init :: "nat \<Rightarrow> 'a \<Rightarrow> 'a spsc" where
  "spsc_init n x = \<lparr>sq_ring = lf_new n x, sp = SpIdle, sc = ScIdle, pushed_items = [], popped_items = []\<rparr>"

inductive spsc_step :: "'a spsc \<Rightarrow> 'a spsc \<Rightarrow> bool" where
  load_head: "sp s = SpIdle \<Longrightarrow> spsc_step s (s\<lparr>sp := SpLoaded (lf_head (sq_ring s)) x\<rparr>)"
| ring_full: "sp s = SpLoaded h x \<Longrightarrow> ring_next (lf_cap (sq_ring s)) h = lf_tail (sq_ring s) \<Longrightarrow>
    spsc_step s (s\<lparr>sp := SpIdle\<rparr>)"
| ring_room: "sp s = SpLoaded h x \<Longrightarrow> ring_next (lf_cap (sq_ring s)) h \<noteq> lf_tail (sq_ring s) \<Longrightarrow>
    spsc_step s (s\<lparr>sp := SpChecked h x\<rparr>)"
| write_item: "sp s = SpChecked h x \<Longrightarrow>
    spsc_step s (s\<lparr>sp := SpWritten h x, sq_ring := (sq_ring s)\<lparr>lf_data := (lf_data (sq_ring s))[h := x]\<rparr>\<rparr>)"
| publish: "sp s = SpWritten h x \<Longrightarrow>
    spsc_step s (s\<lparr>sp := SpIdle, sq_ring := (sq_ring s)\<lparr>lf_head := ring_next (lf_cap (sq_ring s)) h\<rparr>,
      pushed_items := pushed_items s @ [x]\<rparr>)"
| load_tail: "sc s = ScIdle \<Longrightarrow> spsc_step s (s\<lparr>sc := ScTail (lf_tail (sq_ring s))\<rparr>)"
| ring_empty: "sc s = ScTail t \<Longrightarrow> t = lf_head (sq_ring s) \<Longrightarrow> spsc_step s (s\<lparr>sc := ScIdle\<rparr>)"
| ring_item: "sc s = ScTail t \<Longrightarrow> t \<noteq> lf_head (sq_ring s) \<Longrightarrow> spsc_step s (s\<lparr>sc := ScSeen t\<rparr>)"
| read_item: "sc s = ScSeen t \<Longrightarrow> spsc_step s (s\<lparr>sc := ScTaken t (lf_data (sq_ring s) ! t)\<rparr>)"
| release: "sc s = ScTaken t x \<Longrightarrow>
    spsc_step s (s\<lparr>sc := ScIdle, sq_ring := (sq_ring s)\<lparr>lf_tail := ring_next (lf_cap (sq_ring s)) t\<rparr>,
      popped_items := popped_items s @ [x]\<rparr>)"

section \<open>The invariant\<close>

text \<open>
  What each thread has seen of the other's index stays true: a checked ring has room until the
  producer fills it, and a seen item stays until the consumer releases it.
\<close>

fun sp_ok :: "'a sp_producer \<Rightarrow> 'a lf_queue \<Rightarrow> bool" where
  "sp_ok SpIdle q \<longleftrightarrow> True"
| "sp_ok (SpLoaded h x) q \<longleftrightarrow> h = lf_head q"
| "sp_ok (SpChecked h x) q \<longleftrightarrow> h = lf_head q \<and> ring_next (lf_cap q) h \<noteq> lf_tail q"
| "sp_ok (SpWritten h x) q \<longleftrightarrow> h = lf_head q \<and> ring_next (lf_cap q) h \<noteq> lf_tail q \<and> lf_data q ! h = x"

fun sc_ok :: "'a sp_consumer \<Rightarrow> 'a lf_queue \<Rightarrow> bool" where
  "sc_ok ScIdle q \<longleftrightarrow> True"
| "sc_ok (ScTail t) q \<longleftrightarrow> t = lf_tail q"
| "sc_ok (ScSeen t) q \<longleftrightarrow> t = lf_tail q \<and> t \<noteq> lf_head q"
| "sc_ok (ScTaken t x) q \<longleftrightarrow> t = lf_tail q \<and> t \<noteq> lf_head q \<and> lf_data q ! t = x"

definition spsc_inv :: "'a spsc \<Rightarrow> bool" where
  "spsc_inv s \<longleftrightarrow> lf_inv (sq_ring s) \<and> pushed_items s = popped_items s @ lf_contents (sq_ring s) \<and>
     sp_ok (sp s) (sq_ring s) \<and> sc_ok (sc s) (sq_ring s)"

lemma contents_write_item:
  assumes "lf_inv q"
  shows "lf_contents (q\<lparr>lf_data := (lf_data q)[lf_head q := x]\<rparr>) = lf_contents q"
proof -
  have "lf_head q \<notin> set (ring_indices (lf_cap q) (lf_head q) (lf_tail q))"
    using assms ring_head_fresh by (simp add: lf_inv_def)
  then have "(lf_data q)[lf_head q := x] ! i = lf_data q ! i"
    if "i \<in> set (ring_indices (lf_cap q) (lf_head q) (lf_tail q))" for i
    using that by (metis nth_list_update_neq)
  then show ?thesis by (simp add: lf_contents_def lf_cap_def)
qed

lemma contents_publish:
  assumes "lf_inv q" and "ring_next (lf_cap q) (lf_head q) \<noteq> lf_tail q"
  shows "lf_contents (q\<lparr>lf_head := ring_next (lf_cap q) (lf_head q)\<rparr>) = lf_contents q @ [lf_data q ! lf_head q]"
  using assms by (simp add: lf_contents_def lf_cap_def lf_inv_def ring_indices_push)

lemma contents_release:
  assumes "lf_inv q" and "lf_tail q \<noteq> lf_head q"
  shows "lf_contents q = lf_data q ! lf_tail q # lf_contents (q\<lparr>lf_tail := ring_next (lf_cap q) (lf_tail q)\<rparr>)"
  using lf_contents_pop [OF assms(1)] assms(2) by (simp add: lf_contents_def lf_cap_def)

lemma ring_moves:
  assumes "lf_inv q"
  shows "lf_head q < length (lf_data q)" and "ring_next (lf_cap q) i < lf_cap q"
    and "lf_tail q \<noteq> lf_head q \<Longrightarrow> ring_next (lf_cap q) (lf_head q) \<noteq> ring_next (lf_cap q) (lf_tail q)"
  using assms ring_next_less [of "lf_cap q" "lf_head q" "lf_tail q" i]
  by (auto simp: lf_inv_def ring_ok_def lf_cap_def ring_next_cases split: if_splits)

lemma spsc_inv_step: "spsc_step s s' \<Longrightarrow> spsc_inv s \<Longrightarrow> spsc_inv s'"
proof (induction rule: spsc_step.induct)
  case (write_item s h x)
  then have q: "lf_inv (sq_ring s)" "h = lf_head (sq_ring s)" by (simp_all add: spsc_inv_def)
  with write_item contents_write_item [OF q(1), of x] ring_moves(1) [OF q(1)] show ?case
    by (cases "sc s") (auto simp: spsc_inv_def lf_inv_def lf_cap_def)
next
  case (publish s h x)
  then have q: "lf_inv (sq_ring s)" "h = lf_head (sq_ring s)" "ring_next (lf_cap (sq_ring s)) h \<noteq> lf_tail (sq_ring s)"
    by (auto simp: spsc_inv_def)
  with publish contents_publish [OF q(1) q(3) [unfolded q(2)]] ring_moves(2) [OF q(1)] show ?case
    by (cases "sc s") (auto simp: spsc_inv_def lf_inv_def lf_cap_def ring_ok_def)
next
  case (release s t x)
  then have q: "lf_inv (sq_ring s)" "t = lf_tail (sq_ring s)" "lf_tail (sq_ring s) \<noteq> lf_head (sq_ring s)"
    by (simp_all add: spsc_inv_def)
  with release contents_release [OF q(1,3)] ring_moves(2,3) [OF q(1)] show ?case
    by (cases "sp s") (auto simp: spsc_inv_def lf_inv_def lf_cap_def ring_ok_def)
qed (simp_all add: spsc_inv_def)

lemma spsc_inv_reachable:
  assumes "spsc_step\<^sup>*\<^sup>* (spsc_init n x) s" and "0 < n"
  shows "spsc_inv s" and "lf_cap (sq_ring s) = n"
proof -
  have "spsc_inv (spsc_init n x)"
    using assms(2) by (simp add: spsc_inv_def spsc_init_def lf_inv_new)
  with assms(1) show "spsc_inv s" by (induction rule: rtranclp_induct) (auto intro: spsc_inv_step)
  have "lf_cap (sq_ring s') = lf_cap (sq_ring s)" if "spsc_step s s'" for s s' :: "'a spsc"
    using that by (induction rule: spsc_step.induct) (simp_all add: lf_cap_def)
  with assms(1) show "lf_cap (sq_ring s) = n"
    by (induction rule: rtranclp_induct) (auto simp: spsc_init_def lf_cap_def lf_new_def)
qed

end
