(* ===== verification/Mpmc_Concurrent.thy ===== *)
theory Mpmc_Concurrent
  imports Queues
begin

text \<open>
  \<^verbatim>\<open>MPMCQueue\<close> of \<^verbatim>\<open>LockFreeQueue.h\<close> under any interleaving of any number of
  producers and consumers, every atomic access one step of one thread, on sequentially consistent
  memory. The items in the order in which their producers won the head index, and the items the
  consumers have returned, are kept beside the queue.
\<close>

section \<open>States and steps\<close>

datatype 'a mc_producer =
    McIdle | McLoaded nat 'a | McChecked nat 'a | McClaimed nat 'a | McFree nat 'a | McWritten nat 'a

datatype 'a mc_consumer =
    MqIdle | MqLoaded nat | MqSeen nat | MqClaimed nat | MqReady nat | MqTaken nat 'a

record 'a mpmc =
  mc_ring :: "'a mp_queue"
  mc_producers :: "nat \<Rightarrow> 'a mc_producer"
  mc_consumers :: "nat \<Rightarrow> 'a mc_consumer"
  mc_claimed :: "'a list"
  mc_returned :: "'a list"

definition mc_producer :: "nat \<Rightarrow> 'a mc_producer \<Rightarrow> 'a mpmc \<Rightarrow> 'a mpmc" where
  "mc_producer p st s = s\<lparr>mc_producers := (mc_producers s)(p := st)\<rparr>"

definition mc_consumer :: "nat \<Rightarrow> 'a mc_consumer \<Rightarrow> 'a mpmc \<Rightarrow> 'a mpmc" where
  "mc_consumer c st s = s\<lparr>mc_consumers := (mc_consumers s)(c := st)\<rparr>"

definition mc_slot :: "nat \<Rightarrow> ('a slot \<Rightarrow> 'a slot) \<Rightarrow> 'a mpmc \<Rightarrow> 'a mpmc" where
  "mc_slot i f s = s\<lparr>mc_ring := (mc_ring s)\<lparr>mp_data := (mp_data (mc_ring s))[i := f (mp_data (mc_ring s) ! i)]\<rparr>\<rparr>"

definition mpmc_init :: "nat \<Rightarrow> 'a \<Rightarrow> 'a mpmc" where
  "mpmc_init n x = \<lparr>mc_ring = mp_new n x, mc_producers = (\<lambda>_. McIdle), mc_consumers = (\<lambda>_. MqIdle),
     mc_claimed = [], mc_returned = []\<rparr>"

text \<open>A failed exchange, which may also fail for no reason, loads the index anew.\<close>

inductive mpmc_step :: "'a mpmc \<Rightarrow> 'a mpmc \<Rightarrow> bool" where
  push_load: "mc_producers s p = McIdle \<Longrightarrow> mpmc_step s (mc_producer p (McLoaded (mp_head (mc_ring s)) x) s)"
| push_full: "mc_producers s p = McLoaded h x \<Longrightarrow> ring_next (mp_cap (mc_ring s)) h = mp_tail (mc_ring s) \<Longrightarrow>
    mpmc_step s (mc_producer p McIdle s)"
| push_check: "mc_producers s p = McLoaded h x \<Longrightarrow> ring_next (mp_cap (mc_ring s)) h \<noteq> mp_tail (mc_ring s) \<Longrightarrow>
    mpmc_step s (mc_producer p (McChecked h x) s)"
| push_won: "mc_producers s p = McChecked h x \<Longrightarrow> mp_head (mc_ring s) = h \<Longrightarrow>
    mpmc_step s ((mc_producer p (McClaimed h x) s)
      \<lparr>mc_ring := (mc_ring s)\<lparr>mp_head := ring_next (mp_cap (mc_ring s)) h\<rparr>, mc_claimed := mc_claimed s @ [x]\<rparr>)"
| push_lost: "mc_producers s p = McChecked h x \<Longrightarrow>
    mpmc_step s (mc_producer p (McLoaded (mp_head (mc_ring s)) x) s)"
| push_spin: "mc_producers s p = McClaimed h x \<Longrightarrow> seq (mp_data (mc_ring s) ! h) \<noteq> invalid_index (mc_ring s) \<Longrightarrow>
    mpmc_step s s"
| push_free: "mc_producers s p = McClaimed h x \<Longrightarrow> seq (mp_data (mc_ring s) ! h) = invalid_index (mc_ring s) \<Longrightarrow>
    mpmc_step s (mc_producer p (McFree h x) s)"
| push_item: "mc_producers s p = McFree h x \<Longrightarrow>
    mpmc_step s (mc_producer p (McWritten h x) (mc_slot h (\<lambda>r. r\<lparr>item := x\<rparr>) s))"
| push_seq: "mc_producers s p = McWritten h x \<Longrightarrow>
    mpmc_step s (mc_producer p McIdle (mc_slot h (\<lambda>r. r\<lparr>seq := h\<rparr>) s))"
| pop_load: "mc_consumers s c = MqIdle \<Longrightarrow> mpmc_step s (mc_consumer c (MqLoaded (mp_tail (mc_ring s))) s)"
| pop_empty: "mc_consumers s c = MqLoaded t \<Longrightarrow> t = mp_head (mc_ring s) \<Longrightarrow> mpmc_step s (mc_consumer c MqIdle s)"
| pop_check: "mc_consumers s c = MqLoaded t \<Longrightarrow> t \<noteq> mp_head (mc_ring s) \<Longrightarrow> mpmc_step s (mc_consumer c (MqSeen t) s)"
| pop_won: "mc_consumers s c = MqSeen t \<Longrightarrow> mp_tail (mc_ring s) = t \<Longrightarrow>
    mpmc_step s ((mc_consumer c (MqClaimed t) s)
      \<lparr>mc_ring := (mc_ring s)\<lparr>mp_tail := ring_next (mp_cap (mc_ring s)) t\<rparr>\<rparr>)"
| pop_lost: "mc_consumers s c = MqSeen t \<Longrightarrow> mpmc_step s (mc_consumer c (MqLoaded (mp_tail (mc_ring s))) s)"
| pop_spin: "mc_consumers s c = MqClaimed t \<Longrightarrow> seq (mp_data (mc_ring s) ! t) \<noteq> t \<Longrightarrow> mpmc_step s s"
| pop_ready: "mc_consumers s c = MqClaimed t \<Longrightarrow> seq (mp_data (mc_ring s) ! t) = t \<Longrightarrow>
    mpmc_step s (mc_consumer c (MqReady t) s)"
| pop_item: "mc_consumers s c = MqReady t \<Longrightarrow>
    mpmc_step s (mc_consumer c (MqTaken t (item (mp_data (mc_ring s) ! t))) s)"
| pop_clear: "mc_consumers s c = MqTaken t x \<Longrightarrow>
    mpmc_step s ((mc_consumer c MqIdle (mc_slot t (\<lambda>r. r\<lparr>seq := invalid_index (mc_ring s)\<rparr>) s))
      \<lparr>mc_returned := mc_returned s @ [x]\<rparr>)"

section \<open>Schedules\<close>

text \<open>The next step of a producer, who pushes \<open>x\<close> when idle, and of a consumer.\<close>

definition mc_produce :: "nat \<Rightarrow> 'a \<Rightarrow> 'a mpmc \<Rightarrow> 'a mpmc" where
  "mc_produce p x s =
     (case mc_producers s p of
        McIdle \<Rightarrow> mc_producer p (McLoaded (mp_head (mc_ring s)) x) s
      | McLoaded h y \<Rightarrow>
          if ring_next (mp_cap (mc_ring s)) h = mp_tail (mc_ring s) then mc_producer p McIdle s
          else mc_producer p (McChecked h y) s
      | McChecked h y \<Rightarrow>
          if mp_head (mc_ring s) = h then (mc_producer p (McClaimed h y) s)
            \<lparr>mc_ring := (mc_ring s)\<lparr>mp_head := ring_next (mp_cap (mc_ring s)) h\<rparr>, mc_claimed := mc_claimed s @ [y]\<rparr>
          else mc_producer p (McLoaded (mp_head (mc_ring s)) y) s
      | McClaimed h y \<Rightarrow>
          if seq (mp_data (mc_ring s) ! h) = invalid_index (mc_ring s) then mc_producer p (McFree h y) s else s
      | McFree h y \<Rightarrow> mc_producer p (McWritten h y) (mc_slot h (\<lambda>r. r\<lparr>item := y\<rparr>) s)
      | McWritten h y \<Rightarrow> mc_producer p McIdle (mc_slot h (\<lambda>r. r\<lparr>seq := h\<rparr>) s))"

definition mc_consume :: "nat \<Rightarrow> 'a mpmc \<Rightarrow> 'a mpmc" where
  "mc_consume c s =
     (case mc_consumers s c of
        MqIdle \<Rightarrow> mc_consumer c (MqLoaded (mp_tail (mc_ring s))) s
      | MqLoaded t \<Rightarrow> mc_consumer c (if t = mp_head (mc_ring s) then MqIdle else MqSeen t) s
      | MqSeen t \<Rightarrow>
          if mp_tail (mc_ring s) = t then (mc_consumer c (MqClaimed t) s)
            \<lparr>mc_ring := (mc_ring s)\<lparr>mp_tail := ring_next (mp_cap (mc_ring s)) t\<rparr>\<rparr>
          else mc_consumer c (MqLoaded (mp_tail (mc_ring s))) s
      | MqClaimed t \<Rightarrow> if seq (mp_data (mc_ring s) ! t) = t then mc_consumer c (MqReady t) s else s
      | MqReady t \<Rightarrow> mc_consumer c (MqTaken t (item (mp_data (mc_ring s) ! t))) s
      | MqTaken t x \<Rightarrow>
          (mc_consumer c MqIdle (mc_slot t (\<lambda>r. r\<lparr>seq := invalid_index (mc_ring s)\<rparr>) s))
            \<lparr>mc_returned := mc_returned s @ [x]\<rparr>)"

lemma mc_produce_step: "mpmc_step s (mc_produce p x s)"
  by (auto simp: mc_produce_def split: mc_producer.splits intro: mpmc_step.intros)

lemma mc_consume_step: "mpmc_step s (mc_consume c s)"
  by (auto simp: mc_consume_def split: mc_consumer.splits intro: mpmc_step.intros)

datatype 'a mc_turn = Produce nat 'a | Consume nat

fun mc_schedule :: "'a mc_turn list \<Rightarrow> 'a mpmc \<Rightarrow> 'a mpmc" where
  "mc_schedule [] s = s"
| "mc_schedule (Produce p x # as) s = mc_schedule as (mc_produce p x s)"
| "mc_schedule (Consume c # as) s = mc_schedule as (mc_consume c s)"

lemma mc_schedule_steps: "mpmc_step\<^sup>*\<^sup>* s (mc_schedule as s)"
  by (induction as s rule: mc_schedule.induct)
    (auto intro: converse_rtranclp_into_rtranclp mc_produce_step mc_consume_step)

lemmas mc_eval =
  mc_produce_def mc_consume_def mc_producer_def mc_consumer_def mc_slot_def mpmc_init_def mp_new_def
  mp_cap_def invalid_index_def ring_next_def

text \<open>Running alone, six steps of a producer are \<^verbatim>\<open>push\<close>, and six of a consumer \<^verbatim>\<open>pop\<close>.\<close>

lemma mc_push_alone:
  assumes "mc_producers s p = McIdle" and "ring_next (mp_cap (mc_ring s)) (mp_head (mc_ring s)) \<noteq> mp_tail (mc_ring s)"
    and "mp_head (mc_ring s) < mp_cap (mc_ring s)"
    and "seq (mp_data (mc_ring s) ! mp_head (mc_ring s)) = invalid_index (mc_ring s)"
  shows "mpmc_push x (mc_ring s) = Some (True, mc_ring (mc_schedule (replicate 6 (Produce p x)) s))"
  using assms
  by (simp add: mpmc_push_def mc_produce_def mc_producer_def mc_slot_def mp_cap_def invalid_index_def Let_def
      numeral_eq_Suc slot_filled)

lemma mc_pop_alone:
  assumes "mc_consumers s c = MqIdle" and "mp_tail (mc_ring s) \<noteq> mp_head (mc_ring s)"
    and "seq (mp_data (mc_ring s) ! mp_tail (mc_ring s)) = mp_tail (mc_ring s)"
  shows "mpmc_pop (mc_ring s) = Some (Some (item (mp_data (mc_ring s) ! mp_tail (mc_ring s))),
    mc_ring (mc_schedule (replicate 6 (Consume c)) s))"
  using assms
  by (simp add: mpmc_pop_def mc_consume_def mc_consumer_def mc_slot_def mp_cap_def invalid_index_def Let_def
      numeral_eq_Suc)

end
