(* ===== verification/Thread_Pool.thy ===== *)
theory Thread_Pool
  imports Blocking_Queues "HOL-Library.Multiset"
begin

text \<open>
  The thread pool of \<^verbatim>\<open>thread_pool.h\<close> and \<^verbatim>\<open>thread_pool.cpp\<close>: its tasks, its workers, the
  thread for callbacks and \<^verbatim>\<open>join\<close>. An operation of its queues is one step.
\<close>

section \<open>Tasks\<close>

text \<open>A callable returns or throws; a callback is given the result, no value, or the exception.\<close>

datatype ('v, 'e) call_result = Returns 'v | Throws 'e
datatype ('v, 'e) pool_result = Got 'v | GotNothing | GotException 'e

type_synonym ('v, 'e, 'a) callable = "'a \<Rightarrow> ('v, 'e) call_result \<times> 'a"
type_synonym ('v, 'e, 'a) pool_cb = "('v, 'e) pool_result \<Rightarrow> 'a \<Rightarrow> 'e option \<times> 'a"

text \<open>
  The lambda of \<^verbatim>\<open>put\<close>, with callbacks called by the worker itself, as
  \<^verbatim>\<open>use_async_cb\<close> is never set: the call of the callback is inside the \<^verbatim>\<open>try\<close>,
  so an exception it throws calls it again. The result is the exception that leaves the task.
\<close>

definition pool_task :: "bool \<Rightarrow> ('v, 'e, 'a) callable \<Rightarrow> ('v, 'e, 'a) pool_cb option \<Rightarrow> 'a \<Rightarrow> 'e option \<times> 'a" where
  "pool_task is_void func cb a =
     (case func a of
        (Throws e, a) \<Rightarrow> (case cb of None \<Rightarrow> (None, a) | Some f \<Rightarrow> f (GotException e) a)
      | (Returns v, a) \<Rightarrow>
          (case cb of
             None \<Rightarrow> (None, a)
           | Some f \<Rightarrow>
               (case f (if is_void then GotNothing else Got v) a of
                  (None, a) \<Rightarrow> (None, a)
                | (Some e, a) \<Rightarrow> f (GotException e) a)))"

text \<open>How often the callback is called: once, and once more when the first call throws.\<close>

lemma pool_task_calls:
  assumes "func a = (Returns v, a1)"
  shows "f (Got v) a1 = (None, a2) \<Longrightarrow> pool_task False func (Some f) a = (None, a2)"
    and "f (Got v) a1 = (Some e, a2) \<Longrightarrow> pool_task False func (Some f) a = f (GotException e) a2"
  using assms by (simp_all add: pool_task_def)

section \<open>The pool\<close>

text \<open>A job is a task with a number; what the tasks do is on the state of the application.\<close>

type_synonym ('e, 'a) job = "nat \<times> ('a \<Rightarrow> 'e option \<times> 'a)"

datatype ('e, 'a) worker = Working | Running "('e, 'a) job" | Exited

datatype joiner = JStart | JShut | JFlag | JWorkers | JCallbacks | JDone

record ('e, 'a) pool =
  tasks :: "('e, 'a) job spin_queue"
  cb_tasks :: "('e, 'a) job spin_queue"
  joined :: bool
  workers :: "('e, 'a) worker list"
  cb_thread :: "('e, 'a) worker"
  joiner :: joiner
  pool_app :: 'a
  accepted :: "nat list"
  started :: "nat list"
  finished :: "nat list"

definition pool_init :: "nat \<Rightarrow> 'a \<Rightarrow> ('e, 'a) pool" where
  "pool_init n a =
     \<lparr>tasks = sq_new, cb_tasks = sq_new, joined = False, workers = replicate n Working, cb_thread = Working,
      joiner = JStart, pool_app = a, accepted = [], started = [], finished = []\<rparr>"

text \<open>Any thread may \<^verbatim>\<open>put\<close> at any time; one thread calls \<^verbatim>\<open>join\<close>.\<close>

inductive pool_step :: "('e, 'a) pool \<Rightarrow> ('e, 'a) pool \<Rightarrow> bool" where
  put: "pool_step s (s\<lparr>tasks := sq_push j (tasks s),
      accepted := accepted s @ (if sq_stopped (tasks s) then [] else [fst j])\<rparr>)"
| run_pop: "i < length (workers s) \<Longrightarrow> workers s ! i = Working \<Longrightarrow> sq_pop (tasks s) = Some (Some j, q) \<Longrightarrow>
    pool_step s (s\<lparr>tasks := q, workers := (workers s)[i := Running j], started := started s @ [fst j]\<rparr>)"
| run_task: "i < length (workers s) \<Longrightarrow> workers s ! i = Running j \<Longrightarrow>
    pool_step s (s\<lparr>workers := (workers s)[i := Working], pool_app := snd (snd j (pool_app s)),
      finished := finished s @ [fst j]\<rparr>)"
| run_again: "i < length (workers s) \<Longrightarrow> workers s ! i = Working \<Longrightarrow> sq_pop (tasks s) = Some (None, q) \<Longrightarrow>
    \<not> (joined s \<and> sq_empty q) \<Longrightarrow> pool_step s (s\<lparr>tasks := q\<rparr>)"
| run_exit: "i < length (workers s) \<Longrightarrow> workers s ! i = Working \<Longrightarrow> sq_pop (tasks s) = Some (None, q) \<Longrightarrow>
    joined s \<Longrightarrow> sq_empty q \<Longrightarrow> pool_step s (s\<lparr>tasks := q, workers := (workers s)[i := Exited]\<rparr>)"
| join_shutdown: "joiner s = JStart \<Longrightarrow> pool_step s (s\<lparr>joiner := JShut, tasks := sq_shutdown (tasks s)\<rparr>)"
| join_flag: "joiner s = JShut \<Longrightarrow> pool_step s (s\<lparr>joiner := JFlag, joined := True\<rparr>)"
| join_workers: "joiner s = JFlag \<Longrightarrow> \<forall>w \<in> set (workers s). w = Exited \<Longrightarrow>
    pool_step s (s\<lparr>joiner := JWorkers\<rparr>)"
| join_callbacks: "joiner s = JWorkers \<Longrightarrow>
    pool_step s (s\<lparr>joiner := JCallbacks, cb_tasks := sq_shutdown (cb_tasks s)\<rparr>)"
| join_done: "joiner s = JCallbacks \<Longrightarrow> cb_thread s = Exited \<Longrightarrow> pool_step s (s\<lparr>joiner := JDone\<rparr>)"
| enqueue_callback: "pool_step s (s\<lparr>cb_tasks := sq_push j (cb_tasks s)\<rparr>)"
| cb_pop: "cb_thread s = Working \<Longrightarrow> sq_pop (cb_tasks s) = Some (Some j, q) \<Longrightarrow>
    pool_step s (s\<lparr>cb_tasks := q, cb_thread := Running j\<rparr>)"
| cb_task: "cb_thread s = Running j \<Longrightarrow>
    pool_step s (s\<lparr>cb_thread := Working, pool_app := snd (snd j (pool_app s))\<rparr>)"
| cb_again: "cb_thread s = Working \<Longrightarrow> sq_pop (cb_tasks s) = Some (None, q) \<Longrightarrow> \<not> (joined s \<and> sq_empty q) \<Longrightarrow>
    pool_step s (s\<lparr>cb_tasks := q\<rparr>)"
| cb_exit: "cb_thread s = Working \<Longrightarrow> sq_pop (cb_tasks s) = Some (None, q) \<Longrightarrow> joined s \<Longrightarrow> sq_empty q \<Longrightarrow>
    pool_step s (s\<lparr>cb_tasks := q, cb_thread := Exited\<rparr>)"

text \<open>Accepted tasks are started in order; started tasks are running or finished; a worker leaves only
  when the queue is closed and empty.\<close>

fun running_job :: "('e, 'a) worker \<Rightarrow> nat multiset" where
  "running_job (Running j) = {#fst j#}"
| "running_job _ = {#}"

definition running_jobs :: "('e, 'a) worker list \<Rightarrow> nat multiset" where
  "running_jobs ws = \<Sum>\<^sub># (image_mset running_job (mset ws))"

lemma running_jobs_update:
  "i < length ws \<Longrightarrow> running_jobs (ws[i := w]) + running_job (ws ! i) = running_jobs ws + running_job w"
proof (induction ws arbitrary: i)
  case (Cons v ws)
  then show ?case by (cases i) (auto simp: running_jobs_def add.commute add.left_commute)
qed simp

lemma running_jobs_exited: "\<forall>w \<in> set ws. w = Exited \<Longrightarrow> running_jobs ws = {#}"
  by (induction ws) (simp_all add: running_jobs_def)

definition pool_inv :: "('e, 'a) pool \<Rightarrow> bool" where
  "pool_inv s \<longleftrightarrow>
     accepted s = started s @ map fst (sq_items (tasks s)) \<and>
     mset (started s) = mset (finished s) + running_jobs (workers s) \<and>
     (joiner s \<noteq> JStart \<longrightarrow> sq_stopped (tasks s)) \<and>
     (Exited \<in> set (workers s) \<longrightarrow> sq_stopped (tasks s) \<and> sq_items (tasks s) = []) \<and>
     (joiner s \<in> {JWorkers, JCallbacks, JDone} \<longrightarrow> (\<forall>w \<in> set (workers s). w = Exited))"

lemma pool_invD:
  assumes "pool_inv s"
  shows "accepted s = started s @ map fst (sq_items (tasks s))"
    "mset (started s) = mset (finished s) + running_jobs (workers s)"
    "joiner s \<noteq> JStart \<Longrightarrow> sq_stopped (tasks s)"
    "Exited \<in> set (workers s) \<Longrightarrow> sq_stopped (tasks s) \<and> sq_items (tasks s) = []"
    "joiner s \<in> {JWorkers, JCallbacks, JDone} \<Longrightarrow> w \<in> set (workers s) \<Longrightarrow> w = Exited"
  using assms by (auto simp: pool_inv_def)

lemma exited_update: "Exited \<in> set (ws[i := w]) \<Longrightarrow> w \<noteq> Exited \<Longrightarrow> Exited \<in> set ws"
  using set_update_subset_insert [of ws i w] by auto

text \<open>A worker that is still in its loop: the pool is not past joining the workers.\<close>

lemma worker_active:
  "pool_inv s \<Longrightarrow> i < length (workers s) \<Longrightarrow> workers s ! i \<noteq> Exited \<Longrightarrow> joiner s \<notin> {JWorkers, JCallbacks, JDone}"
  using pool_invD(5) [of s] nth_mem [of i "workers s"] by blast

lemma pool_inv_step: "pool_step s s' \<Longrightarrow> pool_inv s \<Longrightarrow> pool_inv s'"
proof (induction rule: pool_step.induct)
  case (put s j)
  note inv = pool_invD [OF put]
  show ?case
    unfolding pool_inv_def using inv sq.push_law [of j "tasks s"] by (auto split: if_splits)
next
  case (run_pop i s j q)
  note inv = pool_invD [OF run_pop(4)]
  have q: "sq_items (tasks s) = j # sq_items q" "sq_stopped q = sq_stopped (tasks s)"
    using sq.pop_some [OF run_pop(3)] by simp_all
  have jobs: "running_jobs ((workers s)[i := Running j]) = add_mset (fst j) (running_jobs (workers s))"
    using running_jobs_update [OF run_pop(1), of "Running j"] run_pop(2) by simp
  have ex: "Exited \<notin> set ((workers s)[i := Running j])"
    using exited_update [of "workers s" i "Running j"] inv(4) q(1) by auto
  have act: "joiner s \<notin> {JWorkers, JCallbacks, JDone}" using worker_active [OF run_pop(4,1)] run_pop(2) by simp
  show ?case unfolding pool_inv_def using inv(1-3) q jobs ex act by auto
next
  case (run_task i s j)
  note inv = pool_invD [OF run_task(3)]
  have jobs: "add_mset (fst j) (running_jobs ((workers s)[i := Working])) = running_jobs (workers s)"
    using running_jobs_update [OF run_task(1), of Working] run_task(2) by simp
  have act: "joiner s \<notin> {JWorkers, JCallbacks, JDone}" using worker_active [OF run_task(3,1)] run_task(2) by simp
  have "mset (started s) = mset (finished s @ [fst j]) + running_jobs ((workers s)[i := Working])"
    using inv(2) jobs by (metis add_mset_add_single mset.simps(1,2) mset_append union_assoc union_mset_add_mset_right
        add_mset_add_single union_commute)
  with act show ?case unfolding pool_inv_def using inv(1,3,4) exited_update [of "workers s" i Working] by auto
next
  case (run_again i s q)
  then show ?case using sq.pop_none [OF run_again(3)] by (simp add: pool_inv_def)
next
  case (run_exit i s q)
  note inv = pool_invD [OF run_exit(6)]
  have q: "sq_items (tasks s) = []" "sq_stopped (tasks s)" "q = tasks s" using sq.pop_none [OF run_exit(3)] by simp_all
  have jobs: "running_jobs ((workers s)[i := Exited]) = running_jobs (workers s)"
    using running_jobs_update [OF run_exit(1), of Exited] run_exit(2) by simp
  have act: "joiner s \<notin> {JWorkers, JCallbacks, JDone}" using worker_active [OF run_exit(6,1)] run_exit(2) by simp
  show ?case unfolding pool_inv_def using inv(1,2) q jobs act by auto
next
  case (join_shutdown s)
  then show ?case using sq.shutdown_law [of "tasks s"] by (auto simp: pool_inv_def)
qed (auto simp: pool_inv_def)

lemma running_jobs_new [simp]: "running_jobs (replicate n Working) = {#}"
  by (induction n) (simp_all add: running_jobs_def)

lemma pool_inv_reachable: "pool_step\<^sup>*\<^sup>* (pool_init n a) s \<Longrightarrow> pool_inv s"
proof (induction rule: rtranclp_induct)
  case base
  show ?case by (auto simp: pool_inv_def pool_init_def sq_new_def)
next
  case (step s s')
  then show ?case using pool_inv_step by blast
qed

lemma pool_workers_length: "pool_step\<^sup>*\<^sup>* (pool_init n a) s \<Longrightarrow> length (workers s) = n"
proof (induction rule: rtranclp_induct)
  case base
  then show ?case by (simp add: pool_init_def)
next
  case (step s s')
  from step(2) have "length (workers s') = length (workers s)" by (induction rule: pool_step.induct) simp_all
  with step(3) show ?case by simp
qed

end
