(* ===== verification/Pool_Progress.thy ===== *)
theory Pool_Progress
  imports Thread_Pool Simulation
begin

text \<open>
  Joining the thread pool can always be completed, from any state that putting, running and joining have led to.
\<close>

text \<open>The flag and the queue of the callback thread follow the progress of \<^verbatim>\<open>join\<close>.\<close>

definition join_inv :: "('e, 'a) pool \<Rightarrow> bool" where
  "join_inv s \<longleftrightarrow> pool_inv s \<and> (joined s \<longleftrightarrow> joiner s \<notin> {JStart, JShut}) \<and>
     (joiner s \<in> {JCallbacks, JDone} \<longrightarrow> sq_stopped (cb_tasks s))"

lemma join_inv_step: "pool_step s s' \<Longrightarrow> join_inv s \<Longrightarrow> join_inv s'"
proof -
  assume st: "pool_step s s'" and inv: "join_inv s"
  have "pool_inv s'" using pool_inv_step [OF st] inv by (simp add: join_inv_def)
  moreover have "(joined s' \<longleftrightarrow> joiner s' \<notin> {JStart, JShut}) \<and> (joiner s' \<in> {JCallbacks, JDone} \<longrightarrow> sq_stopped (cb_tasks s'))"
    using st
  proof cases
    case (cb_pop j q)
    with inv sq.pop_some [OF cb_pop(3)] show ?thesis by (simp add: join_inv_def)
  next
    case (cb_again q)
    with inv sq.pop_none [OF cb_again(3)] show ?thesis by (simp add: join_inv_def)
  next
    case (cb_exit q)
    with inv sq.pop_none [OF cb_exit(3)] show ?thesis by (simp add: join_inv_def)
  qed (use inv in \<open>auto simp: join_inv_def sq_push_def sq_shutdown_def\<close>)
  ultimately show ?thesis by (simp add: join_inv_def)
qed

lemma join_inv_init: "join_inv (pool_init n a)"
  by (auto simp: join_inv_def pool_inv_def pool_init_def sq_new_def)

lemma join_inv_reachable: "pool_step\<^sup>*\<^sup>* (pool_init n a) s \<Longrightarrow> join_inv s"
  by (induction rule: rtranclp_induct) (simp_all only: join_inv_init join_inv_step)

text \<open>When \<^verbatim>\<open>join\<close> has returned, everything that was accepted has been run.\<close>

lemma pool_done:
  assumes inv: "pool_inv s" and "workers s \<noteq> []" and "joiner s = JDone"
  shows "started s = accepted s" and "mset (finished s) = mset (accepted s)" and "sq_items (tasks s) = []"
    and "sq_stopped (tasks s)"
proof -
  have all: "\<forall>w \<in> set (workers s). w = Exited" using pool_invD(5) [OF inv] assms(3) by simp
  then have "Exited \<in> set (workers s)" using assms(2) by (cases "workers s") auto
  with pool_invD(4) [OF inv] show e: "sq_items (tasks s) = []" "sq_stopped (tasks s)" by simp_all
  with pool_invD(1,2) [OF inv] running_jobs_exited [OF all]
  show "started s = accepted s" "mset (finished s) = mset (accepted s)" by simp_all
qed

section \<open>Progress\<close>

fun worker_rank :: "('e, 'a) worker \<Rightarrow> nat" where
  "worker_rank Working = 1" | "worker_rank (Running j) = 2" | "worker_rank Exited = 0"

fun joiner_rank :: "joiner \<Rightarrow> nat" where
  "joiner_rank JStart = 5" | "joiner_rank JShut = 4" | "joiner_rank JFlag = 3" | "joiner_rank JWorkers = 2"
| "joiner_rank JCallbacks = 1" | "joiner_rank JDone = 0"

definition pool_rank :: "('e, 'a) pool \<Rightarrow> nat" where
  "pool_rank s = 2 * length (sq_items (tasks s)) + sum_list (map worker_rank (workers s)) +
     2 * length (sq_items (cb_tasks s)) + worker_rank (cb_thread s) + joiner_rank (joiner s)"

text \<open>A step that puts nothing.\<close>

definition closing_step :: "('e, 'a) pool \<Rightarrow> ('e, 'a) pool \<Rightarrow> bool" where
  "closing_step s s' \<longleftrightarrow> pool_step s s' \<and> accepted s' = accepted s \<and> pool_rank s' < pool_rank s"

lemma queue_pop: "sq_items q = j # js \<Longrightarrow> sq_pop q = Some (Some j, q\<lparr>sq_items := js\<rparr>)"
  "sq_items q = [] \<Longrightarrow> sq_stopped q \<Longrightarrow> sq_pop q = Some (None, q)"
  by (simp_all add: sq_pop_def)

lemma worker_closing:
  assumes "i < length (workers s)" and "workers s ! i \<noteq> Exited"
    and "workers s ! i = Working \<Longrightarrow> sq_items (tasks s) = [] \<Longrightarrow> sq_stopped (tasks s) \<and> joined s"
  shows "\<exists>s'. closing_step s s'"
proof (cases "workers s ! i")
  case (Running j)
  with run_task [OF assms(1) Running] sum_list_map_update [of _ _ worker_rank, OF assms(1), of Working] show ?thesis
    by (intro exI) (auto simp: closing_step_def pool_rank_def)
next
  case Working
  show ?thesis
  proof (cases "sq_items (tasks s)")
    case (Cons j js)
    with run_pop [OF assms(1) Working queue_pop(1) [OF Cons]] sum_list_map_update [of _ _ worker_rank, OF assms(1), of "Running j"] Working show ?thesis
      by (intro exI) (auto simp: closing_step_def pool_rank_def)
  next
    case Nil
    with assms(3) Working have q: "sq_stopped (tasks s)" "joined s" by simp_all
    have "sq_empty (tasks s)" using Nil by (simp add: sq_empty_def)
    with run_exit [OF assms(1) Working queue_pop(2) [OF Nil q(1)] q(2)] sum_list_map_update [of _ _ worker_rank, OF assms(1), of Exited] Working show ?thesis
      by (intro exI) (auto simp: closing_step_def pool_rank_def)
  qed
qed (use assms(2) in simp)

lemma callback_closing:
  assumes "cb_thread s \<noteq> Exited" and "sq_stopped (cb_tasks s)" and "joined s"
  shows "\<exists>s'. closing_step s s'"
proof (cases "cb_thread s")
  case (Running j)
  with cb_task [OF Running] show ?thesis by (intro exI) (auto simp: closing_step_def pool_rank_def)
next
  case Working
  show ?thesis
  proof (cases "sq_items (cb_tasks s)")
    case (Cons j js)
    with cb_pop [OF Working queue_pop(1) [OF Cons]] Working show ?thesis
      by (intro exI) (auto simp: closing_step_def pool_rank_def)
  next
    case Nil
    have "sq_empty (cb_tasks s)" using Nil by (simp add: sq_empty_def)
    with cb_exit [OF Working queue_pop(2) [OF Nil assms(2)] assms(3)] Working show ?thesis
      by (intro exI) (auto simp: closing_step_def pool_rank_def)
  qed
qed (use assms(1) in simp)

lemma pool_closing:
  assumes inv: "join_inv s" and "joiner s \<noteq> JDone"
  shows "\<exists>s'. closing_step s s'"
proof -
  note pi = pool_invD [OF conjunct1 [OF inv [unfolded join_inv_def]]]
  have go: "\<exists>s'. closing_step s s'" if "pool_step s s'" "accepted s' = accepted s" "pool_rank s' < pool_rank s" for s'
    using that by (auto simp: closing_step_def)
  show ?thesis
  proof (cases "joiner s")
    case JStart
    show ?thesis by (rule go [OF join_shutdown [OF JStart]]) (simp_all add: pool_rank_def JStart sq_shutdown_def)
  next
    case JShut
    show ?thesis by (rule go [OF join_flag [OF JShut]]) (simp_all add: pool_rank_def JShut)
  next
    case JFlag
    show ?thesis
    proof (cases "\<forall>w \<in> set (workers s). w = Exited")
      case True
      show ?thesis by (rule go [OF join_workers [OF JFlag True]]) (simp_all add: pool_rank_def JFlag)
    next
      case False
      then obtain i where i: "i < length (workers s)" "workers s ! i \<noteq> Exited" by (auto simp: in_set_conv_nth)
      have "sq_stopped (tasks s)" "joined s" using pi(3) inv JFlag by (simp_all add: join_inv_def)
      then show ?thesis by (intro worker_closing [OF i]) simp
    qed
  next
    case JWorkers
    show ?thesis by (rule go [OF join_callbacks [OF JWorkers]]) (simp_all add: pool_rank_def JWorkers sq_shutdown_def)
  next
    case JCallbacks
    show ?thesis
    proof (cases "cb_thread s = Exited")
      case True
      show ?thesis by (rule go [OF join_done [OF JCallbacks True]]) (simp_all add: pool_rank_def JCallbacks)
    next
      case False
      with inv JCallbacks show ?thesis by (intro callback_closing) (simp_all add: join_inv_def)
    qed
  qed (use assms(2) in simp)
qed

lemma pool_advances:
  assumes "join_inv s" and "joiner s \<noteq> JDone"
  shows "\<exists>s'. closing_step\<^sup>*\<^sup>* s s' \<and> join_inv s' \<and> pool_rank s' < pool_rank s"
proof -
  from pool_closing [OF assms] obtain s' where s': "closing_step s s'" by blast
  moreover have "join_inv s'" using join_inv_step [of s s'] s' assms(1) by (simp add: closing_step_def)
  moreover have "pool_rank s' < pool_rank s" using s' by (simp add: closing_step_def)
  ultimately show ?thesis by blast
qed

interpretation joining: progress closing_step join_inv "\<lambda>s. joiner s = JDone" pool_rank
  by unfold_locales (rule pool_advances)

lemma closing_run: "closing_step\<^sup>*\<^sup>* s s' \<Longrightarrow> pool_step\<^sup>*\<^sup>* s s' \<and> accepted s' = accepted s"
  by (induction rule: rtranclp_induct) (auto simp: closing_step_def intro: rtranclp.rtrancl_into_rtrancl)

end
