(* ===== verification/Concurrency_Properties.thy ===== *)
theory Concurrency_Properties
  imports Mpsc_Concurrent Spsc_Concurrent Mpmc_Concurrent Wakeup Spin_Lock Pool_Progress
begin

text \<open>
  What the concurrent parts promise under every interleaving of their threads.
\<close>

section \<open>The task queue\<close>

text \<open>C9: the task queue of a loop is a FIFO for any number of pushing threads. Whatever the
  interleaving, as long as no thread is overtaken by a whole lap of the ring between its check and its
  exchange, the items the consumer has returned are the first ones that were pushed, in the order in
  which their producers won the head, none lost, repeated or torn, at most one fewer than the slots
  are in flight, and the consumer only ever waits for a producer that has won its slot and not yet
  published it.\<close>

theorem mpsc_fifo:
  assumes "lap_step\<^sup>*\<^sup>* (mpsc_init n x) s" and "0 < n"
  shows "(\<exists>zs. claimed s = popped s @ zs \<and> length zs < n) \<and>
    (\<forall>t. consumer s = CWait t \<and> seq (slots s ! t) = invalid s \<longrightarrow>
       (\<exists>p y. producers s p = PClaimed t y \<or> producers s p = PWritten t y))"
proof
  have inv: "mpsc_inv s" using inv_reachable [OF assms] .
  then have c: "counts_ok s" by (simp add: mpsc_inv_def)
  have "claimed s = popped s @ drop (length (popped s)) (claimed s)"
    using append_take_drop_id [of "length (popped s)" "claimed s"] countsD(4) [OF c] by simp
  moreover have "length (drop (length (popped s)) (claimed s)) < n"
    using countsD(1,3) [OF c] reachable_capacity [OF assms(1)] by simp
  ultimately show "\<exists>zs. claimed s = popped s @ zs \<and> length zs < n" by blast
  show "\<forall>t. consumer s = CWait t \<and> seq (slots s ! t) = invalid s \<longrightarrow>
      (\<exists>p y. producers s p = PClaimed t y \<or> producers s p = PWritten t y)"
  proof (intro allI impI)
    fix t assume t: "consumer s = CWait t \<and> seq (slots s ! t) = invalid s"
    then have "t = place s (length (popped s))" "live s (length (popped s))" "slots_ok s"
      using inv countsD(6) [OF c] by (auto simp: mpsc_inv_def)
    with t show "\<exists>p y. producers s p = PClaimed t y \<or> producers s p = PWritten t y"
      using slotsD(1) [of s "length (popped s)"] by (auto simp: busy_def)
  qed
qed

lemmas schedule_eval =
  produce_def consume_def mpsc_init_def mp_new_def set_producer_def set_slot_def ring_next_def invalid_index_def

theorem mpsc_fifo_witness:
  "\<exists>zs. claimed (schedule [Some (0, 7), Some (0, 7), Some (0, 7)] (mpsc_init 4 (0 :: nat))) =
     popped (schedule [Some (0, 7), Some (0, 7), Some (0, 7)] (mpsc_init 4 0)) @ zs \<and> length zs < 4"
proof -
  let ?s = "\<lambda>k. schedule (replicate k (Some (0, 7))) (mpsc_init 4 (0 :: nat))"
  have "lap_step (?s 0) (?s 1)" "lap_step (?s 1) (?s 2)" "lap_step (?s 2) (?s 3)"
    using produce_step [of "?s 0" 0 7] produce_step [of "?s 1" 0 7] produce_step [of "?s 2" 0 7]
    by (simp_all add: lap_step_def in_lap_def numeral_eq_Suc) (simp_all add: schedule_eval)
  then have "lap_step\<^sup>*\<^sup>* (?s 0) (?s 3)" by (meson converse_rtranclp_into_rtranclp rtranclp.rtrancl_refl)
  then have "lap_step\<^sup>*\<^sup>* (mpsc_init 4 0) (schedule [Some (0, 7), Some (0, 7), Some (0, 7)] (mpsc_init 4 (0 :: nat)))"
    by (simp add: numeral_eq_Suc)
  from mpsc_fifo [OF this] show ?thesis by simp
qed

text \<open>C36: the proviso is needed, whatever the number of slots. A producer that is overtaken by a whole
  lap after its check wins the head of a full queue: on a ring of any size from two there is a run in
  which one item more has been pushed successfully than there are slots, one item was returned, no
  thread is in the middle of anything, and the queue is empty, so that all the other items are gone.\<close>

theorem mpsc_lap_loses:
  fixes x z x0 :: 'a
  assumes "2 \<le> n" and "length ys = n - 1"
  shows "\<exists>s. mpsc_step\<^sup>*\<^sup>* (mpsc_init n x0) s \<and> (\<forall>p. producers s p = PIdle) \<and> consumer s = CIdle \<and>
     claimed s = x # ys @ [z] \<and> popped s = [x] \<and> mp_empty (mq s)"
  using lap_run [OF assms, of x z x0] schedule_steps [of "mpsc_init n x0" "lap_turns x ys z"] by blast

theorem mpsc_lap_loses_witness:
  "\<exists>s. mpsc_step\<^sup>*\<^sup>* (mpsc_init 512 (0 :: nat)) s \<and> (\<forall>p. producers s p = PIdle) \<and> consumer s = CIdle \<and>
     claimed s = 11 # replicate 511 12 @ [13] \<and> popped s = [11] \<and> mp_empty (mq s)"
  by (rule mpsc_lap_loses) simp_all

text \<open>C27: with one producer and one consumer \<^verbatim>\<open>LockFreeQueue\<close> is a bounded FIFO under every
  interleaving of their accesses: at every moment the items popped so far, followed by the contents of
  the ring, are the items pushed so far, and there is at least one slot more than items in the ring.\<close>

theorem spsc_fifo:
  assumes "spsc_step\<^sup>*\<^sup>* (spsc_init n x) s" and "0 < n"
  shows "pushed_items s = popped_items s @ lf_contents (sq_ring s) \<and> length (lf_contents (sq_ring s)) < n"
  using spsc_inv_reachable [OF assms] lf.bound [of "sq_ring s"] by (simp add: spsc_inv_def)

theorem spsc_fifo_witness:
  "\<exists>s. spsc_step\<^sup>*\<^sup>* (spsc_init 2 (0 :: nat)) s \<and> pushed_items s = [7] \<and> lf_contents (sq_ring s) = [7]"
proof -
  let ?s0 = "spsc_init 2 (0 :: nat)"
  let ?s1 = "?s0\<lparr>sp := SpLoaded 0 7\<rparr>" and ?s2 = "?s0\<lparr>sp := SpChecked 0 7\<rparr>"
  let ?s3 = "?s0\<lparr>sp := SpWritten 0 7, sq_ring := (sq_ring ?s0)\<lparr>lf_data := [7, 0]\<rparr>\<rparr>"
  let ?s4 = "?s3\<lparr>sp := SpIdle, sq_ring := (sq_ring ?s3)\<lparr>lf_head := 1\<rparr>, pushed_items := [7]\<rparr>"
  note defs = spsc_init_def lf_new_def lf_cap_def ring_next_def numeral_2_eq_2
  have "spsc_step ?s0 ?s1" using load_head [of ?s0 7] by (simp add: defs)
  moreover have "spsc_step ?s1 ?s2" using ring_room [of ?s1 0 7] by (simp add: defs)
  moreover have "spsc_step ?s2 ?s3" using write_item [of ?s2 0 7] by (simp add: defs)
  moreover have "spsc_step ?s3 ?s4" using publish [of ?s3 0 7] by (simp add: defs)
  ultimately have run: "spsc_step\<^sup>*\<^sup>* ?s0 ?s4" by (meson converse_rtranclp_into_rtranclp rtranclp.rtrancl_refl)
  from spsc_fifo [OF this] have "lf_contents (sq_ring ?s4) = [7]" by (simp add: defs)
  with run show ?thesis by (intro exI [of _ ?s4]) simp
qed

text \<open>\<^verbatim>\<open>MPMCQueue\<close> returns an item twice and loses another. A consumer that has won
  the tail but not yet read its slot does not keep a consumer of the next lap from taking the slot for
  filled: on a ring of two slots there is a run in which 11, 12 and 13 were pushed, 12 and twice 11 were
  returned, no thread is in the middle of anything, and the queue is empty.\<close>

theorem mpmc_item_twice:
  "\<exists>s. mpmc_step\<^sup>*\<^sup>* (mpmc_init 2 0) s \<and> (\<forall>p. mc_producers s p = McIdle) \<and> (\<forall>c. mc_consumers s c = MqIdle) \<and>
     mc_claimed s = [11, 12, 13 :: nat] \<and> mc_returned s = [12, 11, 11] \<and> mp_empty (mc_ring s)"
proof -
  let ?as = "replicate 6 (Produce 0 11) @ replicate 4 (Consume 0) @ replicate 6 (Produce 0 12) @
    replicate 6 (Consume 1) @ replicate 4 (Produce 0 13) @ replicate 6 (Consume 1) @ replicate 2 (Consume 0) @
    replicate 3 (Produce 0 13)"
  have "mpmc_step\<^sup>*\<^sup>* (mpmc_init 2 0) (mc_schedule ?as (mpmc_init 2 (0 :: nat)))" by (rule mc_schedule_steps)
  moreover have "(\<forall>p. mc_producers (mc_schedule ?as (mpmc_init 2 (0 :: nat))) p = McIdle) \<and>
      (\<forall>c. mc_consumers (mc_schedule ?as (mpmc_init 2 (0 :: nat))) c = MqIdle) \<and>
      mc_claimed (mc_schedule ?as (mpmc_init 2 (0 :: nat))) = [11, 12, 13] \<and>
      mc_returned (mc_schedule ?as (mpmc_init 2 (0 :: nat))) = [12, 11, 11] \<and>
      mp_empty (mc_ring (mc_schedule ?as (mpmc_init 2 (0 :: nat))))"
    by (simp add: numeral_eq_Suc mc_eval mp_empty_def)
  ultimately show ?thesis by blast
qed

section \<open>Waking the loop\<close>

text \<open>With every access in program order no task is left behind: whenever the loop thread is back in
  \<^verbatim>\<open>epoll_wait\<close> with nothing to read from the wake-up descriptor, and every posting
  thread is done, the task queue is empty.\<close>

theorem no_lost_wakeup:
  assumes "(wake_step False)\<^sup>*\<^sup>* wake_init s"
    and "looper_at s = LSleep" and "eventfd s = 0" and "\<forall>p. posters s p = WIdle"
  shows "pending_tasks s = 0"
  using wake_inv_reachable [OF assms(1)] assms(2-4) by (auto simp: wake_inv_def waking_def)

theorem no_lost_wakeup_witness:
  "\<exists>s. (wake_step False)\<^sup>*\<^sup>* wake_init s \<and> looper_at s = LSleep \<and> \<not> flag s \<and> pending_tasks s = 0"
proof -
  let ?s1 = "woken\<lparr>looper_at := LStored, flag := False\<rparr>"
  let ?s2 = "?s1\<lparr>looper_at := LSleep\<rparr>"
  have "wake_step False woken ?s1" by (rule store) (simp add: woken_def)
  moreover have "wake_step False ?s1 ?s2" by (rule look_empty) (simp_all add: woken_def wake_init_def)
  ultimately have run: "(wake_step False)\<^sup>*\<^sup>* wake_init ?s2"
    using woken_reachable [of False] by (meson rtranclp.rtrancl_into_rtrancl)
  from no_lost_wakeup [OF run] have "pending_tasks ?s2 = 0" by (simp add: woken_def wake_init_def)
  with run show ?thesis by (intro exI [of _ ?s2]) (simp add: woken_def)
qed

text \<open>C35: the memory orders of the code do not give that order. The flag is cleared by a release store,
  which a store buffer may hold back until after the second look at the queue: then a thread that
  posts in between finds the flag still up and does not wake the loop, and the loop sleeps on a queue
  that is not empty, with every thread done and the flag down, until somebody posts again.\<close>

theorem wakeup_lost:
  "\<exists>s. (wake_step True)\<^sup>*\<^sup>* wake_init s \<and> looper_at s = LSleep \<and> eventfd s = 0 \<and>
     (\<forall>p. posters s p = WIdle) \<and> \<not> buffered s \<and> \<not> flag s \<and> pending_tasks s = 1"
proof -
  let ?s1 = "woken\<lparr>looper_at := LStored, buffered := True\<rparr>"
  let ?s2 = "?s1\<lparr>looper_at := LSleep\<rparr>"
  let ?s3 = "?s2\<lparr>posters := (posters ?s2)(0 := WPushed), pending_tasks := 1\<rparr>"
  let ?s4 = "?s3\<lparr>posters := (posters ?s3)(0 := WIdle)\<rparr>"
  let ?s5 = "?s4\<lparr>flag := False, buffered := False\<rparr>"
  have "wake_step True woken ?s1" by (rule store_buffered) (simp_all add: woken_def)
  moreover have "wake_step True ?s1 ?s2" by (rule look_empty) (simp_all add: woken_def wake_init_def)
  moreover have "wake_step True ?s2 ?s3"
    using wake_step.push [of ?s2 0 True] by (simp add: woken_def wake_init_def)
  moreover have "wake_step True ?s3 ?s4" by (rule post_seen) (simp_all add: woken_def)
  moreover have "wake_step True ?s4 ?s5" by (rule flush) simp
  ultimately have "(wake_step True)\<^sup>*\<^sup>* wake_init ?s5"
    using woken_reachable [of True] by (meson rtranclp.rtrancl_into_rtrancl)
  then show ?thesis by (intro exI [of _ ?s5]) (simp add: woken_def wake_init_def)
qed

section \<open>The spin lock and the pool\<close>

text \<open>The spin lock excludes: in every interleaving of any number of threads at most one is inside,
  the flag is up exactly while one is, and the pauses between two looks never exceed 256.\<close>

theorem spin_lock_excludes:
  assumes "spin_step\<^sup>*\<^sup>* spin_init s"
  shows "(\<forall>t u. lockers s t = Inside \<and> lockers s u = Inside \<longrightarrow> t = u) \<and>
    (locked s \<longleftrightarrow> (\<exists>t. lockers s t = Inside)) \<and>
    (\<forall>t b i. lockers s t = Pausing b i \<longrightarrow> i \<le> 256)"
proof -
  have inv: "spin_inv s" using spin_inv_reachable [OF assms] .
  then have h: "if locked s then \<exists>t. holders s = {t} else holders s = {}" by (simp add: spin_inv_def)
  have "i \<le> 256" if "lockers s t = Pausing b i" for t b i
    using inv that unfolding spin_inv_def by (metis locker_ok.simps(3))
  moreover have "t = u" if "lockers s t = Inside" "lockers s u = Inside" for t u
  proof -
    have "{t, u} \<subseteq> holders s" using that by (simp add: holders_def)
    with h show ?thesis by (cases "locked s") auto
  qed
  moreover have "locked s \<longleftrightarrow> (\<exists>t. lockers s t = Inside)"
    using h unfolding holders_def by (cases "locked s") auto
  ultimately show ?thesis by blast
qed

theorem spin_lock_excludes_witness:
  "\<exists>s. spin_step\<^sup>*\<^sup>* spin_init s \<and> lockers s 0 = Inside \<and> locked s \<and> lockers s 1 = Pausing 0 (pauses 0) \<and>
    (\<forall>u. lockers s u = Inside \<longrightarrow> u = 0)"
proof -
  let ?s1 = "set_locker 1 (Looking 0) (set_locker 0 (Looking 0) spin_init)"
  let ?s2 = "(set_locker 0 Inside (set_locker 0 (Trying 0) ?s1))\<lparr>locked := True\<rparr>"
  let ?s3 = "set_locker 1 (Pausing 0 (pauses 0)) ?s2"
  have "spin_step spin_init (set_locker 0 (Looking 0) spin_init)" by (rule enter) (simp add: spin_init_def)
  moreover have "spin_step (set_locker 0 (Looking 0) spin_init) ?s1" by (rule enter) (simp add: spin_init_def)
  moreover have "spin_step ?s1 (set_locker 0 (Trying 0) ?s1)" by (rule look_free) (simp_all add: spin_init_def)
  moreover have "spin_step (set_locker 0 (Trying 0) ?s1) ?s2"
    by (rule exchange_won) (simp_all add: spin_init_def)
  moreover have "spin_step ?s2 ?s3" by (rule look_taken) (simp_all add: set_locker_def)
  ultimately have run: "spin_step\<^sup>*\<^sup>* spin_init ?s3" by (meson converse_rtranclp_into_rtranclp rtranclp.rtrancl_refl)
  have at: "lockers ?s3 0 = Inside" "locked ?s3" "lockers ?s3 1 = Pausing 0 (pauses 0)"
    by (simp_all add: set_locker_def)
  with spin_lock_excludes [OF run] run show ?thesis by blast
qed

text \<open>C15: joining the pool waits for its tasks. When \<^verbatim>\<open>join\<close> has returned, every task that was
  put before the queue was shut down has been run, exactly once, and the workers took them in the order
  in which they were put; what was put afterwards was dropped. This holds for any positive number of
  workers, any interleaving with threads that put tasks, and tasks that throw.\<close>

theorem pool_join_runs_all:
  assumes "pool_step\<^sup>*\<^sup>* (pool_init n a) s" and "0 < n" and "joiner s = JDone"
  shows "started s = accepted s \<and> mset (finished s) = mset (accepted s) \<and> sq_items (tasks s) = [] \<and>
    sq_push j (tasks s) = tasks s"
proof -
  have "workers s \<noteq> []" using pool_workers_length [OF assms(1)] assms(2) by auto
  from pool_done [OF pool_inv_reachable [OF assms(1)] this assms(3)] show ?thesis by (simp add: sq_push_def)
qed

text \<open>A run of a pool with one worker and one task that throws, from start to finish.\<close>

definition one_job :: "(string, nat) job" where
  "one_job = (7, \<lambda>a. (Some ''boom'', a + 1))"

definition pool_ran :: "(string, nat) pool" where
  "pool_ran = (pool_init 1 0)\<lparr>workers := [Working], pool_app := 1, accepted := [7], started := [7], finished := [7]\<rparr>"

lemma pool_ran_reachable: "pool_step\<^sup>*\<^sup>* (pool_init 1 0) pool_ran"
proof -
  let ?s0 = "pool_init 1 0 :: (string, nat) pool"
  let ?s1 = "?s0\<lparr>tasks := sq_push one_job (tasks ?s0), accepted := [7]\<rparr>"
  let ?s2 = "?s1\<lparr>tasks := sq_new, workers := [Running one_job], started := [7]\<rparr>"
  have "pool_step ?s0 ?s1" using put [of ?s0 one_job] by (simp add: pool_init_def sq_new_def one_job_def)
  moreover have "pool_step ?s1 ?s2"
    using run_pop [of 0 ?s1 one_job sq_new]
    by (simp add: pool_init_def sq_new_def sq_push_def sq_pop_def one_job_def)
  moreover have "pool_step ?s2 pool_ran"
    using run_task [of 0 ?s2 one_job] by (simp add: pool_init_def pool_ran_def one_job_def sq_new_def)
  ultimately show ?thesis by (meson converse_rtranclp_into_rtranclp rtranclp.rtrancl_refl)
qed

definition pool_joined :: "(string, nat) pool" where
  "pool_joined = pool_ran\<lparr>tasks := sq_shutdown sq_new, cb_tasks := sq_shutdown sq_new, joined := True,
     workers := [Exited], cb_thread := Exited, joiner := JDone\<rparr>"

lemma pool_joined_reachable: "pool_step\<^sup>*\<^sup>* (pool_init 1 0) pool_joined"
proof -
  let ?s1 = "pool_ran\<lparr>joiner := JShut, tasks := sq_shutdown sq_new\<rparr>"
  let ?s2 = "?s1\<lparr>joiner := JFlag, joined := True\<rparr>"
  let ?s3 = "?s2\<lparr>workers := [Exited]\<rparr>"
  let ?s4 = "?s3\<lparr>joiner := JWorkers\<rparr>"
  let ?s5 = "?s4\<lparr>joiner := JCallbacks, cb_tasks := sq_shutdown sq_new\<rparr>"
  let ?s6 = "?s5\<lparr>cb_thread := Exited\<rparr>"
  note eval = pool_ran_def pool_init_def sq_new_def sq_shutdown_def sq_pop_def sq_empty_def
  have "pool_step pool_ran ?s1" using join_shutdown [of pool_ran] by (simp add: eval)
  moreover have "pool_step ?s1 ?s2" by (rule join_flag) simp
  moreover have "pool_step ?s2 ?s3" using run_exit [of 0 ?s2 "sq_shutdown sq_new"] by (simp add: eval)
  moreover have "pool_step ?s3 ?s4" by (rule join_workers) simp_all
  moreover have "pool_step ?s4 ?s5" using join_callbacks [of ?s4] by (simp add: eval)
  moreover have "pool_step ?s5 ?s6" using cb_exit [of ?s5 "sq_shutdown sq_new"] by (simp add: eval)
  moreover have "pool_step ?s6 pool_joined" using join_done [of ?s6] by (simp add: pool_joined_def eval)
  ultimately have "pool_step\<^sup>*\<^sup>* pool_ran pool_joined"
    by (meson converse_rtranclp_into_rtranclp rtranclp.rtrancl_refl)
  with pool_ran_reachable show ?thesis by simp
qed

theorem pool_join_runs_all_witness:
  "started pool_joined = accepted pool_joined \<and> mset (finished pool_joined) = mset (accepted pool_joined) \<and>
   accepted pool_joined = [7]"
  using pool_join_runs_all [OF pool_joined_reachable]
  by (simp add: pool_joined_def pool_ran_def pool_init_def)

text \<open>C16: joining always gets through. From whatever state threads that put tasks, workers, callbacks and
  \<^verbatim>\<open>join\<close> itself have led to, \<^verbatim>\<open>join\<close> can run to its end without anybody putting
  anything else, and then exactly the accepted tasks have been run.\<close>

theorem join_can_return:
  assumes "pool_step\<^sup>*\<^sup>* (pool_init n a) s" and "0 < n"
  shows "\<exists>s'. pool_step\<^sup>*\<^sup>* s s' \<and> joiner s' = JDone \<and> accepted s' = accepted s \<and>
    mset (finished s') = mset (accepted s)"
proof -
  from joining.reaches_goal [OF join_inv_reachable [OF assms(1)]] obtain s' where
    s': "closing_step\<^sup>*\<^sup>* s s'" "join_inv s'" "joiner s' = JDone" by blast
  note run = closing_run [OF s'(1)]
  have "length (workers s') = n" using pool_workers_length [of n a s'] assms(1) run by (meson rtranclp_trans)
  then have "workers s' \<noteq> []" using assms(2) by auto
  with pool_done(2) [of s'] s'(2,3) have "mset (finished s') = mset (accepted s')" by (simp add: join_inv_def)
  with run s'(3) show ?thesis by auto
qed

theorem join_can_return_witness:
  "\<exists>s'. pool_step\<^sup>*\<^sup>* pool_ran s' \<and> joiner s' = JDone \<and> mset (finished s') = {#7#}"
  using join_can_return [OF pool_ran_reachable] by (auto simp: pool_ran_def)

end
