(* ===== verification/Wakeup_Queue.thy ===== *)
theory Wakeup_Queue
  imports Mpsc_Concurrent Wakeup Simulation
begin

text \<open>
  Posting threads, their lock-free queue and the loop thread together: \<^verbatim>\<open>postTask\<close>,
  \<^verbatim>\<open>postTaskBatch\<close> and \<^verbatim>\<open>drainTasks\<close> of \<^verbatim>\<open>EpollContext.cpp\<close> with every access to
  \<^verbatim>\<open>MPSCQueue\<close> and to \<^verbatim>\<open>awake\<close> as a step of its own. The composition refines the
  protocol of \<open>Wakeup\<close>, where the queue is a counter and pushing and looking are one step each.
\<close>

section \<open>The queue is a bounded FIFO\<close>

definition queued :: "'a mpsc \<Rightarrow> 'a list" where
  "queued s = drop (length (popped s)) (claimed s)"

inductive fifo_step :: "nat \<Rightarrow> 'a list \<Rightarrow> 'a list \<Rightarrow> bool" for n :: nat where
  enqueue: "length q + 1 < n \<Longrightarrow> fifo_step n q (q @ [x])"
| dequeue: "fifo_step n (x # q) q"

lemma mpsc_inv_counts: "mpsc_inv s \<Longrightarrow> counts_ok s"
  by (simp add: mpsc_inv_def)

lemma claim_room: "lap_step s s' \<Longrightarrow> mpsc_inv s \<Longrightarrow> claimed s' \<noteq> claimed s \<Longrightarrow> length (queued s) + 1 < capacity s"
  using room [OF mpsc_inv_counts, of s] countsD(2) [OF mpsc_inv_counts, of s]
  by (simp add: lap_step_def in_lap_def queued_def)

lemma advance_queued:
  assumes "mpsc_inv s" and "consumer s = CCleared t x"
  shows "queued s = x # drop (Suc (length (popped s))) (claimed s)"
  using assms by (simp add: mpsc_inv_def queued_def live_def Cons_nth_drop_Suc)

lemma lap_step_fifo:
  assumes "lap_step s s'" and "mpsc_inv s"
  shows "queued s' = queued s \<or> fifo_step (capacity s) (queued s) (queued s')"
proof -
  note cd = countsD [OF mpsc_inv_counts [OF assms(2)]]
  have "mpsc_step s s'" using assms(1) by (simp add: lap_step_def)
  then show ?thesis
  proof cases
    case (cas_ok p h x)
    then have "claimed s' = claimed s @ [x]" "popped s' = popped s" by simp_all
    then have "queued s' = queued s @ [x]" and "claimed s' \<noteq> claimed s" using cd(2) by (simp_all add: queued_def)
    with claim_room [OF assms] show ?thesis by (simp add: enqueue)
  next
    case (advance t x)
    then have "queued s' = drop (Suc (length (popped s))) (claimed s)" by (simp add: queued_def)
    with advance_queued [OF assms(2) advance(2)] show ?thesis by (simp add: dequeue)
  qed (simp_all add: queued_def)
qed

lemma lap_step_keeps: "lap_step s s' \<Longrightarrow> mpsc_inv s \<and> capacity s = n \<Longrightarrow> mpsc_inv s' \<and> capacity s' = n"
  using inv_step step_capacity by (auto simp: lap_step_def)

interpretation mpsc: simulation lap_step "fifo_step n" queued "\<lambda>s. mpsc_inv s \<and> capacity s = n"
  by unfold_locales (use lap_step_keeps lap_step_fifo in blast)+

section \<open>Posting and draining\<close>

text \<open>
  The loop thread is where \<open>looper\<close> says, or between the two loads of \<^verbatim>\<open>empty\<close> with the tail it
  has loaded. A posting thread is inside a push where the queue says, and else where \<open>poster\<close> says. What it
  still has to push is \<open>p_todo\<close>: one task in \<^verbatim>\<open>postTask\<close>, several in \<^verbatim>\<open>postTaskBatch\<close>. The
  tasks are tagged with the thread that posts them; \<open>p_posted\<close> is all a thread has been told to post.
\<close>

datatype loop_pc = At looper | Look nat

record 'a posting =
  p_ring :: "(nat \<times> 'a) mpsc"
  p_flag :: bool
  p_buffered :: bool
  p_eventfd :: nat
  p_posters :: "nat \<Rightarrow> poster"
  p_todo :: "nat \<Rightarrow> 'a list"
  p_posted :: "nat \<Rightarrow> 'a list"
  p_loop :: loop_pc

text \<open>
  The first argument says how threads access the ring: \<open>mpsc_step\<close> are all accesses of the code,
  \<open>lap_step\<close> those in which no producer is overtaken by a whole lap between its check and its exchange.
  \<open>pushing\<close> are the accesses inside \<^verbatim>\<open>push\<close>, repeated while it returns false, \<open>pushed\<close> is the one
  that ends it. \<open>popping\<close> are the accesses inside \<^verbatim>\<open>pop\<close>, \<open>pop_false\<close> is its return of false. The
  other steps are those of \<open>wake_step\<close>.
\<close>

inductive post_step :: "((nat \<times> 'a) mpsc \<Rightarrow> (nat \<times> 'a) mpsc \<Rightarrow> bool) \<Rightarrow> bool \<Rightarrow> 'a posting \<Rightarrow> 'a posting \<Rightarrow> bool"
  for ring :: "(nat \<times> 'a) mpsc \<Rightarrow> (nat \<times> 'a) mpsc \<Rightarrow> bool" and tso :: bool where
  pushing: "p_todo s p = x # xs \<Longrightarrow> ring (p_ring s) r \<Longrightarrow> producers r p \<noteq> producers (p_ring s) p \<Longrightarrow>
    (\<And>h y. producers (p_ring s) p \<noteq> PWritten h y) \<Longrightarrow> (\<And>h y. producers r p = PLoaded h y \<Longrightarrow> y = (p, x)) \<Longrightarrow>
    post_step ring tso s (s\<lparr>p_ring := r\<rparr>)"
| pushed: "p_todo s p = x # xs \<Longrightarrow> ring (p_ring s) r \<Longrightarrow> producers r p \<noteq> producers (p_ring s) p \<Longrightarrow>
    producers (p_ring s) p = PWritten h y \<Longrightarrow>
    post_step ring tso s (s\<lparr>p_ring := r, p_posters := (p_posters s)(p := WPushed), p_todo := (p_todo s)(p := xs)\<rparr>)"
| posted_awake: "p_posters s p = WPushed \<Longrightarrow> p_todo s p = [] \<Longrightarrow> p_flag s \<Longrightarrow>
    post_step ring tso s (s\<lparr>p_posters := (p_posters s)(p := WIdle)\<rparr>)"
| posted_asleep: "p_posters s p = WPushed \<Longrightarrow> p_todo s p = [] \<Longrightarrow> \<not> p_flag s \<Longrightarrow>
    post_step ring tso s (s\<lparr>p_posters := (p_posters s)(p := WMustWake), p_flag := True\<rparr>)"
| poster_wakes: "p_posters s p = WMustWake \<Longrightarrow>
    post_step ring tso s (s\<lparr>p_posters := (p_posters s)(p := WIdle), p_eventfd := p_eventfd s + 1\<rparr>)"
| woken_up: "p_loop s = At LSleep \<Longrightarrow> 0 < p_eventfd s \<Longrightarrow> post_step ring tso s (s\<lparr>p_loop := At LRead\<rparr>)"
| reads_eventfd: "p_loop s = At LRead \<Longrightarrow> post_step ring tso s (s\<lparr>p_eventfd := 0, p_loop := At LDrain\<rparr>)"
| popping: "p_loop s = At LDrain \<Longrightarrow> ring (p_ring s) r \<Longrightarrow> producers r = producers (p_ring s) \<Longrightarrow>
    (\<And>t. consumer (p_ring s) = CTail t \<Longrightarrow> consumer r \<noteq> CIdle) \<Longrightarrow> post_step ring tso s (s\<lparr>p_ring := r\<rparr>)"
| pop_false: "p_loop s = At LDrain \<Longrightarrow> ring (p_ring s) r \<Longrightarrow> producers r = producers (p_ring s) \<Longrightarrow>
    consumer (p_ring s) = CTail t \<Longrightarrow> consumer r = CIdle \<Longrightarrow> post_step ring tso s (s\<lparr>p_ring := r, p_loop := At LClear\<rparr>)"
| clears: "p_loop s = At LClear \<Longrightarrow> post_step ring tso s (s\<lparr>p_loop := At LStored, p_flag := False\<rparr>)"
| clears_buffered: "p_loop s = At LClear \<Longrightarrow> tso \<Longrightarrow> post_step ring tso s (s\<lparr>p_loop := At LStored, p_buffered := True\<rparr>)"
| drains_buffer: "p_buffered s \<Longrightarrow> post_step ring tso s (s\<lparr>p_flag := False, p_buffered := False\<rparr>)"
| looks_tail: "p_loop s = At LStored \<Longrightarrow> post_step ring tso s (s\<lparr>p_loop := Look (tail (p_ring s))\<rparr>)"
| looks_empty: "p_loop s = Look t \<Longrightarrow> t = head (p_ring s) \<Longrightarrow> post_step ring tso s (s\<lparr>p_loop := At LSleep\<rparr>)"
| looks_item: "p_loop s = Look t \<Longrightarrow> t \<noteq> head (p_ring s) \<Longrightarrow> post_step ring tso s (s\<lparr>p_loop := At LSawItem\<rparr>)"
| loop_awake: "p_loop s = At LSawItem \<Longrightarrow> \<not> p_buffered s \<Longrightarrow> p_flag s \<Longrightarrow> post_step ring tso s (s\<lparr>p_loop := At LSleep\<rparr>)"
| loop_asleep: "p_loop s = At LSawItem \<Longrightarrow> \<not> p_buffered s \<Longrightarrow> \<not> p_flag s \<Longrightarrow>
    post_step ring tso s (s\<lparr>p_loop := At LMustWake, p_flag := True\<rparr>)"
| loop_wakes: "p_loop s = At LMustWake \<Longrightarrow>
    post_step ring tso s (s\<lparr>p_loop := At LSleep, p_eventfd := p_eventfd s + 1\<rparr>)"

text \<open>A thread that is done with its last call makes the next one.\<close>

definition hand :: "nat \<Rightarrow> 'a list \<Rightarrow> 'a posting \<Rightarrow> 'a posting" where
  "hand p xs s = s\<lparr>p_todo := (p_todo s)(p := xs), p_posted := (p_posted s)(p := p_posted s p @ xs)\<rparr>"

definition at_rest :: "'a posting \<Rightarrow> nat \<Rightarrow> bool" where
  "at_rest s p \<longleftrightarrow> p_posters s p = WIdle \<and> p_todo s p = []"

inductive world_step :: "((nat \<times> 'a) mpsc \<Rightarrow> (nat \<times> 'a) mpsc \<Rightarrow> bool) \<Rightarrow> bool \<Rightarrow> 'a posting \<Rightarrow> 'a posting \<Rightarrow> bool"
  for ring :: "(nat \<times> 'a) mpsc \<Rightarrow> (nat \<times> 'a) mpsc \<Rightarrow> bool" and tso :: bool where
  call: "at_rest s p \<Longrightarrow> xs \<noteq> [] \<Longrightarrow> world_step ring tso s (hand p xs s)"
| internal: "post_step ring tso s s' \<Longrightarrow> world_step ring tso s s'"

definition post_init :: "nat \<Rightarrow> nat \<times> 'a \<Rightarrow> 'a posting" where
  "post_init n x = \<lparr>p_ring = mpsc_init n x, p_flag = False, p_buffered = False, p_eventfd = 0,
     p_posters = (\<lambda>_. WIdle), p_todo = (\<lambda>_. []), p_posted = (\<lambda>_. []), p_loop = At LSleep\<rparr>"

section \<open>The composition refines the protocol\<close>

definition mid_push :: "'a mpsc \<Rightarrow> nat \<Rightarrow> bool" where
  "mid_push r p \<longleftrightarrow> (\<exists>h x. busy r p h x)"

text \<open>A task counts as pending from the exchange of its push on.\<close>

definition poster_abs :: "'a mpsc \<Rightarrow> (nat \<Rightarrow> poster) \<Rightarrow> nat \<Rightarrow> poster" where
  "poster_abs r ps p = (if mid_push r p then WPushed else ps p)"

definition wake_abs :: "'a posting \<Rightarrow> wake_state" where
  "wake_abs s = \<lparr>pending_tasks = length (queued (p_ring s)), flag = p_flag s, buffered = p_buffered s, eventfd = p_eventfd s,
     posters = poster_abs (p_ring s) (p_posters s),
     looper_at = (case p_loop s of At l \<Rightarrow> l | Look t \<Rightarrow> LStored)\<rparr>"

fun carried :: "'a producer \<Rightarrow> 'a option" where
  "carried PIdle = None"
| "carried (PLoaded h x) = Some x"
| "carried (PChecked h x) = Some x"
| "carried (PClaimed h x) = Some x"
| "carried (PWritten h x) = Some x"

text \<open>The tasks of a thread that have not won a place in the queue.\<close>

definition unclaimed :: "'a posting \<Rightarrow> nat \<Rightarrow> 'a list" where
  "unclaimed s p = (if mid_push (p_ring s) p then tl (p_todo s p) else p_todo s p)"

definition tasks_of :: "nat \<Rightarrow> (nat \<times> 'a) list \<Rightarrow> 'a list" where
  "tasks_of p xs = map snd (filter (\<lambda>x. fst x = p) xs)"

definition posters_ok :: "'a posting \<Rightarrow> bool" where
  "posters_ok s \<longleftrightarrow> (\<forall>p.
     (\<forall>y. carried (producers (p_ring s) p) = Some y \<longrightarrow> (\<exists>x xs. p_todo s p = x # xs \<and> y = (p, x))) \<and>
     (p_posters s p = WMustWake \<longrightarrow> p_todo s p = []) \<and>
     p_posted s p = tasks_of p (claimed (p_ring s)) @ unclaimed s p)"

definition loop_ok :: "'a posting \<Rightarrow> bool" where
  "loop_ok s \<longleftrightarrow> (p_loop s \<noteq> At LDrain \<longrightarrow> consumer (p_ring s) = CIdle) \<and>
     (\<forall>t. p_loop s = Look t \<longrightarrow> t = tail (p_ring s))"

definition post_inv :: "'a posting \<Rightarrow> bool" where
  "post_inv s \<longleftrightarrow> mpsc_inv (p_ring s) \<and> posters_ok s \<and> loop_ok s"

text \<open>What a step of a producer and a step of the consumer change.\<close>

lemma producer_step:
  assumes "mpsc_step r r'" and "producers r' p \<noteq> producers r p"
  shows "\<exists>st. producers r' = (producers r)(p := st)" and "consumer r' = consumer r" and "popped r' = popped r"
    and "tail r' = tail r"
    and "claimed r' = claimed r \<and> (mid_push r' p \<longleftrightarrow> mid_push r p \<and> (\<forall>h x. producers r p \<noteq> PWritten h x)) \<or>
      (\<exists>x. carried (producers r p) = Some x \<and> claimed r' = claimed r @ [x] \<and> mid_push r' p \<and> \<not> mid_push r p)"
    and "carried (producers r' p) = None \<or> carried (producers r' p) = carried (producers r p) \<or> (\<exists>h y. producers r' p = PLoaded h y)"
  using assms by (induction rule: mpsc_step.induct)
    (auto simp: mid_push_def busy_def set_producer_def set_slot_def split: if_splits)

lemma consumer_step:
  assumes "mpsc_step r r'" and "producers r' = producers r"
  shows "claimed r' = claimed r" and "mid_push r' = mid_push r"
    and "popped r' = popped r \<or> (\<exists>t x. consumer r = CCleared t x \<and> popped r' = popped r @ [x])"
    and "consumer r = CTail t \<Longrightarrow> consumer r' = CIdle \<Longrightarrow> t = head r \<and> popped r' = popped r"
  using assms by (induction rule: mpsc_step.induct)
    (auto simp: mid_push_def busy_def fun_eq_iff split: if_splits)

lemma tasks_of_simps [simp]:
  "tasks_of p [] = []" "tasks_of p (xs @ ys) = tasks_of p xs @ tasks_of p ys"
  "tasks_of p ((q, x) # xs) = (if q = p then x # tasks_of p xs else tasks_of p xs)"
  by (simp_all add: tasks_of_def)

lemma posters_okD:
  assumes "posters_ok s"
  shows "carried (producers (p_ring s) p) = Some y \<Longrightarrow> \<exists>x xs. p_todo s p = x # xs \<and> y = (p, x)"
    and "p_posters s p = WMustWake \<Longrightarrow> p_todo s p = []"
    and "p_posted s p = tasks_of p (claimed (p_ring s)) @ unclaimed s p"
  using assms unfolding posters_ok_def by blast+

lemma idle_not_mid: "carried (producers r p) = None \<Longrightarrow> \<not> mid_push r p"
  by (cases "producers r p") (simp_all add: mid_push_def busy_def)

lemma mid_carried: "mid_push r p \<Longrightarrow> \<exists>y. carried (producers r p) = Some y"
  by (auto simp: mid_push_def busy_def)

lemma mid_push_other: "producers r' = (producers r)(p := st) \<Longrightarrow> q \<noteq> p \<Longrightarrow> mid_push r' q = mid_push r q"
  by (simp add: mid_push_def busy_def)

lemma posters_pushing:
  assumes "posters_ok s" and x: "p_todo s p = x # xs" and "mpsc_step (p_ring s) r"
    and "producers r p \<noteq> producers (p_ring s) p" and "\<And>h y. producers (p_ring s) p \<noteq> PWritten h y"
    and "\<And>h y. producers r p = PLoaded h y \<Longrightarrow> y = (p, x)"
  shows "posters_ok (s\<lparr>p_ring := r\<rparr>)"
proof -
  note ps = producer_step [OF assms(3,4)] and ok = posters_okD [OF assms(1)]
  from ps(1) obtain st where st: "producers r = (producers (p_ring s))(p := st)" by blast
  have old: "y = (p, x)" if "carried (producers (p_ring s) p) = Some y" for y using ok(1) [OF that] x by simp
  have "y = (p, x)" if "carried (producers r p) = Some y" for y
    using ps(6) that old assms(6) by fastforce
  then have carry: "\<exists>z zs. p_todo s q = z # zs \<and> y = (q, z)" if "carried (producers r q) = Some y" for q y
    using that x ok(1) [of q y] st by (cases "q = p") auto
  have "p_posted s q = tasks_of q (claimed r) @ unclaimed (s\<lparr>p_ring := r\<rparr>) q" for q
  proof (cases "q = p")
    case True
    from ps(5) show ?thesis
    proof
      assume "claimed r = claimed (p_ring s) \<and>
        (mid_push r p \<longleftrightarrow> mid_push (p_ring s) p \<and> (\<forall>h x. producers (p_ring s) p \<noteq> PWritten h x))"
      then show ?thesis using ok(3) [of p] assms(5) True by (simp add: unclaimed_def)
    next
      assume "\<exists>y. carried (producers (p_ring s) p) = Some y \<and> claimed r = claimed (p_ring s) @ [y] \<and>
        mid_push r p \<and> \<not> mid_push (p_ring s) p"
      with old have "claimed r = claimed (p_ring s) @ [(p, x)]" "mid_push r p" "\<not> mid_push (p_ring s) p" by auto
      then show ?thesis using ok(3) [of p] True x by (simp add: unclaimed_def)
    qed
  next
    case False
    have "tasks_of q (claimed r) = tasks_of q (claimed (p_ring s))" using ps(5) old False by auto
    then show ?thesis using ok(3) [of q] mid_push_other [OF st False] by (simp add: unclaimed_def)
  qed
  with carry ok(2) show ?thesis by (simp add: posters_ok_def)
qed

lemma posters_pushed:
  assumes "posters_ok s" and x: "p_todo s p = x # xs" and "mpsc_step (p_ring s) r"
    and "producers r p \<noteq> producers (p_ring s) p" and w: "producers (p_ring s) p = PWritten h y"
  shows "posters_ok (s\<lparr>p_ring := r, p_posters := (p_posters s)(p := WPushed), p_todo := (p_todo s)(p := xs)\<rparr>)"
proof -
  note ps = producer_step [OF assms(3,4)] and ok = posters_okD [OF assms(1)]
  from ps(1) obtain st where st: "producers r = (producers (p_ring s))(p := st)" by blast
  have mid: "mid_push (p_ring s) p" using w by (auto simp: mid_push_def busy_def)
  with ps(5) w have c: "claimed r = claimed (p_ring s)" "\<not> mid_push r p" by auto
  have "producers r p = PIdle" using assms(3,4) w by (induction rule: mpsc_step.induct) (auto split: if_splits)
  then have idle: "st = PIdle" using st by simp
  have "p_posted s q = tasks_of q (claimed r) @ (if mid_push r q then tl (((p_todo s)(p := xs)) q) else ((p_todo s)(p := xs)) q)" for q
    using ok(3) [of q] c mid x mid_push_other [OF st, of q] by (cases "q = p") (simp_all add: unclaimed_def)
  moreover have "\<exists>z zs. ((p_todo s)(p := xs)) q = z # zs \<and> y = (q, z)" if "carried (producers r q) = Some y" for q y
    using that ok(1) [of q y] st idle by (cases "q = p") auto
  moreover have "((p_todo s)(p := xs)) q = []" if "((p_posters s)(p := WPushed)) q = WMustWake" for q
    using that ok(2) [of q] by (cases "q = p") auto
  ultimately show ?thesis by (simp add: posters_ok_def unclaimed_def)
qed

lemma posters_popping:
  assumes "posters_ok s" and "mpsc_step (p_ring s) r" and "producers r = producers (p_ring s)"
  shows "posters_ok (s\<lparr>p_ring := r\<rparr>)"
  using assms(1) consumer_step(1,2) [OF assms(2,3)] assms(3) by (simp add: posters_ok_def unclaimed_def)

lemma post_inv_step:
  assumes "post_step lap_step tso s s'" and inv: "post_inv s"
  shows "post_inv s'"
proof -
  have m: "mpsc_inv (p_ring s)" and P: "posters_ok s" and L: "loop_ok s" using inv by (simp_all add: post_inv_def)
  from assms(1) show ?thesis
  proof cases
    case (pushing p x xs r)
    from pushing(3) have "mpsc_step (p_ring s) r" by (simp add: lap_step_def)
    with posters_pushing [OF P pushing(2) this pushing(4-6)] inv_step [OF pushing(3) m] producer_step(2,4) [OF this pushing(4)] L pushing(1)
    show ?thesis by (simp add: post_inv_def loop_ok_def)
  next
    case (pushed p x xs r h y)
    from pushed(3) have "mpsc_step (p_ring s) r" by (simp add: lap_step_def)
    with posters_pushed [OF P pushed(2) this pushed(4,5)] inv_step [OF pushed(3) m] producer_step(2,4) [OF this pushed(4)] L pushed(1)
    show ?thesis by (simp add: post_inv_def loop_ok_def)
  next
    case (popping r)
    from popping(3) have "mpsc_step (p_ring s) r" by (simp add: lap_step_def)
    with posters_popping [OF P this popping(4)] inv_step [OF popping(3) m] L popping(1,2)
    show ?thesis by (simp add: post_inv_def loop_ok_def)
  next
    case (pop_false r t)
    from pop_false(3) have "mpsc_step (p_ring s) r" by (simp add: lap_step_def)
    with posters_popping [OF P this pop_false(4)] inv_step [OF pop_false(3) m] L pop_false(1,2,6)
    show ?thesis by (simp add: post_inv_def loop_ok_def posters_ok_def unclaimed_def)
  qed (use m P L in \<open>auto simp: post_inv_def posters_ok_def loop_ok_def unclaimed_def\<close>)
qed

lemma pending_zero: "mpsc_inv r \<Longrightarrow> queued r = [] \<longleftrightarrow> head r = tail r"
  using tail_live [OF mpsc_inv_counts, of r] countsD(2) [OF mpsc_inv_counts, of r]
  by (auto simp: queued_def live_def)

lemma poster_abs_upd:
  "\<not> mid_push r p \<Longrightarrow> poster_abs r (ps(p := w)) = (poster_abs r ps)(p := w)"
  "producers r' = (producers r)(p := st) \<Longrightarrow> mid_push r' p \<Longrightarrow> poster_abs r' ps = (poster_abs r ps)(p := WPushed)"
  "producers r' = (producers r)(p := st) \<Longrightarrow> (mid_push r' p \<longleftrightarrow> mid_push r p) \<Longrightarrow> poster_abs r' ps = poster_abs r ps"
  "producers r' = (producers r)(p := st) \<Longrightarrow> mid_push r p \<Longrightarrow> \<not> mid_push r' p \<Longrightarrow>
    poster_abs r' (ps(p := WPushed)) = poster_abs r ps"
  by (auto simp: poster_abs_def fun_eq_iff mid_push_def busy_def)

lemma pushing_wake:
  assumes "mpsc_inv (p_ring s)" and "p_posters s p \<noteq> WMustWake" and "lap_step (p_ring s) r"
    and "producers r p \<noteq> producers (p_ring s) p" and "\<And>h x. producers (p_ring s) p \<noteq> PWritten h x"
  shows "wake_abs (s\<lparr>p_ring := r\<rparr>) = wake_abs s \<or> wake_step tso (wake_abs s) (wake_abs (s\<lparr>p_ring := r\<rparr>))"
proof -
  from assms(3) have "mpsc_step (p_ring s) r" by (simp add: lap_step_def)
  note ps = producer_step [OF this assms(4)]
  from ps(1) obtain st where st: "producers r = (producers (p_ring s))(p := st)" by blast
  from ps(5) show ?thesis
  proof
    assume c: "claimed r = claimed (p_ring s) \<and>
      (mid_push r p \<longleftrightarrow> mid_push (p_ring s) p \<and> (\<forall>h x. producers (p_ring s) p \<noteq> PWritten h x))"
    then have "poster_abs r (p_posters s) = poster_abs (p_ring s) (p_posters s)"
      using assms(5) by (intro poster_abs_upd(3) [OF st]) simp
    then show ?thesis using c ps(3) by (simp add: wake_abs_def queued_def)
  next
    assume "\<exists>x. carried (producers (p_ring s) p) = Some x \<and> claimed r = claimed (p_ring s) @ [x] \<and>
      mid_push r p \<and> \<not> mid_push (p_ring s) p"
    then obtain x where x: "claimed r = claimed (p_ring s) @ [x]" "mid_push r p" "\<not> mid_push (p_ring s) p" by blast
    then have "length (queued r) = length (queued (p_ring s)) + 1"
      using ps(3) countsD(2) [OF mpsc_inv_counts [OF assms(1)]] by (simp add: queued_def)
    moreover have "poster_abs (p_ring s) (p_posters s) p \<in> {WIdle, WPushed}"
      using assms(2) by (cases "p_posters s p") (simp_all add: poster_abs_def)
    ultimately show ?thesis
      using wake_step.push [of "wake_abs s" p tso] by (simp add: wake_abs_def poster_abs_upd(2) [OF st x(2)])
  qed
qed

lemma pushed_wake:
  assumes "lap_step (p_ring s) r" and "producers r p \<noteq> producers (p_ring s) p" and "producers (p_ring s) p = PWritten h x"
  shows "wake_abs (s\<lparr>p_ring := r, p_posters := (p_posters s)(p := WPushed), p_todo := (p_todo s)(p := xs)\<rparr>) = wake_abs s"
proof -
  from assms(1) have "mpsc_step (p_ring s) r" by (simp add: lap_step_def)
  note ps = producer_step [OF this assms(2)]
  from ps(1) obtain st where st: "producers r = (producers (p_ring s))(p := st)" by blast
  have mid: "mid_push (p_ring s) p" using assms(3) by (auto simp: mid_push_def busy_def)
  with ps(5) assms(3) have "claimed r = claimed (p_ring s)" "\<not> mid_push r p" by auto
  then show ?thesis using ps(3) poster_abs_upd(4) [OF st mid] by (simp add: wake_abs_def queued_def)
qed

lemma popping_wake:
  assumes "mpsc_inv (p_ring s)" and "p_loop s = At LDrain" and "lap_step (p_ring s) r" and "producers r = producers (p_ring s)"
  shows "wake_abs (s\<lparr>p_ring := r\<rparr>) = wake_abs s \<or> wake_step tso (wake_abs s) (wake_abs (s\<lparr>p_ring := r\<rparr>))"
proof -
  from assms(3) have "mpsc_step (p_ring s) r" by (simp add: lap_step_def)
  note cs = consumer_step [OF this assms(4)]
  have pa: "poster_abs r = poster_abs (p_ring s)" using cs(2) by (simp add: poster_abs_def fun_eq_iff)
  from cs(3) show ?thesis
  proof
    assume "\<exists>t x. consumer (p_ring s) = CCleared t x \<and> popped r = popped (p_ring s) @ [x]"
    then obtain t x where x: "consumer (p_ring s) = CCleared t x" "popped r = popped (p_ring s) @ [x]" by blast
    then have "queued (p_ring s) = x # queued r" using advance_queued [OF assms(1)] cs(1) by (simp add: queued_def)
    then show ?thesis using wake_step.pop_task [of "wake_abs s" tso] assms(2) by (simp add: wake_abs_def pa)
  qed (use cs(1) pa in \<open>simp add: wake_abs_def queued_def\<close>)
qed

lemma post_step_wake:
  assumes "post_step lap_step tso s s'" and inv: "post_inv s"
  shows "wake_abs s' = wake_abs s \<or> wake_step tso (wake_abs s) (wake_abs s')"
proof -
  have m: "mpsc_inv (p_ring s)" and L: "loop_ok s" and ok: "posters_ok s" using inv by (simp_all add: post_inv_def)
  note P = posters_okD(2) [OF ok]
  have rest: "\<not> mid_push (p_ring s) p" if "p_todo s p = []" for p
    using posters_okD(1) [OF ok] that mid_carried by fastforce
  from assms(1) show ?thesis
  proof cases
    case (pushing p x xs r)
    then have "p_posters s p \<noteq> WMustWake" using P by auto
    from pushing_wake [OF m this pushing(3-5)] show ?thesis using pushing(1) by simp
  next
    case (pushed p x xs r h y)
    then show ?thesis using pushed_wake [OF pushed(3-5)] by simp
  next
    case (popping r)
    then show ?thesis using popping_wake [OF m popping(2-4)] by simp
  next
    case (pop_false r t)
    from pop_false(3) have "mpsc_step (p_ring s) r" by (simp add: lap_step_def)
    note cs = consumer_step [OF this pop_false(4)]
    have "consumer_ok (CTail t) (p_ring s)" using m pop_false(5) by (simp add: mpsc_inv_def)
    then have "queued (p_ring s) = []" using cs(4) [OF pop_false(5,6)] pending_zero [OF m] by simp
    moreover have "poster_abs r = poster_abs (p_ring s)" using cs(2) by (simp add: poster_abs_def fun_eq_iff)
    ultimately show ?thesis
      using wake_step.pop_fails [of "wake_abs s" tso] cs(1) cs(4) [OF pop_false(5,6)] pop_false
      by (simp add: wake_abs_def queued_def)
  next
    case (posted_awake p)
    note n = rest [OF posted_awake(3)]
    show ?thesis
      using wake_step.post_seen [of "wake_abs s" p tso] posted_awake n
      by (simp add: wake_abs_def poster_abs_upd(1) [OF n]) (simp add: poster_abs_def)
  next
    case (posted_asleep p)
    note n = rest [OF posted_asleep(3)]
    show ?thesis
      using wake_step.post_set [of "wake_abs s" p tso] posted_asleep n
      by (simp add: wake_abs_def poster_abs_upd(1) [OF n]) (simp add: poster_abs_def)
  next
    case (poster_wakes p)
    then have n: "\<not> mid_push (p_ring s) p" using P rest by simp
    show ?thesis
      using wake_step.post_write [of "wake_abs s" p tso] poster_wakes n
      by (simp add: wake_abs_def poster_abs_upd(1) [OF n]) (simp add: poster_abs_def)
  next
    case woken_up
    then show ?thesis using wake_step.wait_return [of "wake_abs s" tso] by (simp add: wake_abs_def)
  next
    case reads_eventfd
    then show ?thesis using wake_step.read_eventfd [of "wake_abs s" tso] by (simp add: wake_abs_def)
  next
    case clears
    then show ?thesis using wake_step.store [of "wake_abs s" tso] by (simp add: wake_abs_def)
  next
    case clears_buffered
    then show ?thesis using wake_step.store_buffered [of "wake_abs s" tso] by (simp add: wake_abs_def)
  next
    case drains_buffer
    then show ?thesis using wake_step.flush [of "wake_abs s" tso] by (simp add: wake_abs_def)
  next
    case looks_tail
    then show ?thesis by (simp add: wake_abs_def)
  next
    case (looks_empty t)
    then have "queued (p_ring s) = []" using L pending_zero [OF m] by (simp add: loop_ok_def)
    with looks_empty show ?thesis using wake_step.look_empty [of "wake_abs s" tso] by (simp add: wake_abs_def)
  next
    case (looks_item t)
    then have "queued (p_ring s) \<noteq> []" using L pending_zero [OF m] by (simp add: loop_ok_def)
    with looks_item show ?thesis using wake_step.look_item [of "wake_abs s" tso] by (simp add: wake_abs_def)
  next
    case loop_awake
    then show ?thesis using wake_step.loop_seen [of "wake_abs s" tso] by (simp add: wake_abs_def)
  next
    case loop_asleep
    then show ?thesis using wake_step.loop_set [of "wake_abs s" tso] by (simp add: wake_abs_def)
  next
    case loop_wakes
    then show ?thesis using wake_step.loop_write [of "wake_abs s" tso] by (simp add: wake_abs_def)
  qed
qed

lemma world_step_keeps: "world_step lap_step tso s s' \<Longrightarrow> post_inv s \<Longrightarrow> post_inv s'"
proof (induction rule: world_step.induct)
  case (call s p xs)
  then have P: "posters_ok s" and todo: "p_todo s p = []" "p_posters s p = WIdle" by (simp_all add: post_inv_def at_rest_def)
  note ok = posters_okD [OF P]
  have "carried (producers (p_ring s) p) = None" using ok(1) [of p] todo(1) by (cases "carried (producers (p_ring s) p)") auto
  then have "\<not> mid_push (p_ring s) p" by (rule idle_not_mid)
  then have "p_posted (hand p xs s) q = tasks_of q (claimed (p_ring s)) @ unclaimed (hand p xs s) q" for q
    using ok(3) [of q] todo(1) by (cases "q = p") (simp_all add: hand_def unclaimed_def)
  moreover have "\<exists>z zs. p_todo (hand p xs s) q = z # zs \<and> y = (q, z)" if "carried (producers (p_ring s) q) = Some y" for q y
    using that ok(1) [of q y] todo(1) by (cases "q = p") (auto simp: hand_def)
  moreover have "p_todo (hand p xs s) q = []" if "p_posters s q = WMustWake" for q
    using that ok(2) [of q] todo(2) by (cases "q = p") (simp_all add: hand_def)
  moreover have f: "p_ring (hand p xs s) = p_ring s" "p_posters (hand p xs s) = p_posters s" by (simp_all add: hand_def)
  ultimately have "posters_ok (hand p xs s)" unfolding posters_ok_def f by blast
  with call(3) show ?case by (simp add: post_inv_def loop_ok_def hand_def)
qed (rule post_inv_step)

lemma world_step_wake: "world_step lap_step tso s s' \<Longrightarrow> post_inv s \<Longrightarrow> wake_abs s' = wake_abs s \<or> wake_step tso (wake_abs s) (wake_abs s')"
  by (induction rule: world_step.induct) (simp_all add: post_step_wake, simp add: wake_abs_def hand_def)

interpretation posting: simulation "world_step lap_step tso" "wake_step tso" wake_abs post_inv
  by unfold_locales (use world_step_keeps world_step_wake in blast)+

lemma post_init_ok: "0 < n \<Longrightarrow> post_inv (post_init n x)"
  by (simp add: post_inv_def post_init_def inv_init posters_ok_def loop_ok_def unclaimed_def mid_push_def busy_def)
    (simp add: mpsc_init_def)

lemma post_init_abs: "wake_abs (post_init n x) = wake_init"
  by (simp add: post_init_def wake_abs_def wake_init_def poster_abs_def fun_eq_iff mid_push_def busy_def queued_def mpsc_init_def)

end
