(* ===== verification/Posting_Progress.thy ===== *)
theory Posting_Progress
  imports Wakeup_Queue
begin

text \<open>
  Facts about posting: what holds when everybody is at rest, why a batch that is too big for the queue
  never ends, and that single posts always get through.
\<close>

section \<open>Nothing is left behind\<close>

lemma world_inv:
  assumes "(world_step lap_step tso)\<^sup>*\<^sup>* (post_init n x) s" and "0 < n"
  shows "post_inv s"
  using posting.reachable [OF assms(1) post_init_ok [OF assms(2)]] .

lemma world_wake_inv:
  assumes "(world_step lap_step False)\<^sup>*\<^sup>* (post_init n x) s" and "0 < n"
  shows "wake_inv (wake_abs s)"
  using posting.refines [OF assms(1) post_init_ok [OF assms(2)]] wake_inv_reachable by (simp add: post_init_abs)

lemma rest_unclaimed: "posters_ok s \<Longrightarrow> at_rest s p \<Longrightarrow> unclaimed s p = [] \<and> \<not> mid_push (p_ring s) p"
  using posters_okD(1) [of s p] mid_carried [of "p_ring s" p] by (fastforce simp: at_rest_def unclaimed_def)

definition asleep :: "'a posting \<Rightarrow> bool" where
  "asleep s \<longleftrightarrow> p_loop s = At LSleep \<and> p_eventfd s = 0"

lemma asleep_empty:
  assumes "post_inv s" and "wake_inv (wake_abs s)" and "asleep s" and "\<And>p. p_posters s p = WIdle"
    and "\<And>p. \<not> mid_push (p_ring s) p"
  shows "queued (p_ring s) = []"
proof -
  have "posters (wake_abs s) p = WIdle" for p using assms(4,5) by (simp add: wake_abs_def poster_abs_def)
  moreover have "looper_at (wake_abs s) = LSleep" "eventfd (wake_abs s) = 0"
    using assms(3) by (simp_all add: asleep_def wake_abs_def)
  ultimately have "pending_tasks (wake_abs s) = 0" using assms(2) by (simp add: wake_inv_def waking_def)
  then show ?thesis by (simp add: wake_abs_def)
qed

lemma queued_empty: "mpsc_inv r \<Longrightarrow> queued r = [] \<Longrightarrow> popped r = claimed r"
  using append_take_drop_id [of "length (popped r)" "claimed r"] countsD(4) [OF mpsc_inv_counts, of r]
  unfolding queued_def by (metis append_Nil2)

definition settled :: "'a posting \<Rightarrow> bool" where
  "settled s \<longleftrightarrow> asleep s \<and> (\<forall>p. at_rest s p)"

lemma settled_tasks:
  assumes "post_inv s" and "wake_inv (wake_abs s)" and "settled s"
  shows "tasks_of p (popped (p_ring s)) = p_posted s p"
proof -
  have ok: "posters_ok s" and m: "mpsc_inv (p_ring s)" using assms(1) by (simp_all add: post_inv_def)
  have rest: "unclaimed s q = [] \<and> \<not> mid_push (p_ring s) q" for q
    using rest_unclaimed [OF ok] assms(3) by (simp add: settled_def)
  have "queued (p_ring s) = []"
    using assms(3) rest by (intro asleep_empty [OF assms(1,2)]) (simp_all add: settled_def at_rest_def)
  with posters_okD(3) [OF ok, of p] rest queued_empty [OF m] show ?thesis by simp
qed

section \<open>A batch that does not fit\<close>

text \<open>The loop sleeps, one thread is in the middle of a call, and nobody has taken anything out of the queue.\<close>

definition stuck :: "nat \<Rightarrow> 'a posting \<Rightarrow> bool" where
  "stuck p s \<longleftrightarrow> post_inv s \<and> asleep s \<and> \<not> p_buffered s \<and> popped (p_ring s) = [] \<and>
     (\<forall>q. q \<noteq> p \<longrightarrow> at_rest s q) \<and> p_posters s p \<noteq> WMustWake \<and> capacity (p_ring s) \<le> length (p_posted s p)"

lemma tasks_of_length: "length (tasks_of p xs) \<le> length xs"
  by (simp add: tasks_of_def)

lemma stuck_todo:
  assumes "stuck p s"
  shows "p_todo s p \<noteq> []"
proof
  assume todo: "p_todo s p = []"
  have inv: "mpsc_inv (p_ring s)" "posters_ok s" using assms by (simp_all add: stuck_def post_inv_def)
  have "length (tasks_of p (claimed (p_ring s))) < capacity (p_ring s)"
    using countsD(3) [OF mpsc_inv_counts [OF inv(1)]] tasks_of_length [of p "claimed (p_ring s)"] assms by (simp add: stuck_def)
  moreover have "p_posted s p = tasks_of p (claimed (p_ring s))"
    using posters_okD(3) [OF inv(2), of p] todo by (simp add: unclaimed_def)
  ultimately show False using assms by (simp add: stuck_def)
qed

lemma stuck_step:
  assumes "post_step lap_step tso s s'" and "stuck p s"
  shows "stuck p s'"
proof -
  have inv: "post_inv s'" using post_inv_step [OF assms(1)] assms(2) by (simp add: stuck_def)
  note todo = stuck_todo [OF assms(2)]
  have rest: "q = p" if "p_todo s q \<noteq> [] \<or> p_posters s q \<noteq> WIdle" for q
    using assms(2) that by (auto simp: stuck_def at_rest_def)
  from assms(1) show ?thesis
  proof cases
    case (pushing q x xs r)
    from pushing(3) have "mpsc_step (p_ring s) r" by (simp add: lap_step_def)
    with producer_step(3) [OF this pushing(4)] step_capacity [OF this] inv pushing(1) assms(2) show ?thesis
      by (simp add: stuck_def asleep_def at_rest_def)
  next
    case (pushed q x xs r h y)
    from pushed(3) have "mpsc_step (p_ring s) r" by (simp add: lap_step_def)
    with producer_step(3) [OF this pushed(4)] step_capacity [OF this] inv pushed(1) rest [of q] pushed(2) assms(2) show ?thesis
      by (simp add: stuck_def asleep_def at_rest_def)
  next
    case (posted_awake q)
    with rest [of q] todo show ?thesis by auto
  next
    case (posted_asleep q)
    with rest [of q] todo show ?thesis by auto
  next
    case (poster_wakes q)
    with rest [of q] assms(2) show ?thesis by (auto simp: stuck_def)
  qed (use assms(2) in \<open>simp_all add: stuck_def asleep_def\<close>)
qed

text \<open>A single thread that pushes is not overtaken: what it has checked is still so at its exchange.\<close>

definition checked_room :: "nat \<Rightarrow> 'a mpsc \<Rightarrow> bool" where
  "checked_room p r \<longleftrightarrow> (\<forall>y. producers r p = PChecked (head r) y \<longrightarrow> ring_next (capacity r) (head r) \<noteq> tail r)"

lemma checked_in_lap:
  assumes "mpsc_step r r'" and "producers r' p \<noteq> producers r p" and "checked_room p r"
  shows "lap_step r r'" and "checked_room p r'"
proof -
  have "in_lap r r' \<and> checked_room p r'"
    using assms by (induction rule: mpsc_step.induct)
      (auto simp: in_lap_def checked_room_def set_producer_def set_slot_def split: if_splits)
  with assms(1) show "lap_step r r'" "checked_room p r'" by (simp_all add: lap_step_def)
qed

lemma alone_step:
  assumes "post_step mpsc_step tso s s'" and st: "stuck p s" and c: "checked_room p (p_ring s)"
  shows "post_step lap_step tso s s' \<and> checked_room p (p_ring s')"
proof -
  have todo: "q = p" if "p_todo s q = x # xs" for q x xs
    using st that unfolding stuck_def at_rest_def by (metis list.distinct(1))
  have asleep: "p_loop s = At LSleep" using st by (simp add: stuck_def asleep_def)
  from assms(1) show ?thesis
  proof cases
    case (pushing q x xs r)
    with todo have "producers r p \<noteq> producers (p_ring s) p" by blast
    note lap = checked_in_lap [OF pushing(3) this c]
    show ?thesis
      using post_step.pushing [of s q x xs lap_step r, OF pushing(2) lap(1) pushing(4-6)] lap(2) pushing(1) by simp
  next
    case (pushed q x xs r h y)
    with todo have "producers r p \<noteq> producers (p_ring s) p" by blast
    note lap = checked_in_lap [OF pushed(3) this c]
    show ?thesis
      using post_step.pushed [of s q x xs lap_step r, OF pushed(2) lap(1) pushed(4,5)] lap(2) pushed(1) by simp
  next
    case (poster_wakes q)
    with post_step.poster_wakes [of s q lap_step tso] c show ?thesis by simp
  qed (use asleep c in \<open>auto intro: post_step.intros\<close>)
qed

section \<open>Posting always gets through\<close>

text \<open>Threads with numbers below \<open>N\<close>, each posting one task per call.\<close>

definition single_ok :: "nat \<Rightarrow> nat \<Rightarrow> 'a posting \<Rightarrow> bool" where
  "single_ok n N s \<longleftrightarrow> post_inv s \<and> wake_inv (wake_abs s) \<and> capacity (p_ring s) = n \<and> (\<forall>p \<ge> N. at_rest s p) \<and>
     (\<forall>p. length (p_todo s p) \<le> 1 \<and> (p_posters s p \<noteq> WIdle \<longrightarrow> p_todo s p = []))"

fun poster_rank :: "poster \<Rightarrow> nat" where
  "poster_rank WIdle = 0" | "poster_rank WMustWake = 1" | "poster_rank WPushed = 2"

definition thread_rank :: "'a posting \<Rightarrow> nat \<Rightarrow> nat" where
  "thread_rank s p = 3 * length (p_todo s p) + poster_rank (p_posters s p)"

definition work :: "nat \<Rightarrow> 'a posting \<Rightarrow> nat" where
  "work N s = (\<Sum>p<N. thread_rank s p)"

lemma single_step:
  assumes "post_step lap_step False s s'" and "single_ok n N s"
  shows "single_ok n N s'"
proof -
  have inv: "post_inv s" and w: "wake_inv (wake_abs s)" using assms(2) by (simp_all add: single_ok_def)
  have "wake_inv (wake_abs s')" using post_step_wake [OF assms(1) inv] wake_inv_step w by auto
  moreover have "capacity (p_ring s') = n"
    using assms by (induction rule: post_step.induct) (auto simp: single_ok_def lap_step_def step_capacity)
  moreover have "\<forall>p \<ge> N. at_rest s' p"
    using assms by (induction rule: post_step.induct) (force simp: single_ok_def at_rest_def)+
  moreover have "\<forall>p. length (p_todo s' p) \<le> 1 \<and> (p_posters s' p \<noteq> WIdle \<longrightarrow> p_todo s' p = [])"
    using assms(1)
  proof cases
    case (pushed p x xs r h y)
    have "length (p_todo s p) \<le> 1" using assms(2) by (simp add: single_ok_def)
    with pushed(2) have "xs = []" by simp
    with pushed(1) assms(2) show ?thesis by (simp add: single_ok_def)
  qed (use assms(2) in \<open>auto simp: single_ok_def\<close>)
  ultimately show ?thesis using post_inv_step [OF assms(1) inv] by (simp add: single_ok_def)
qed

lemma single_run: "(post_step lap_step False)\<^sup>*\<^sup>* s s' \<Longrightarrow> single_ok n N s \<Longrightarrow> single_ok n N s'"
  by (induction rule: rtranclp_induct) (simp_all add: single_step)

lemma work_less:
  assumes "p < N" and "\<And>q. q \<noteq> p \<Longrightarrow> thread_rank s' q = thread_rank s q" and "thread_rank s' p < thread_rank s p"
  shows "work N s' < work N s"
  unfolding work_def
proof (rule sum_strict_mono_ex1)
  show "\<forall>q \<in> {..<N}. thread_rank s' q \<le> thread_rank s q"
  proof
    fix q show "thread_rank s' q \<le> thread_rank s q" using assms(2) [of q] assms(3) by (cases "q = p") auto
  qed
qed (use assms(1,3) in auto)

lemma active_less: "single_ok n N s \<Longrightarrow> p_todo s p \<noteq> [] \<or> p_posters s p \<noteq> WIdle \<Longrightarrow> p < N"
  by (metis at_rest_def not_less single_ok_def)

text \<open>A push that has won its place is finished.\<close>

definition better :: "nat \<Rightarrow> 'a posting \<Rightarrow> bool" where
  "better N s \<longleftrightarrow> (\<exists>s'. (post_step lap_step False)\<^sup>*\<^sup>* s s' \<and> work N s' < work N s)"

lemma better_run: "(post_step lap_step False)\<^sup>*\<^sup>* s s' \<Longrightarrow> work N s' \<le> work N s \<Longrightarrow> better N s' \<Longrightarrow> better N s"
  unfolding better_def by (meson less_le_trans rtranclp_trans)

lemma no_claim_lap: "mpsc_step s s' \<Longrightarrow> claimed s' = claimed s \<Longrightarrow> lap_step s s'"
  by (simp add: lap_step_def in_lap_def)

lemma written_better:
  assumes "single_ok n N s" and w: "producers (p_ring s) p = PWritten h y"
  shows "better N s"
proof -
  let ?r = "set_slot h ((slots (p_ring s) ! h)\<lparr>seq := h\<rparr>) (set_producer p PIdle (p_ring s))"
  have "posters_ok s" using assms(1) by (simp add: single_ok_def post_inv_def)
  from posters_okD(1) [OF this, of p y] w obtain x xs where x: "p_todo s p = x # xs" by auto
  then have idle: "p_posters s p = WIdle" using assms(1) by (auto simp: single_ok_def)
  let ?s = "s\<lparr>p_ring := ?r, p_posters := (p_posters s)(p := WPushed), p_todo := (p_todo s)(p := xs)\<rparr>"
  have "lap_step (p_ring s) ?r" by (rule no_claim_lap [OF store_seq [OF w]]) simp
  then have "post_step lap_step False s ?s" using w x by (intro pushed) simp_all
  moreover have "work N ?s < work N s"
    using active_less [OF assms(1), of p] x idle by (intro work_less [of p]) (simp_all add: thread_rank_def)
  ultimately show ?thesis unfolding better_def by blast
qed

lemma pushing_better:
  assumes "single_ok n N s" and c: "carried (producers (p_ring s) p) \<noteq> None \<or> p_todo s p \<noteq> []"
    and "lap_step (p_ring s) r" and "producers r p \<noteq> producers (p_ring s) p"
    and "\<And>h y. producers (p_ring s) p \<noteq> PWritten h y" and "\<And>h y. producers r p = PLoaded h y \<Longrightarrow> y = (p, hd (p_todo s p))"
    and "single_ok n N (s\<lparr>p_ring := r\<rparr>) \<Longrightarrow> better N (s\<lparr>p_ring := r\<rparr>)"
  shows "better N s"
proof -
  have "posters_ok s" using assms(1) by (simp add: single_ok_def post_inv_def)
  from posters_okD(1) [OF this, of p] c obtain x xs where x: "p_todo s p = x # xs"
    by (cases "p_todo s p") fastforce+
  then have "post_step lap_step False s (s\<lparr>p_ring := r\<rparr>)" using assms(3-6) by (intro post_step.pushing [OF x]) simp_all
  with assms(7) single_step [OF this assms(1)] have "better N (s\<lparr>p_ring := r\<rparr>)" "(post_step lap_step False)\<^sup>*\<^sup>* s (s\<lparr>p_ring := r\<rparr>)"
    by blast+
  then show ?thesis by (intro better_run [of s "s\<lparr>p_ring := r\<rparr>"]) (simp_all add: work_def thread_rank_def)
qed

lemma claimed_better:
  assumes "single_ok n N s" and c: "producers (p_ring s) p = PClaimed h y"
  shows "better N s"
proof (rule pushing_better [OF assms(1), of p])
  let ?r = "set_slot h ((slots (p_ring s) ! h)\<lparr>item := y\<rparr>) (set_producer p (PWritten h y) (p_ring s))"
  show "lap_step (p_ring s) ?r" by (rule no_claim_lap [OF store_item [OF c]]) simp
  show "better N (s\<lparr>p_ring := ?r\<rparr>)" if "single_ok n N (s\<lparr>p_ring := ?r\<rparr>)" by (rule written_better [OF that, of p h y]) simp
qed (use c in simp_all)

lemma mid_better: "single_ok n N s \<Longrightarrow> mid_push (p_ring s) p \<Longrightarrow> better N s"
  using claimed_better written_better by (auto simp: mid_push_def busy_def)

text \<open>With room in the queue every push succeeds.\<close>

definition roomy :: "'a mpsc \<Rightarrow> bool" where
  "roomy r \<longleftrightarrow> ring_next (capacity r) (head r) \<noteq> tail r"

lemma roomy_producer [simp]: "roomy (set_producer p st r) = roomy r"
  by (simp add: roomy_def)

lemma checked_head_better:
  assumes "single_ok n N s" and c: "producers (p_ring s) p = PChecked (head (p_ring s)) y" and "roomy (p_ring s)"
  shows "better N s"
proof (rule pushing_better [OF assms(1), of p])
  let ?r = "(set_producer p (PClaimed (head (p_ring s)) y) (p_ring s))
      \<lparr>mq := (mq (p_ring s))\<lparr>mp_head := ring_next (capacity (p_ring s)) (head (p_ring s))\<rparr>, claimed := claimed (p_ring s) @ [y]\<rparr>"
  show "lap_step (p_ring s) ?r" using cas_ok [OF c] assms(3) by (simp add: lap_step_def in_lap_def roomy_def)
  show "better N (s\<lparr>p_ring := ?r\<rparr>)" if "single_ok n N (s\<lparr>p_ring := ?r\<rparr>)"
    by (rule claimed_better [OF that, of p "head (p_ring s)" y]) simp
qed (use c in simp_all)

lemma loaded_head_better:
  assumes "single_ok n N s" and c: "producers (p_ring s) p = PLoaded (head (p_ring s)) y" and "roomy (p_ring s)"
  shows "better N s"
proof (rule pushing_better [OF assms(1), of p])
  let ?r = "set_producer p (PChecked (head (p_ring s)) y) (p_ring s)"
  show "lap_step (p_ring s) ?r" using assms(3) by (intro no_claim_lap [OF check [OF c]]) (simp_all add: roomy_def)
  show "better N (s\<lparr>p_ring := ?r\<rparr>)" if "single_ok n N (s\<lparr>p_ring := ?r\<rparr>)"
    using assms(3) by (intro checked_head_better [OF that, of p y]) simp_all
qed (use c in simp_all)

lemma idle_better:
  assumes "single_ok n N s" and c: "producers (p_ring s) p = PIdle" "p_todo s p \<noteq> []" and "roomy (p_ring s)"
  shows "better N s"
proof (rule pushing_better [OF assms(1), of p])
  let ?y = "(p, hd (p_todo s p))"
  let ?r = "set_producer p (PLoaded (head (p_ring s)) ?y) (p_ring s)"
  show "lap_step (p_ring s) ?r" by (rule no_claim_lap [OF load [OF c(1)]]) simp
  show "better N (s\<lparr>p_ring := ?r\<rparr>)" if "single_ok n N (s\<lparr>p_ring := ?r\<rparr>)"
    using assms(4) by (intro loaded_head_better [OF that, of p ?y]) simp_all
qed (use c in simp_all)

lemma checked_better:
  assumes "single_ok n N s" and c: "producers (p_ring s) p = PChecked h y" and "roomy (p_ring s)"
  shows "better N s"
proof (cases "h = head (p_ring s)")
  case True
  with checked_head_better [OF assms(1) _ assms(3)] c show ?thesis by simp
next
  case False
  have "posters_ok s" using assms(1) by (simp add: single_ok_def post_inv_def)
  from posters_okD(1) [OF this, of p y] c have y: "y = (p, hd (p_todo s p))" by auto
  show ?thesis
  proof (rule pushing_better [OF assms(1), of p])
    let ?r = "set_producer p (PLoaded (head (p_ring s)) y) (p_ring s)"
    show "lap_step (p_ring s) ?r" by (rule no_claim_lap [OF cas_fail [OF c]]) simp
    show "better N (s\<lparr>p_ring := ?r\<rparr>)" if "single_ok n N (s\<lparr>p_ring := ?r\<rparr>)"
      using assms(3) by (intro loaded_head_better [OF that, of p y]) simp_all
  qed (use c y in simp_all)
qed

lemma loaded_better:
  assumes "single_ok n N s" and c: "producers (p_ring s) p = PLoaded h y" and "roomy (p_ring s)"
  shows "better N s"
proof (cases "ring_next (capacity (p_ring s)) h = tail (p_ring s)")
  case True
  have "posters_ok s" using assms(1) by (simp add: single_ok_def post_inv_def)
  from posters_okD(1) [OF this, of p y] c have todo: "p_todo s p \<noteq> []" by auto
  show ?thesis
  proof (rule pushing_better [OF assms(1), of p])
    let ?r = "set_producer p PIdle (p_ring s)"
    show "lap_step (p_ring s) ?r" by (rule no_claim_lap [OF full [OF c True]]) simp
    show "better N (s\<lparr>p_ring := ?r\<rparr>)" if "single_ok n N (s\<lparr>p_ring := ?r\<rparr>)"
      using assms(3) todo by (intro idle_better [OF that, of p]) simp_all
  qed (use c in simp_all)
next
  case False
  show ?thesis
  proof (rule pushing_better [OF assms(1), of p])
    let ?r = "set_producer p (PChecked h y) (p_ring s)"
    show "lap_step (p_ring s) ?r" by (rule no_claim_lap [OF check [OF c False]]) simp
    show "better N (s\<lparr>p_ring := ?r\<rparr>)" if "single_ok n N (s\<lparr>p_ring := ?r\<rparr>)"
      using assms(3) by (intro checked_better [OF that, of p h y]) simp_all
  qed (use c in simp_all)
qed

lemma push_better:
  assumes "single_ok n N s" and "p_todo s p \<noteq> []" and "roomy (p_ring s)"
  shows "better N s"
  using assms idle_better loaded_better checked_better claimed_better written_better
  by (cases "producers (p_ring s) p") blast+

text \<open>The loop thread by itself goes to sleep, with the queue drained.\<close>

fun pop_rank :: "'a consumer \<Rightarrow> nat" where
  "pop_rank CIdle = 5" | "pop_rank (CTail t) = 4" | "pop_rank (CWait t) = 3" | "pop_rank (CReady t) = 2"
| "pop_rank (CTaken t x) = 1" | "pop_rank (CCleared t x) = 0"

definition loop_rank :: "'a posting \<Rightarrow> nat" where
  "loop_rank s =
     (let round = 6 * length (queued (p_ring s)) + 20;
          last = queued (p_ring s) = [] \<and> p_eventfd s = 0 in
      case p_loop s of
        At LSleep \<Rightarrow> if p_eventfd s = 0 then 0 else round + 1
      | At LRead \<Rightarrow> round
      | At LDrain \<Rightarrow> 6 * length (queued (p_ring s)) + pop_rank (consumer (p_ring s)) + (if p_eventfd s = 0 then 10 else 40)
      | At LClear \<Rightarrow> if last then 5 else round + 6
      | At LStored \<Rightarrow> if last then 4 else round + 5
      | Look t \<Rightarrow> if last then 3 else round + 4
      | At LSawItem \<Rightarrow> round + 3
      | At LMustWake \<Rightarrow> round + 2)"

definition loop_only :: "'a posting \<Rightarrow> 'a posting \<Rightarrow> bool" where
  "loop_only s0 s \<longleftrightarrow> post_inv s \<and> wake_inv (wake_abs s) \<and> producers (p_ring s) = producers (p_ring s0) \<and>
     p_posters s = p_posters s0 \<and> p_todo s = p_todo s0 \<and> (\<forall>p. \<not> mid_push (p_ring s) p)"

lemma loop_onlyI:
  assumes "loop_only s0 s" and "post_step lap_step False s s'" and "producers (p_ring s') = producers (p_ring s)"
    and "p_posters s' = p_posters s" and "p_todo s' = p_todo s"
  shows "loop_only s0 s'"
proof -
  have "wake_inv (wake_abs s')" using post_step_wake [OF assms(2)] wake_inv_step assms(1) by (auto simp: loop_only_def)
  moreover have "post_inv s'" using post_inv_step [OF assms(2)] assms(1) by (simp add: loop_only_def)
  moreover have "mid_push (p_ring s') p = mid_push (p_ring s) p" for p by (simp add: mid_push_def busy_def assms(3))
  ultimately show ?thesis using assms by (simp add: loop_only_def)
qed

lemma pop_advances:
  assumes s: "loop_only s0 s" and d: "p_loop s = At LDrain"
  shows "\<exists>s'. post_step lap_step False s s' \<and> loop_only s0 s' \<and> loop_rank s' < loop_rank s"
proof -
  let ?r = "p_ring s"
  have m: "mpsc_inv ?r" and mid: "\<And>p. \<not> mid_push ?r p" using s by (simp_all add: loop_only_def post_inv_def)
  have ok: "consumer_ok (consumer ?r) ?r" using m by (simp add: mpsc_inv_def)
  have pop: ?thesis if "mpsc_step ?r r" "claimed r = claimed ?r" "producers r = producers ?r"
    "\<And>t. consumer ?r = CTail t \<Longrightarrow> consumer r \<noteq> CIdle"
    "6 * length (queued r) + pop_rank (consumer r) < 6 * length (queued ?r) + pop_rank (consumer ?r)" for r
  proof -
    have st: "post_step lap_step False s (s\<lparr>p_ring := r\<rparr>)"
      using popping [where ring = lap_step, OF d no_claim_lap [OF that(1,2)] that(3,4)] .
    have "loop_only s0 (s\<lparr>p_ring := r\<rparr>)" by (rule loop_onlyI [OF s st]) (simp_all add: that(3))
    with st that(5) d show ?thesis by (intro exI [of _ "s\<lparr>p_ring := r\<rparr>"]) (simp add: loop_rank_def Let_def)
  qed
  show ?thesis
  proof (cases "consumer ?r")
    case CIdle
    show ?thesis by (rule pop [OF load_tail [OF CIdle]]) (simp_all add: CIdle queued_def)
  next
    case (CTail t)
    show ?thesis
    proof (cases "t = head ?r")
      case False
      show ?thesis by (rule pop [OF see_item [OF CTail False]]) (simp_all add: CTail queued_def)
    next
      case True
      have q: "queued ?r = []" using True ok CTail pending_zero [OF m] by simp
      let ?s = "s\<lparr>p_ring := ?r\<lparr>consumer := CIdle\<rparr>, p_loop := At LClear\<rparr>"
      have "lap_step ?r (?r\<lparr>consumer := CIdle\<rparr>)" by (rule no_claim_lap [OF see_empty [OF CTail True]]) simp
      from pop_false [where ring = lap_step and tso = False, OF d this _ CTail] have st: "post_step lap_step False s ?s" by simp
      have "loop_only s0 ?s" by (rule loop_onlyI [OF s st]) simp_all
      moreover have "queued (?r\<lparr>consumer := CIdle\<rparr>) = []" using q by (simp add: queued_def)
      then have "loop_rank ?s < loop_rank s" using d q CTail by (simp add: loop_rank_def Let_def)
      ultimately show ?thesis using st by blast
    qed
  next
    case (CWait t)
    then have t: "t = place ?r (length (popped ?r))" "live ?r (length (popped ?r))"
      using ok countsD(6) [OF mpsc_inv_counts [OF m]] by simp_all
    then have "seq (slots ?r ! t) \<noteq> invalid ?r"
      using slotsD(1) [of ?r "length (popped ?r)"] m mid CWait by (auto simp: mpsc_inv_def mid_push_def)
    from ready [OF CWait this] show ?thesis by (rule pop) (simp_all add: CWait queued_def)
  next
    case (CReady t)
    show ?thesis by (rule pop [OF take_item [OF CReady]]) (simp_all add: CReady queued_def)
  next
    case (CTaken t x)
    show ?thesis by (rule pop [OF clear [OF CTaken]]) (simp_all add: CTaken queued_def)
  next
    case (CCleared t x)
    show ?thesis
      using advance_queued [OF m CCleared] by (intro pop [OF advance [OF CCleared]]) (simp_all add: CCleared queued_def)
  qed
qed

lemma loop_advances:
  assumes s: "loop_only s0 s" and "\<not> asleep s"
  shows "\<exists>s'. post_step lap_step False s s' \<and> loop_only s0 s' \<and> loop_rank s' < loop_rank s"
proof -
  let ?r = "p_ring s"
  have m: "mpsc_inv ?r" and L: "loop_ok s" and nb: "\<not> p_buffered s"
    using s by (simp_all add: loop_only_def post_inv_def wake_inv_def wake_abs_def)
  have go: ?thesis if "post_step lap_step False s s'" "p_ring s' = ?r" "p_posters s' = p_posters s" "p_todo s' = p_todo s"
    "loop_rank s' < loop_rank s" for s'
    using that loop_onlyI [OF s that(1)] by auto
  note rank = loop_rank_def Let_def
  show ?thesis
  proof (cases "p_loop s")
    case (Look t)
    then have q: "t = head ?r \<longleftrightarrow> queued ?r = []" using L pending_zero [OF m] by (auto simp: loop_ok_def)
    show ?thesis
    proof (cases "t = head ?r")
      case True
      show ?thesis by (rule go [OF looks_empty [OF Look True]]) (use Look q True in \<open>simp_all add: rank\<close>)
    next
      case False
      show ?thesis by (rule go [OF looks_item [OF Look False]]) (use Look q False in \<open>simp_all add: rank\<close>)
    qed
  next
    case (At l)
    show ?thesis
    proof (cases l)
      case LSleep
      then have e: "0 < p_eventfd s" using At assms(2) by (simp add: asleep_def)
      show ?thesis by (rule go [OF woken_up [OF At [unfolded LSleep] e]]) (use At LSleep e in \<open>simp_all add: rank\<close>)
    next
      case LRead
      have "loop_rank (s\<lparr>p_eventfd := 0, p_loop := At LDrain\<rparr>) < loop_rank s"
        using At LRead by (cases "consumer ?r") (simp_all add: rank)
      with go [OF reads_eventfd [OF At [unfolded LRead]]] show ?thesis by simp
    next
      case LDrain
      with pop_advances [OF s] At show ?thesis by simp
    next
      case LClear
      show ?thesis by (rule go [OF clears [OF At [unfolded LClear]]]) (use At LClear in \<open>simp_all add: rank\<close>)
    next
      case LStored
      show ?thesis by (rule go [OF looks_tail [OF At [unfolded LStored]]]) (use At LStored in \<open>simp_all add: rank\<close>)
    next
      case LSawItem
      show ?thesis
      proof (cases "p_flag s")
        case True
        show ?thesis by (rule go [OF loop_awake [OF At [unfolded LSawItem] nb True]]) (use At LSawItem in \<open>simp_all add: rank\<close>)
      next
        case False
        show ?thesis by (rule go [OF loop_asleep [OF At [unfolded LSawItem] nb False]]) (use At LSawItem in \<open>simp_all add: rank\<close>)
      qed
    next
      case LMustWake
      show ?thesis by (rule go [OF loop_wakes [OF At [unfolded LMustWake]]]) (use At LMustWake in \<open>simp_all add: rank\<close>)
    qed
  qed
qed

interpretation looping: progress "post_step lap_step False" "loop_only s0" asleep loop_rank
  by unfold_locales (use loop_advances in blast)

lemma exchange_better:
  assumes s: "single_ok n N s" and p: "p_posters s p \<noteq> WIdle"
  shows "better N s"
proof -
  have todo: "p_todo s p = []" using assms by (simp add: single_ok_def)
  have less: "p < N" using active_less [OF s, of p] p by blast
  obtain w f e where st: "post_step lap_step False s (s\<lparr>p_posters := (p_posters s)(p := w), p_flag := f, p_eventfd := e\<rparr>)"
    and w: "poster_rank w < poster_rank (p_posters s p)"
  proof (cases "p_posters s p")
    case WPushed
    show ?thesis
    proof (cases "p_flag s")
      case True
      from posted_awake [OF WPushed todo True] WPushed that [where w = WIdle and f = "p_flag s" and e = "p_eventfd s"] show ?thesis by simp
    next
      case False
      from posted_asleep [OF WPushed todo False] WPushed that [where w = WMustWake and f = True and e = "p_eventfd s"] show ?thesis by simp
    qed
  next
    case WMustWake
    from poster_wakes [OF WMustWake] WMustWake that [where w = WIdle and f = "p_flag s" and e = "p_eventfd s + 1"] show ?thesis by simp
  qed (use p in simp)
  have "work N (s\<lparr>p_posters := (p_posters s)(p := w), p_flag := f, p_eventfd := e\<rparr>) < work N s"
    using less w by (intro work_less [of p]) (simp_all add: thread_rank_def)
  with st show ?thesis unfolding better_def by blast
qed

text \<open>The loop sleeps, nobody is between push and wake-up, and the queue is empty: the next push finds room.\<close>

lemma empty_roomy:
  assumes "mpsc_inv r" and "queued r = []" and "2 \<le> capacity r"
  shows "roomy r"
proof -
  have "head r = tail r" using assms(1,2) pending_zero by blast
  moreover have "tail r < capacity r" using countsD(1,6) [OF mpsc_inv_counts [OF assms(1)]] by (simp add: place_def)
  ultimately show ?thesis using assms(3) by (auto simp: roomy_def ring_next_def mod_Suc)
qed

lemma settled_or_better:
  assumes s: "single_ok n N s" and n: "2 \<le> n" and a: "asleep s" and "\<not> settled s"
  shows "better N s"
proof (cases "(\<exists>p. mid_push (p_ring s) p) \<or> (\<exists>p. p_posters s p \<noteq> WIdle)")
  case True
  with mid_better [OF s] exchange_better [OF s] show ?thesis by blast
next
  case False
  then have "queued (p_ring s) = []"
    using s a by (intro asleep_empty) (simp_all add: single_ok_def)
  then have "roomy (p_ring s)" using s n by (intro empty_roomy) (simp_all add: single_ok_def post_inv_def)
  moreover obtain p where "p_todo s p \<noteq> []" using assms(3,4) False by (auto simp: settled_def at_rest_def)
  ultimately show ?thesis by (intro push_better [OF s])
qed

lemma single_advances:
  assumes s: "single_ok n N s" and n: "2 \<le> n"
  shows "better N s \<or> (\<exists>s'. (post_step lap_step False)\<^sup>*\<^sup>* s s' \<and> settled s')"
proof (cases "\<exists>p. mid_push (p_ring s) p")
  case True
  with mid_better [OF s] show ?thesis by blast
next
  case False
  then have "loop_only s s" using s by (simp add: loop_only_def single_ok_def)
  from looping.reaches_goal [OF this] obtain s' where
    s': "(post_step lap_step False)\<^sup>*\<^sup>* s s'" "loop_only s s'" "asleep s'" by blast
  have "single_ok n N s'" using single_run [OF s'(1) s] .
  moreover have "work N s' = work N s" using s'(2) by (simp add: loop_only_def work_def thread_rank_def)
  ultimately show ?thesis
    using settled_or_better [of n N s'] n s'(1,3) better_run [OF s'(1)] by (cases "settled s'") auto
qed

definition can_settle :: "'a posting \<Rightarrow> bool" where
  "can_settle s \<longleftrightarrow> (\<exists>s'. (post_step lap_step False)\<^sup>*\<^sup>* s s' \<and> settled s')"

interpretation single: progress "post_step lap_step False" "single_ok (Suc (Suc n)) N" can_settle "work N"
proof
  fix s :: "'a posting" assume s: "single_ok (Suc (Suc n)) N s" "\<not> can_settle s"
  with single_advances [OF s(1)] obtain s' where "(post_step lap_step False)\<^sup>*\<^sup>* s s'" "work N s' < work N s"
    by (auto simp: can_settle_def better_def)
  with single_run [OF _ s(1)] show "\<exists>s'. (post_step lap_step False)\<^sup>*\<^sup>* s s' \<and> single_ok (Suc (Suc n)) N s' \<and> work N s' < work N s"
    by blast
qed

lemma post_step_posted: "post_step lap_step tso s s' \<Longrightarrow> p_posted s' = p_posted s"
  by (induction rule: post_step.induct) simp_all

lemma post_run_posted: "(post_step lap_step tso)\<^sup>*\<^sup>* s s' \<Longrightarrow> p_posted s' = p_posted s"
  by (induction rule: rtranclp_induct) (simp_all add: post_step_posted)

text \<open>Threads that post single tasks.\<close>

inductive single_call :: "'a posting \<Rightarrow> 'a posting \<Rightarrow> bool" where
  call_one: "at_rest s p \<Longrightarrow> single_call s (hand p [x] s)"
| internal_one: "post_step lap_step False s s' \<Longrightarrow> single_call s s'"

lemma single_call_world: "single_call s s' \<Longrightarrow> world_step lap_step False s s'"
  by (induction rule: single_call.induct) (simp_all add: world_step.intros)

lemma single_call_ok: "single_call s s' \<Longrightarrow> \<exists>N. single_ok n N s \<Longrightarrow> \<exists>N. single_ok n N s'"
proof (induction rule: single_call.induct)
  case (call_one s p x)
  then obtain N where s: "single_ok n N s" by blast
  have w: "world_step lap_step False s (hand p [x] s)" using call_one(1) by (intro world_step.call) simp_all
  have "wake_abs (hand p [x] s) = wake_abs s" by (simp add: wake_abs_def hand_def)
  moreover have "at_rest (hand p [x] s) q" if "max N (Suc p) \<le> q" for q
    using that s by (auto simp: at_rest_def hand_def single_ok_def)
  ultimately have "single_ok n (max N (Suc p)) (hand p [x] s)"
    using s call_one(1) world_step_keeps [OF w] by (simp add: single_ok_def) (simp add: hand_def at_rest_def)
  then show ?case by blast
qed (use single_step in blast)

lemma single_calls_ok:
  "single_call\<^sup>*\<^sup>* s s' \<Longrightarrow> \<exists>N. single_ok n N s \<Longrightarrow> \<exists>N. single_ok n N s'"
  by (induction rule: rtranclp_induct) (simp_all add: single_call_ok)

lemma init_rest: "at_rest (post_init n x) p"
  by (simp add: at_rest_def post_init_def)

lemma single_init: "0 < n \<Longrightarrow> single_ok n 0 (post_init n x)"
  by (simp add: single_ok_def post_init_ok post_init_abs wake_inv_def wake_init_def init_rest)
    (simp add: post_init_def mpsc_init_def mp_new_def)

lemma single_settles:
  assumes "single_call\<^sup>*\<^sup>* (post_init n x) s" and "2 \<le> n"
  shows "\<exists>s'. (post_step lap_step False)\<^sup>*\<^sup>* s s' \<and> settled s'"
proof -
  have "\<exists>N. single_ok n N s" using single_calls_ok [OF assms(1)] single_init [of n x] assms(2) by fastforce
  then obtain N where N: "single_ok n N s" by blast
  obtain m where m: "n = Suc (Suc m)" using assms(2) by (metis Suc_le_D numeral_2_eq_2 Suc_le_mono)
  from single.reaches_goal [OF N [unfolded m]] obtain s1 where s1: "(post_step lap_step False)\<^sup>*\<^sup>* s s1" "can_settle s1" by blast
  then show ?thesis unfolding can_settle_def by (meson rtranclp_trans)
qed

lemma single_calls_world: "single_call\<^sup>*\<^sup>* s s' \<Longrightarrow> (world_step lap_step False)\<^sup>*\<^sup>* s s'"
  by (induction rule: rtranclp_induct) (auto intro: rtranclp.rtrancl_into_rtrancl single_call_world)

lemma post_run_world: "(post_step lap_step tso)\<^sup>*\<^sup>* s s' \<Longrightarrow> (world_step lap_step tso)\<^sup>*\<^sup>* s s'"
  by (induction rule: rtranclp_induct) (auto intro: rtranclp.rtrancl_into_rtrancl world_step.internal)

end
