(* ===== verification/Posting_Properties.thy ===== *)
theory Posting_Properties
  imports Posting_Progress
begin

text \<open>
  What posting promises: every posted task is run, in order, unless a batch is too big for the queue.
\<close>

text \<open>C17: no posted task is left behind. The threads post through the lock-free queue and the flag, one access
  at a time, in any interleaving with the loop thread, single tasks and batches; accesses take effect
  in program order, and no producer is overtaken by a whole lap of the ring between its check and its exchange.
  Every such run is a run of the wake-up protocol, in which the queue is a counter, and whenever every call has
  returned and the loop thread is in \<^verbatim>\<open>epoll_wait\<close> with nothing to read from the wake-up
  descriptor, it has run the tasks of every thread, exactly once and in the order in which the thread
  posted them.\<close>

theorem posted_tasks_run:
  assumes "(world_step lap_step False)\<^sup>*\<^sup>* (post_init n x) s" and "0 < n"
  shows "(wake_step False)\<^sup>*\<^sup>* wake_init (wake_abs s) \<and>
    (p_loop s = At LSleep \<and> p_eventfd s = 0 \<and> (\<forall>p. at_rest s p) \<longrightarrow>
      (\<forall>p. tasks_of p (popped (p_ring s)) = p_posted s p))"
proof
  show "(wake_step False)\<^sup>*\<^sup>* wake_init (wake_abs s)"
    using posting.refines [OF assms(1) post_init_ok [OF assms(2)]] by (simp only: post_init_abs)
  show "p_loop s = At LSleep \<and> p_eventfd s = 0 \<and> (\<forall>p. at_rest s p) \<longrightarrow>
      (\<forall>p. tasks_of p (popped (p_ring s)) = p_posted s p)"
    using settled_tasks [OF world_inv world_wake_inv, OF assms(1,2,1,2)] by (auto simp: settled_def asleep_def)
qed

lemma one_call: "single_call (post_init 512 (0, 0 :: nat)) (hand 3 [7] (post_init 512 (0, 0)))"
  by (rule call_one [OF init_rest])

theorem posted_tasks_run_witness:
  "\<exists>s. (world_step lap_step False)\<^sup>*\<^sup>* (post_init 512 (0, 0 :: nat)) s \<and> tasks_of 3 (popped (p_ring s)) = [7]"
proof -
  let ?s = "hand 3 [7] (post_init 512 (0, 0 :: nat))"
  have "single_call\<^sup>*\<^sup>* (post_init 512 (0, 0 :: nat)) ?s" using one_call by (rule r_into_rtranclp)
  from single_settles [OF this] obtain s where s: "(post_step lap_step False)\<^sup>*\<^sup>* ?s s" "settled s" by auto
  have run: "(world_step lap_step False)\<^sup>*\<^sup>* (post_init 512 (0, 0 :: nat)) s"
    using single_call_world [OF one_call] post_run_world [OF s(1)] by (rule converse_rtranclp_into_rtranclp)
  have "p_posted s 3 = [7]" using post_run_posted [OF s(1)] by (simp add: hand_def post_init_def)
  with posted_tasks_run [OF run] s(2) run show ?thesis by (auto simp: settled_def asleep_def)
qed

text \<open>C18: posting does not deadlock. From whatever state threads that post single tasks have got into, with
  full queues, failed exchanges and threads stopped anywhere, but with no producer overtaken by a whole lap
  of the ring between its check and its exchange, the pending calls can all be completed and the loop can
  go back to sleep with every posted task run, without anybody posting anything else. Accesses take effect
  in program order, and the ring has at least two slots.\<close>

theorem posting_completes:
  assumes "single_call\<^sup>*\<^sup>* (post_init n x) s" and "2 \<le> n"
  shows "\<exists>s'. (post_step lap_step False)\<^sup>*\<^sup>* s s' \<and> p_loop s' = At LSleep \<and> p_eventfd s' = 0 \<and> (\<forall>p. at_rest s' p) \<and>
    (\<forall>p. tasks_of p (popped (p_ring s')) = p_posted s p)"
proof -
  from single_settles [OF assms] obtain s' where s': "(post_step lap_step False)\<^sup>*\<^sup>* s s'" "settled s'" by blast
  have run: "(world_step lap_step False)\<^sup>*\<^sup>* (post_init n x) s'"
    using single_calls_world [OF assms(1)] post_run_world [OF s'(1)] by (rule rtranclp_trans)
  have n: "0 < n" using assms(2) by simp
  have "tasks_of p (popped (p_ring s')) = p_posted s' p" for p
    by (rule settled_tasks [OF world_inv [OF run n] world_wake_inv [OF run n] s'(2)])
  with s' post_run_posted [OF s'(1)] show ?thesis by (auto simp: settled_def asleep_def)
qed

theorem posting_completes_witness:
  "\<exists>s'. (post_step lap_step False)\<^sup>*\<^sup>* (hand 3 [7] (post_init 512 (0, 0 :: nat))) s' \<and> p_loop s' = At LSleep \<and>
    tasks_of 3 (popped (p_ring s')) = [7]"
proof -
  have "single_call\<^sup>*\<^sup>* (post_init 512 (0, 0 :: nat)) (hand 3 [7] (post_init 512 (0, 0)))"
    using one_call by (rule r_into_rtranclp)
  from posting_completes [OF this] obtain s' where
    "(post_step lap_step False)\<^sup>*\<^sup>* (hand 3 [7] (post_init 512 (0, 0 :: nat))) s'" "p_loop s' = At LSleep"
    "\<forall>p. tasks_of p (popped (p_ring s')) = p_posted (hand 3 [7] (post_init 512 (0, 0))) p" by auto
  then show ?thesis by (intro exI [of _ s']) (simp add: hand_def post_init_def)
qed

text \<open>C34: \<^verbatim>\<open>postTaskBatch\<close> with more tasks than the queue has room for never returns while the
  loop sleeps. It wakes the loop only after the last push, and the push that finds the queue full is
  repeated for ever: in every run in which no other thread posts, the loop stays in
  \<^verbatim>\<open>epoll_wait\<close>, no task is run, and the calling thread is never through.\<close>

theorem batch_never_wakes:
  assumes "0 < n" and "n \<le> length xs" and "(post_step mpsc_step tso)\<^sup>*\<^sup>* (hand p xs (post_init n x)) s"
  shows "asleep s \<and> popped (p_ring s) = [] \<and> p_todo s p \<noteq> []"
proof -
  have "world_step lap_step tso (post_init n x) (hand p xs (post_init n x))"
    using assms(1,2) by (intro world_step.call [OF init_rest]) auto
  then have "post_inv (hand p xs (post_init n x))" using world_step_keeps post_init_ok [OF assms(1)] by blast
  then have "stuck p (hand p xs (post_init n x)) \<and> checked_room p (p_ring (hand p xs (post_init n x)))"
    using assms(2) by (simp add: stuck_def asleep_def at_rest_def hand_def post_init_def mpsc_init_def mp_new_def checked_room_def)
  with assms(3) have "stuck p s \<and> checked_room p (p_ring s)"
    by (induction rule: rtranclp_induct) (use alone_step stuck_step in blast)+
  with stuck_todo [of p s] show ?thesis by (simp add: stuck_def)
qed

theorem batch_never_wakes_witness:
  "\<exists>s. (post_step mpsc_step False)\<^sup>*\<^sup>* (hand 3 (replicate 512 7) (post_init 512 (0, 0 :: nat))) s \<and>
     p_loop s = At LSleep \<and> p_todo s 3 \<noteq> []"
  using batch_never_wakes [of 512 "replicate 512 7" False 3 "(0, 0 :: nat)"] by (auto simp: asleep_def)

end
