(* ===== verification/Linux_Socket.thy ===== *)
theory Linux_Socket
  imports Epoll_Context
begin

text \<open>
  \<^verbatim>\<open>LinuxSocket\<close> of \<^verbatim>\<open>src/net/socket\<close>: the guards of the blocking calls, whose
  results come from the operating system, and the asynchronous calls, which hand the socket itself to
  its context as long as that still exists.
\<close>

section \<open>Blocking calls\<close>

record linux_socket =
  socket_fd :: fd
  context_alive :: bool

text \<open>The descriptor \<^verbatim>\<open>socket(2)\<close> returned; a socket for an accepted descriptor.\<close>

definition new_socket :: "fd \<Rightarrow> linux_socket" where
  "new_socket created = \<lparr>socket_fd = created, context_alive = True\<rparr>"

definition socket_of_fd :: "fd \<Rightarrow> linux_socket" where
  "socket_of_fd k = \<lparr>socket_fd = k, context_alive = True\<rparr>"

text \<open>The destructor closes the descriptor: what is closed, and the socket after.\<close>

definition destroy_socket :: "linux_socket \<Rightarrow> fd option \<times> linux_socket" where
  "destroy_socket s =
     (if socket_fd s \<noteq> -1 then (Some (socket_fd s), s\<lparr>socket_fd := -1\<rparr>) else (None, s))"

text \<open>The address in network byte order.\<close>

definition htons :: "16 word \<Rightarrow> 16 word" where
  "htons p = of_nat ((unat p mod 256) * 256 + unat p div 256)"

record sockaddr =
  sin_port :: "16 word"
  sin_addr :: "32 word"

definition make_addr :: "'ip \<Rightarrow> 16 word \<Rightarrow> ('ip \<Rightarrow> 32 word option) \<Rightarrow> sockaddr option" where
  "make_addr ip port inet_pton = map_option (\<lambda>a. \<lparr>sin_port = htons port, sin_addr = a\<rparr>) (inet_pton ip)"

definition sock_bind :: "('ip \<Rightarrow> 32 word option) \<Rightarrow> (fd \<Rightarrow> sockaddr \<Rightarrow> int) \<Rightarrow> 'ip \<Rightarrow> 16 word \<Rightarrow> linux_socket \<Rightarrow> bool" where
  "sock_bind inet_pton sys_bind ip port s =
     (if socket_fd s = -1 then False
      else case make_addr ip port inet_pton of
             None \<Rightarrow> False
           | Some addr \<Rightarrow> sys_bind (socket_fd s) addr \<noteq> -1)"

definition default_backlog :: int where "default_backlog = -1"
definition somaxconn :: int where "somaxconn = 4096"

definition sock_listen :: "(fd \<Rightarrow> int \<Rightarrow> int) \<Rightarrow> int \<Rightarrow> linux_socket \<Rightarrow> bool" where
  "sock_listen sys_listen backlog s =
     (if socket_fd s = -1 then False
      else let backlog = (if backlog = default_backlog then somaxconn else backlog)
           in sys_listen (socket_fd s) backlog \<noteq> -1)"

definition sock_accept :: "(fd \<Rightarrow> fd) \<Rightarrow> linux_socket \<Rightarrow> linux_socket option" where
  "sock_accept sys_accept s =
     (if socket_fd s = -1 then None
      else let client_fd = sys_accept (socket_fd s) in
        if client_fd = -1 then None
        else if context_alive s then Some (socket_of_fd client_fd) else None)"

definition sock_read :: "(fd \<Rightarrow> int \<Rightarrow> int) \<Rightarrow> int \<Rightarrow> linux_socket \<Rightarrow> int" where
  "sock_read sys_read len s = (if socket_fd s = -1 then -1 else sys_read (socket_fd s) len)"

definition sock_write :: "(fd \<Rightarrow> byte list \<Rightarrow> int) \<Rightarrow> byte list \<Rightarrow> linux_socket \<Rightarrow> int" where
  "sock_write sys_write msg s = (if socket_fd s = -1 then -1 else sys_write (socket_fd s) msg)"

definition sock_connect :: "('ip \<Rightarrow> 32 word option) \<Rightarrow> (fd \<Rightarrow> sockaddr \<Rightarrow> int) \<Rightarrow> 'ip \<Rightarrow> 16 word \<Rightarrow> linux_socket \<Rightarrow> bool" where
  "sock_connect inet_pton sys_connect ip port s =
     (if socket_fd s = -1 then False
      else case make_addr ip port inet_pton of
             None \<Rightarrow> False
           | Some addr \<Rightarrow> sys_connect (socket_fd s) addr \<noteq> -1)"

definition getNative :: "linux_socket \<Rightarrow> fd" where
  "getNative s = socket_fd s"

text \<open>The option calls of \<^verbatim>\<open>setNoBlock\<close>: only the first failure stops the sequence.\<close>

datatype sockopt = GetFlags | SetNonBlocking | SetNoDelay | SetSendBuffer nat | SetReceiveBuffer nat | SetReuseAddr

definition setNoBlock :: "bool \<Rightarrow> sockopt list" where
  "setNoBlock getfl_ok =
     (if \<not> getfl_ok then [GetFlags]
      else [GetFlags, SetNonBlocking, SetNoDelay, SetSendBuffer (1024 * 8), SetReceiveBuffer (1024 * 8), SetReuseAddr])"

section \<open>Asynchronous calls\<close>

text \<open>\<open>None\<close>: the context is gone; the call is logged and forgotten, its callback too.\<close>

definition with_context :: "linux_socket \<Rightarrow> 'a ctx_result \<Rightarrow> 'a ctx_result option" where
  "with_context s r = (if context_alive s then Some r else None)"

definition sock_close :: "(fd \<Rightarrow> nat) \<Rightarrow> linux_socket \<Rightarrow> 'a epoll_context \<Rightarrow> 'a ctx_result option" where
  "sock_close hash s ctx = with_context s (removeSocket hash (Some (getNative s)) ctx)"

definition asyncAccept :: "(fd \<Rightarrow> nat) \<Rightarrow> 'a accept_fun option \<Rightarrow> linux_socket \<Rightarrow> 'a epoll_context \<Rightarrow> 'a ctx_result option" where
  "asyncAccept hash cb s ctx = with_context s (registerAccept hash (Some (getNative s)) cb ctx)"

definition asyncRead :: "(fd \<Rightarrow> nat) \<Rightarrow> 'a read_fun option \<Rightarrow> linux_socket \<Rightarrow> 'a epoll_context \<Rightarrow> 'a ctx_result option" where
  "asyncRead hash cb s ctx = with_context s (registerRead hash (Some (getNative s)) cb ctx)"

definition sock_asyncWriteOnce :: "(fd \<Rightarrow> nat) \<Rightarrow> 'a write_cb option \<Rightarrow> byte list \<Rightarrow> linux_socket \<Rightarrow> 'a epoll_context \<Rightarrow>
    'a ctx_result option" where
  "sock_asyncWriteOnce hash cb buf s ctx = with_context s (asyncWriteOnce hash (Some (getNative s)) cb buf ctx)"

definition sock_asyncWriteBatch :: "(fd \<Rightarrow> nat) \<Rightarrow> 'a batch_cb \<Rightarrow> byte list list \<Rightarrow> linux_socket \<Rightarrow> 'a epoll_context \<Rightarrow>
    'a ctx_result option" where
  "sock_asyncWriteBatch hash cbs bufs s ctx = with_context s (asyncWriteBatch hash (Some (getNative s)) cbs bufs ctx)"

definition sock_addTimer :: "(fd \<Rightarrow> nat) \<Rightarrow> fd option \<Rightarrow> bool \<Rightarrow> bool \<Rightarrow> ('a \<Rightarrow> 'a) option \<Rightarrow> linux_socket \<Rightarrow>
    'a epoll_context \<Rightarrow> fd \<times> 'a epoll_context" where
  "sock_addTimer hash created settime_ok ctl_ok cb s ctx =
     (if context_alive s then addTimer_socket hash (Some (getNative s)) created settime_ok ctl_ok cb ctx
      else (-1, ctx))"

definition registerLowLevelCallback :: "(fd \<Rightarrow> nat) \<Rightarrow> 'a socket_cb option \<Rightarrow> linux_socket \<Rightarrow> 'a epoll_context \<Rightarrow>
    'a ctx_result option" where
  "registerLowLevelCallback hash cb s ctx = with_context s (registerLowLevel hash (Some (getNative s)) cb ctx)"

definition registerHighLevelCallback :: "(fd \<Rightarrow> nat) \<Rightarrow> 'a socket_cb option \<Rightarrow> linux_socket \<Rightarrow> 'a epoll_context \<Rightarrow>
    'a ctx_result option" where
  "registerHighLevelCallback hash cb s ctx = with_context s (registerHighLevel hash (Some (getNative s)) cb ctx)"

definition sock_registerCloseCallback :: "(fd \<Rightarrow> nat) \<Rightarrow> 'a socket_cb option \<Rightarrow> linux_socket \<Rightarrow> 'a epoll_context \<Rightarrow>
    'a ctx_result option" where
  "sock_registerCloseCallback hash cb s ctx =
     with_context s (registerCloseCallback hash (Some (getNative s)) cb ctx)"

section \<open>Invalid sockets and byte order\<close>

text \<open>A socket whose creation failed refuses every call: the blocking ones report failure whatever the
  system would answer, a write is called back with failure at once, and nothing is posted.\<close>

lemma invalid_socket_fails:
  assumes "socket_fd s = -1" and "context_alive s"
  shows "\<not> sock_bind inet_pton sys_bind ip port s" "\<not> sock_listen sys_listen backlog s" "sock_accept sys_accept s = None"
    "sock_read sys_read len s = -1" "sock_write sys_write msg s = -1" "\<not> sock_connect inet_pton sys_connect ip port s"
    "sock_asyncWriteOnce hash cb buf s ctx = Some (Rejected (call_opt cb False))"
    "\<exists>f. asyncRead hash rcb s ctx = Some (Rejected f)"
  using assms
  by (simp_all add: sock_bind_def sock_listen_def sock_accept_def sock_read_def sock_write_def sock_connect_def
      sock_asyncWriteOnce_def asyncRead_def with_context_def getNative_def asyncWriteOnce_def registerRead_def)

lemma htons_bytes: "unat (htons p) = (unat p mod 256) * 256 + unat p div 256"
proof -
  have "unat p < 2 ^ LENGTH(16)" by (rule unsigned_less)
  then have "unat p div 256 < 256" by (simp add: less_mult_imp_div_less)
  moreover have "unat p mod 256 < 256" by simp
  ultimately have "(unat p mod 256) * 256 + unat p div 256 < 65536" by linarith
  then show ?thesis
    by (simp add: htons_def unsigned_of_nat take_bit_nat_eq_self del: of_nat_add of_nat_mult)
qed

text \<open>The bytes are swapped, so that swapping twice gives the port back.\<close>

lemma htons_involutive: "htons (htons p) = p"
proof -
  have p: "unat p < 2 ^ LENGTH(16)" by (rule unsigned_less)
  then have "unat p div 256 < 256" by (simp add: less_mult_imp_div_less)
  then have "unat (htons (htons p)) = unat p" unfolding htons_bytes by simp
  then show ?thesis by (simp add: word_unat_eq_iff)
qed

end
