(* ===== verification/Descriptors.thy ===== *)
theory Descriptors
  imports Linux_Socket "HOL-Library.Multiset"
begin

text \<open>
  Who closes which descriptor: the constructor and destructor of \<^verbatim>\<open>EventLoopThread\<close>, the four loops of
  a context, \<^verbatim>\<open>LinuxSocket\<close> and \<^verbatim>\<open>WindowsSocket\<close>. The interface \<open>handle_owner\<close> is what
  the objects have in common: the destructor closes what the object holds, once.
\<close>

section \<open>Objects that own handles\<close>

locale handle_owner =
  fixes held :: "'o \<Rightarrow> 'h list" and destroy :: "'o \<Rightarrow> 'h list \<times> 'o"
  assumes closes: "mset (fst (destroy x)) = mset (held x)"
    and releases: "held (snd (destroy x)) = []"
begin

definition destroy_all :: "'o list \<Rightarrow> 'h list" where
  "destroy_all xs = concat (map (fst \<circ> destroy) xs)"

lemma destroy_all_closes: "mset (destroy_all xs) = mset (concat (map held xs))"
  by (induction xs) (simp_all add: destroy_all_def closes)

lemma destroy_twice: "fst (destroy (snd (destroy x))) = []"
  using closes [of "snd (destroy x)"] releases by simp

text \<open>Objects that hold different handles close each of them exactly once.\<close>

lemma closed_once: "distinct (concat (map held xs)) \<Longrightarrow> h \<in> set (concat (map held xs)) \<Longrightarrow> count (mset (destroy_all xs)) h = 1"
  by (simp only: destroy_all_closes count_mset_0_iff distinct_count_atmost_1) simp

end

text \<open>Objects that can be moved: nothing gets lost, and what the target held is closed.\<close>

locale movable_owner = handle_owner held destroy
  for held :: "'o \<Rightarrow> 'h list" and destroy :: "'o \<Rightarrow> 'h list \<times> 'o" +
  fixes move_assign :: "'o \<Rightarrow> 'o \<Rightarrow> 'h list \<times> 'o \<times> 'o"
  assumes moves: "move_assign t s = (closed, t', s') \<Longrightarrow> closed = held t \<and> held t' = held s \<and> held s' = []"
begin

lemma move_then_destroy:
  "move_assign t s = (closed, t', s') \<Longrightarrow> mset closed + mset (destroy_all [t', s']) = mset (held t) + mset (held s)"
  using moves [of t s closed t' s'] by (simp add: destroy_all_closes)

end

section \<open>The event loop thread\<close>

text \<open>
  The constructor with what \<^verbatim>\<open>epoll_create\<close> and \<^verbatim>\<open>eventfd\<close> returned, and what it closes
  itself; the destructor after \<^verbatim>\<open>stop\<close>.
\<close>

record loop_fds =
  epoll_fd :: fd
  wakeup_fd :: fd
  watches_wakeup :: bool

definition construct_loop :: "fd \<Rightarrow> fd \<Rightarrow> bool \<Rightarrow> fd list \<times> loop_fds" where
  "construct_loop created_epoll created_event ctl_ok =
     (if created_epoll = -1 then ([], \<lparr>epoll_fd = -1, wakeup_fd = -1, watches_wakeup = False\<rparr>)
      else if created_event = -1 then ([created_epoll], \<lparr>epoll_fd = -1, wakeup_fd = -1, watches_wakeup = False\<rparr>)
      else ([], \<lparr>epoll_fd = created_epoll, wakeup_fd = created_event, watches_wakeup = ctl_ok\<rparr>))"

definition destroy_loop :: "loop_fds \<Rightarrow> fd list \<times> loop_fds" where
  "destroy_loop d =
     ((if epoll_fd d \<noteq> -1 then [epoll_fd d] else []) @ (if wakeup_fd d \<noteq> -1 then [wakeup_fd d] else []),
      d\<lparr>epoll_fd := -1, wakeup_fd := -1\<rparr>)"

definition loop_holds :: "loop_fds \<Rightarrow> fd list" where
  "loop_holds d = filter (\<lambda>k. k \<noteq> -1) [epoll_fd d, wakeup_fd d]"

interpretation loop_owner: handle_owner loop_holds destroy_loop
  by unfold_locales (simp_all add: loop_holds_def destroy_loop_def)

text \<open>What the two calls opened; the second is not made when the first failed.\<close>

definition opened_by :: "fd \<Rightarrow> fd \<Rightarrow> fd list" where
  "opened_by created_epoll created_event =
     (if created_epoll = -1 then [] else created_epoll # (if created_event = -1 then [] else [created_event]))"

lemma construct_loop_holds:
  "construct_loop e w ctl_ok = (closed, d) \<Longrightarrow> mset closed + mset (loop_holds d) = mset (opened_by e w)"
  by (auto simp: construct_loop_def loop_holds_def opened_by_def split: if_splits)

text \<open>A context constructs its four loops one after the other and destroys them in the end.\<close>

definition construct_context :: "(fd \<times> fd \<times> bool) list \<Rightarrow> (fd list \<times> loop_fds) list" where
  "construct_context made = map (\<lambda>(e, w, ctl_ok). construct_loop e w ctl_ok) made"

theorem context_descriptors_closed:
  assumes "construct_context made = made_loops"
  shows "mset (concat (map fst made_loops)) + mset (loop_owner.destroy_all (map snd made_loops)) =
    mset (concat (map (\<lambda>(e, w, ctl_ok). opened_by e w) made))"
  unfolding loop_owner.destroy_all_closes assms [symmetric]
proof (induction made)
  case (Cons m made)
  obtain e w c where m: "m = (e, w, c)" by (cases m)
  with Cons construct_loop_holds [of e w c "fst (construct_loop e w c)" "snd (construct_loop e w c)"] show ?case
    by (simp add: construct_context_def add.assoc [symmetric]) (simp add: add.assoc add.left_commute)
qed (simp add: construct_context_def)

section \<open>Sockets\<close>

definition socket_holds :: "linux_socket \<Rightarrow> fd list" where
  "socket_holds s = (if socket_fd s = -1 then [] else [socket_fd s])"

definition destroy_linux :: "linux_socket \<Rightarrow> fd list \<times> linux_socket" where
  "destroy_linux s = (case destroy_socket s of (k, s) \<Rightarrow> (case k of None \<Rightarrow> [] | Some k \<Rightarrow> [k], s))"

interpretation linux_owner: handle_owner socket_holds destroy_linux
  by unfold_locales (simp_all add: socket_holds_def destroy_linux_def destroy_socket_def)

text \<open>
  \<^verbatim>\<open>accept\<close> loses a connection when the context is gone: the system has handed out the
  descriptor, no socket holds it, and nobody closes it.
\<close>

lemma accept_drops: "socket_fd s \<noteq> -1 \<Longrightarrow> \<not> context_alive s \<Longrightarrow> sock_accept sys_accept s = None"
  by (simp add: sock_accept_def Let_def)

text \<open>A socket made from an accepted descriptor holds it and nothing else, until it is destroyed.\<close>

lemma accept_holds: "sock_accept sys_accept s = Some c \<Longrightarrow> socket_holds c = [sys_accept (socket_fd s)]"
  by (auto simp: sock_accept_def socket_of_fd_def socket_holds_def Let_def split: if_splits)

text \<open>\<^verbatim>\<open>getContext\<close> raises when the context is gone.\<close>

definition getContext :: "linux_socket \<Rightarrow> 'c \<Rightarrow> string + 'c" where
  "getContext s ctx = (if context_alive s then Inr ctx else Inl ''context outlived'')"

end
