(* ===== verification/Windows_Socket.thy ===== *)
theory Windows_Socket
  imports Descriptors
begin

text \<open>
  \<^verbatim>\<open>WindowsSocket\<close> of \<^verbatim>\<open>src/net/socket\<close>, which a static assertion keeps from being compiled so
  far. A \<^verbatim>\<open>SOCKET\<close> is a 64-bit handle, all ones when invalid. The calls of the system are parameters;
  each operation yields the handles it passes to \<^verbatim>\<open>closesocket\<close> along with its result.
\<close>

section \<open>Construction, moving, destruction\<close>

type_synonym handle = "64 word"

definition INVALID_SOCKET :: handle where "INVALID_SOCKET = -1"

record windows_socket =
  w_handle :: handle
  is_bound :: bool
  is_listening :: bool

definition win_new :: "handle \<Rightarrow> windows_socket" where
  "win_new created = \<lparr>w_handle = created, is_bound = False, is_listening = False\<rparr>"

definition win_of :: "handle \<Rightarrow> windows_socket" where
  "win_of h = \<lparr>w_handle = h, is_bound = (h \<noteq> INVALID_SOCKET), is_listening = False\<rparr>"

definition emptied :: windows_socket where
  "emptied = \<lparr>w_handle = INVALID_SOCKET, is_bound = False, is_listening = False\<rparr>"

definition win_move :: "windows_socket \<Rightarrow> windows_socket \<times> windows_socket" where
  "win_move other =
     (\<lparr>w_handle = w_handle other, is_bound = is_bound other, is_listening = is_listening other\<rparr>, emptied)"

definition win_move_assign :: "windows_socket \<Rightarrow> windows_socket \<Rightarrow> handle list \<times> windows_socket \<times> windows_socket" where
  "win_move_assign this other =
     ((if w_handle this \<noteq> INVALID_SOCKET then [w_handle this] else []),
      this\<lparr>w_handle := w_handle other, is_bound := is_bound other, is_listening := is_listening other\<rparr>, emptied)"

definition win_destroy :: "windows_socket \<Rightarrow> handle list \<times> windows_socket" where
  "win_destroy s =
     (if w_handle s \<noteq> INVALID_SOCKET then ([w_handle s], s\<lparr>w_handle := INVALID_SOCKET\<rparr>) else ([], s))"

section \<open>Operations\<close>

definition INADDR_NONE :: "32 word" where "INADDR_NONE = -1"

text \<open>An invalid socket is logged, and the code goes on.\<close>

definition win_bind :: "(string \<Rightarrow> 32 word) \<Rightarrow> (handle \<Rightarrow> sockaddr \<Rightarrow> int) \<Rightarrow> string \<Rightarrow> 16 word \<Rightarrow> windows_socket \<Rightarrow>
    bool \<times> handle list \<times> windows_socket" where
  "win_bind inet_addr sys_bind ip port s =
     (let addr = \<lparr>sin_port = htons port, sin_addr = inet_addr ip\<rparr>;
          failed = (False, [w_handle s], s\<lparr>w_handle := INVALID_SOCKET\<rparr>) in
      if sin_addr addr = INADDR_NONE \<and> ip \<noteq> ''0.0.0.0'' then failed
      else if sys_bind (w_handle s) addr = -1 then failed
      else (True, [], s\<lparr>is_bound := True\<rparr>))"

definition win_listen :: "int \<Rightarrow> (handle \<Rightarrow> int \<Rightarrow> int) \<Rightarrow> int \<Rightarrow> windows_socket \<Rightarrow> bool \<times> windows_socket" where
  "win_listen preset sys_listen backlog s =
     (if w_handle s = INVALID_SOCKET \<or> \<not> is_bound s then (False, s)
      else let backlog = (if backlog \<le> 0 then preset else backlog) in
        if sys_listen (w_handle s) backlog = -1 then (False, s)
        else (True, s\<lparr>is_listening := True\<rparr>))"

definition win_connect :: "(string \<Rightarrow> 32 word) \<Rightarrow> (handle \<Rightarrow> sockaddr \<Rightarrow> int) \<Rightarrow> string \<Rightarrow> 16 word \<Rightarrow> windows_socket \<Rightarrow> bool" where
  "win_connect inet_addr sys_connect ip port s =
     (if w_handle s = INVALID_SOCKET then False
      else if is_listening s then False
      else let addr = \<lparr>sin_port = htons port, sin_addr = inet_addr ip\<rparr> in
        if sin_addr addr = INADDR_NONE then False
        else sys_connect (w_handle s) addr \<noteq> -1)"

definition win_accept :: "(handle \<Rightarrow> handle) \<Rightarrow> windows_socket \<Rightarrow> windows_socket option" where
  "win_accept sys_accept s =
     (if w_handle s = INVALID_SOCKET \<or> \<not> is_listening s then None
      else let client = sys_accept (w_handle s) in
        if client = INVALID_SOCKET then None else Some (win_of client))"

definition win_read :: "(handle \<Rightarrow> int \<Rightarrow> int) \<Rightarrow> int \<Rightarrow> windows_socket \<Rightarrow> int" where
  "win_read sys_recv len s = (if w_handle s = INVALID_SOCKET then -1 else sys_recv (w_handle s) len)"

definition win_write :: "(handle \<Rightarrow> byte list \<Rightarrow> int) \<Rightarrow> byte list \<Rightarrow> windows_socket \<Rightarrow> int" where
  "win_write sys_send msg s = (if w_handle s = INVALID_SOCKET then -1 else sys_send (w_handle s) msg)"

text \<open>\<^verbatim>\<open>close\<close> keeps the handle.\<close>

definition win_close :: "windows_socket \<Rightarrow> handle list \<times> windows_socket" where
  "win_close s = (if w_handle s \<noteq> INVALID_SOCKET then [w_handle s] else [], s)"

definition getLocalPort :: "(handle \<Rightarrow> sockaddr option) \<Rightarrow> windows_socket \<Rightarrow> 16 word" where
  "getLocalPort sys_getsockname s =
     (if w_handle s = INVALID_SOCKET then 0
      else case sys_getsockname (w_handle s) of Some addr \<Rightarrow> htons (sin_port addr) | None \<Rightarrow> 0)"

definition native_handle :: "windows_socket \<Rightarrow> handle" where
  "native_handle s = w_handle s"

section \<open>Who closes the handle\<close>

definition win_holds :: "windows_socket \<Rightarrow> handle list" where
  "win_holds s = (if w_handle s = INVALID_SOCKET then [] else [w_handle s])"

interpretation win_owner: movable_owner win_holds win_destroy win_move_assign
  by unfold_locales
    (auto simp: win_holds_def win_destroy_def win_move_assign_def emptied_def split: if_splits)

lemma win_move_holds: "win_move s = (t, s') \<Longrightarrow> win_holds t = win_holds s \<and> win_holds s' = []"
  by (auto simp: win_move_def win_holds_def emptied_def)

text \<open>What a socket has been told to close, over a bind, a listen, an accept of its own, and its destruction.\<close>

lemma win_bind_closes:
  "win_bind inet_addr sys_bind ip port s = (ok, closed, s') \<Longrightarrow> w_handle s \<noteq> INVALID_SOCKET \<Longrightarrow>
   mset closed + mset (win_owner.destroy_all [s']) = mset (win_holds s) \<and> (ok \<longleftrightarrow> is_bound s' \<and> w_handle s' = w_handle s)"
  by (auto simp: win_bind_def win_owner.destroy_all_closes win_holds_def Let_def split: if_splits)

text \<open>
  A socket that is closed and then destroyed closes its handle twice; by the second time the system may
  have given the handle to somebody else.
\<close>

theorem win_closes_twice:
  assumes "w_handle s \<noteq> INVALID_SOCKET" and "win_close s = (closed, s')"
  shows "closed @ fst (win_destroy s') = [w_handle s, w_handle s]"
  using assms by (auto simp: win_close_def win_destroy_def)

text \<open>A bind on a socket whose creation failed still asks the system to bind and to close the invalid handle.\<close>

theorem win_bind_invalid:
  assumes "w_handle s = INVALID_SOCKET" and "sys_bind INVALID_SOCKET \<lparr>sin_port = htons port, sin_addr = inet_addr ip\<rparr> = -1"
  shows "win_bind inet_addr sys_bind ip port s = (False, [INVALID_SOCKET], s)"
  using assms by (simp add: win_bind_def Let_def)

text \<open>Listening needs a successful bind, and accepting a successful listen.\<close>

theorem win_accept_guarded:
  assumes "win_accept sys_accept (snd (win_listen preset sys_listen backlog s)) = Some c" and "\<not> is_listening s"
  shows "is_bound s \<and> fst (win_listen preset sys_listen backlog s) \<and> win_holds c = [sys_accept (w_handle s)] \<and> is_bound c"
  using assms by (auto simp: win_accept_def win_listen_def win_holds_def win_of_def Let_def split: if_splits)

section \<open>The socket manager\<close>

text \<open>
  \<^verbatim>\<open>wsa_init\<close> with the results of \<^verbatim>\<open>WSAStartup\<close>: whether it succeeds, and how many
  start-ups it leaves behind that a \<^verbatim>\<open>WSACleanup\<close> has to match. A version other than 2.2 is cleaned up at once.
\<close>

definition wsa_init :: "int \<Rightarrow> nat \<Rightarrow> nat \<Rightarrow> bool \<times> nat" where
  "wsa_init err low_byte high_byte =
     (if err \<noteq> 0 then (False, 0)
      else if low_byte \<noteq> 2 \<or> high_byte \<noteq> 2 then (False, 0)
      else (True, 1))"

datatype platform = Windows | Linux | Other

datatype any_socket = AWindowsSocket windows_socket | ALinuxSocket linux_socket

record socket_manager =
  wsa_inited :: bool
  startups :: nat

text \<open>
  \<^verbatim>\<open>getSocket\<close>: the first call on Windows starts the library, and does not look whether that worked;
  \<open>None\<close> is the exception of any other platform.
\<close>

definition getSocket :: "platform \<Rightarrow> bool \<times> nat \<Rightarrow> handle \<Rightarrow> fd \<Rightarrow> socket_manager \<Rightarrow> (any_socket \<times> socket_manager) option" where
  "getSocket p wsa created_handle created_fd m =
     (case p of
        Windows \<Rightarrow>
          Some (AWindowsSocket (win_new created_handle),
            if wsa_inited m then m else \<lparr>wsa_inited = True, startups = startups m + snd wsa\<rparr>)
      | Linux \<Rightarrow> Some (ALinuxSocket (new_socket created_fd), m)
      | Other \<Rightarrow> None)"

text \<open>The destructor: on Windows one clean-up, whether there was a start-up or not.\<close>

definition destroy_manager :: "platform \<Rightarrow> socket_manager \<Rightarrow> int" where
  "destroy_manager p m = int (startups m) - (if p = Windows then 1 else 0)"

fun get_sockets :: "platform \<Rightarrow> (bool \<times> nat) list \<Rightarrow> socket_manager \<Rightarrow> socket_manager option" where
  "get_sockets p [] m = Some m"
| "get_sockets p (w # ws) m = (case getSocket p w INVALID_SOCKET (-1) m of None \<Rightarrow> None | Some (s, m) \<Rightarrow> get_sockets p ws m)"

lemma get_sockets_inited: "wsa_inited m \<Longrightarrow> get_sockets Windows ws m = Some m"
  by (induction ws) (simp_all add: getSocket_def)

text \<open>
  However many sockets a program makes, the library is started once, and the clean-up of the destructor
  matches it exactly when that start-up worked; a program that made none, or whose start-up failed,
  cleans up once too often.
\<close>

theorem manager_balanced:
  assumes "get_sockets Windows ws \<lparr>wsa_inited = False, startups = 0\<rparr> = Some m"
    and "\<forall>w \<in> set ws. \<exists>err lo hi. w = wsa_init err lo hi"
  shows "destroy_manager Windows m = (if ws \<noteq> [] \<and> fst (hd ws) then 0 else -1)"
proof (cases ws)
  case Nil
  with assms(1) show ?thesis by (auto simp: destroy_manager_def)
next
  case (Cons w us)
  with assms(1) have "m = \<lparr>wsa_inited = True, startups = snd w\<rparr>"
    using get_sockets_inited [of "\<lparr>wsa_inited = True, startups = snd w\<rparr>" us] by (simp add: getSocket_def)
  moreover obtain err lo hi where "w = wsa_init err lo hi" using assms(2) Cons by (meson list.set_intros(1))
  then have "snd w = (if fst w then 1 else 0)" by (simp add: wsa_init_def)
  ultimately show ?thesis using Cons by (simp add: destroy_manager_def)
qed

end
