(* ===== verification/Logger.thy ===== *)
theory Logger
  imports Cpp_Strings
begin

text \<open>
  The logger of \<^verbatim>\<open>src/utils/logger\<close>: levels, entries, and the writer. An entry collects its
  text and hands it over when it is destroyed; the writer at this commit drops what it is given, as
  the body of its \<^verbatim>\<open>write\<close> and the start of its thread are commented out.
\<close>

section \<open>Levels\<close>

datatype log_level = DEBUG | INFO | WARNING | ERR

fun level_number :: "log_level \<Rightarrow> nat" where
  "level_number DEBUG = 0"
| "level_number INFO = 1"
| "level_number WARNING = 2"
| "level_number ERR = 3"

instantiation log_level :: linorder
begin

definition less_eq_log_level :: "log_level \<Rightarrow> log_level \<Rightarrow> bool" where
  "less_eq_log_level a b \<longleftrightarrow> level_number a \<le> level_number b"

definition less_log_level :: "log_level \<Rightarrow> log_level \<Rightarrow> bool" where
  "less_log_level a b \<longleftrightarrow> level_number a < level_number b"

instance
proof
  fix a b :: log_level
  show "a \<le> b \<Longrightarrow> b \<le> a \<Longrightarrow> a = b"
    by (cases a; cases b) (simp_all add: less_eq_log_level_def)
qed (auto simp: less_eq_log_level_def less_log_level_def)

end

definition level_str :: "log_level \<Rightarrow> string" where
  "level_str l =
     (if l = DEBUG then ''[DEBUG]''
      else if l = INFO then ''[INFO]''
      else if l = WARNING then ''[WARNING]''
      else if l = ERR then ''[ERROR]'' else ''[DEBUG]'')"

section \<open>Writer\<close>

record log_writer =
  queue :: "string list"
  stdout :: string
  log_file :: "string option"
  closed :: bool

definition writer_write :: "string \<Rightarrow> log_writer \<Rightarrow> log_writer" where
  "writer_write str w = w"

datatype log_error = FileDoesNotExist | CannotOpen

text \<open>Whether the file exists, and whether it can be opened, is up to the file system.\<close>

definition set_log_file :: "bool \<Rightarrow> bool \<Rightarrow> bool \<Rightarrow> log_writer \<Rightarrow> log_error + log_writer" where
  "set_log_file exists_file can_open create w =
     (if \<not> exists_file \<and> \<not> create then Inl FileDoesNotExist
      else if \<not> can_open then Inl CannotOpen
      else Inr (w\<lparr>log_file := Some []\<rparr>))"

definition writer_close :: "log_writer \<Rightarrow> log_writer" where
  "writer_close w = w\<lparr>closed := True, log_file := None\<rparr>"

text \<open>The loop of the writer thread, which is never started.\<close>

fun write_log :: "nat \<Rightarrow> log_writer \<Rightarrow> log_writer option" where
  "write_log 0 w = None"
| "write_log (Suc f) w =
     (case queue w of
        logs # rest \<Rightarrow>
          write_log f (w\<lparr>queue := rest, stdout := stdout w @ logs, log_file := map_option (\<lambda>s. s @ logs) (log_file w)\<rparr>)
      | [] \<Rightarrow> if closed w then Some w else write_log f w)"

section \<open>Entries\<close>

record log_entry =
  entry_stream :: string
  entry_level :: log_level

definition open_entry :: "string \<Rightarrow> log_level \<Rightarrow> string \<Rightarrow> nat \<Rightarrow> log_level \<Rightarrow> log_entry" where
  "open_entry now current file line lvl =
     \<lparr>entry_stream =
        (if lvl \<ge> current
         then ''['' @ now @ ''] '' @ level_str lvl @ '' '' @ ''['' @ file @ '':'' @ nat_to_string line @ ''] ''
         else []),
      entry_level = lvl\<rparr>"

definition append_entry :: "string \<Rightarrow> log_entry \<Rightarrow> log_entry" where
  "append_entry val e = e\<lparr>entry_stream := entry_stream e @ val\<rparr>"

definition close_entry :: "log_level \<Rightarrow> log_entry \<Rightarrow> log_writer \<Rightarrow> log_writer" where
  "close_entry current e w =
     (if entry_level e \<ge> current then writer_write (entry_stream e @ [LF]) w else w)"

definition set_log_level :: "log_level \<Rightarrow> log_level \<Rightarrow> log_level" where
  "set_log_level lvl current = lvl"

text \<open>Nothing that is logged is ever printed.\<close>

lemma close_entry_drops: "close_entry current e w = w"
  by (simp add: close_entry_def writer_write_def)

text \<open>The writer thread, were it started, would print the queue in order and stop once it is closed.\<close>

lemma write_log_drains:
  "closed w \<Longrightarrow> length (queue w) < f \<Longrightarrow>
   write_log f w = Some (w\<lparr>queue := [], stdout := stdout w @ concat (queue w),
     log_file := map_option (\<lambda>s. s @ concat (queue w)) (log_file w)\<rparr>)"
proof (induction f arbitrary: w)
  case 0
  then show ?case by simp
next
  case (Suc f)
  show ?case
  proof (cases "queue w")
    case Nil
    with Suc.prems(1) show ?thesis by (cases "log_file w"; cases w) auto
  next
    case (Cons s rest)
    with Suc show ?thesis by (simp add: option.map_comp comp_def)
  qed
qed

end
