(* ===== verification/Spec2Isabelle.thy ===== *)
theory Spec2Isabelle
  imports Locked_Properties Life_Properties Resp_Properties Rpc_Properties Rpc_Liveness Rpc_Program Queue_Properties Loop_Properties Context_Properties
    Redis_Properties Redis_Liveness Redis_Batch Redis_Cli Concurrency_Properties Posting_Properties Linux_Socket Windows_Socket Logger
begin

text \<open>
  SimpleRedisClient: a Redis client and an RPC server on an epoll event loop, in C++.

  \<^bold>\<open>The program.\<close> A socket (\<^verbatim>\<open>src/net/socket\<close>) hands its asynchronous calls to the
  context it belongs to (\<^verbatim>\<open>src/net/context\<close>). The context has four loop threads; it picks one by the
  hash of the descriptor and posts a task to the lock-free queue of that thread
  (\<^verbatim>\<open>src/utils/thread_pool/queue\<close>), which wakes the thread when it sleeps in
  \<^verbatim>\<open>epoll_wait\<close>. The loop thread runs the tasks, reads into a buffer of 4096 bytes per connection and
  shows it to the read callback, and writes the queued buffers with \<^verbatim>\<open>writev\<close>. The Redis client
  (\<^verbatim>\<open>src/app/redis\<close>) pipelines commands over four connections: a promise joins the queue of its
  connection when its command has been written, and the replies the parser finds resolve the promises from
  the front. The RPC server (\<^verbatim>\<open>src/app/rpc\<close>) parses request frames incrementally, hands each
  message to a thread pool (\<^verbatim>\<open>src/utils/thread_pool\<close>), and the worker writes the answer.

  \<^bold>\<open>The theories\<close>, in the order in which they build on each other.
  \<^item> \<open>Prelude\<close>, \<open>Cpp_Strings\<close>: type names, shared lemmas; \<^verbatim>\<open>std::string::find\<close>,
    \<^verbatim>\<open>std::to_string\<close>, \<^verbatim>\<open>std::stoll\<close>, word splitting. \<^verbatim>\<open>size_t\<close>
    arithmetic wraps at 64 bits where the code can reach that.
  \<^item> \<open>Resp_Parser\<close>: \<^verbatim>\<open>RESP_Parser\<close> of \<^verbatim>\<open>redis.h\<close>; a call yields a value and
    the new position or the exception raised. \<open>Resp_Safety\<close>: bounds, progress, termination, well-typed
    results, stability. \<open>Resp_Roundtrip\<close>: a reference encoder and the parser against it, for complete
    and for cut replies. \<open>Resp_Commands\<close>: building commands, formatting replies, the input line of
    \<^verbatim>\<open>redis_cli.cpp\<close>. \<open>Resp_Properties\<close>: what they promise.
  \<^item> \<open>Rpc_Bytes\<close>, \<open>Rpc_Parser\<close>: big-endian numbers and the frame parser of
    \<^verbatim>\<open>RpcServer.cpp\<close> as a state machine over its contexts. \<open>Rpc_Stream\<close>: the read
    callback; messages do not depend on the cuts of the stream. \<open>Rpc_Frames\<close>: the frame format as a
    reference encoder, completeness and soundness of the parser. \<open>Rpc_Server\<close>: answers, handler
    registry, dispatcher, and the program \<^verbatim>\<open>rpc_server.cpp\<close>. \<open>Rpc_Properties\<close>: what they
    promise. \<open>Rpc_Service\<close>: \<^verbatim>\<open>acceptClient\<close> on the event loop, from a client's bytes to
    its answers. \<open>Rpc_Liveness\<close>: from every state it reaches, all answers can be given and
    written. \<open>Rpc_Program\<close>: the object \<^verbatim>\<open>RpcServerImpl\<close>: its creation, its
    listening socket, the accept events and the tasks they post, up to clients that are served.
  \<^item> \<open>Queues\<close>: the three rings of \<^verbatim>\<open>LockFreeQueue.h\<close> for one caller at a time; the
    locale \<open>bounded_queue\<close> states what the loop needs of its queue, and each ring interprets it.
    \<open>Queue_Properties\<close>: they refine a bounded list.
  \<^item> \<open>Event_Loop\<close>: \<^verbatim>\<open>EventLoopThread\<close> of \<^verbatim>\<open>EpollContext.cpp\<close>, every handler
    and every task. \<open>Loop_Writes\<close>: the byte stream of a socket. \<open>Loop_Interest\<close>: flags, byte
    counts and the descriptors epoll watches. \<open>Loop_Callbacks\<close>: completions of writes.
    \<open>Loop_Reading\<close>: the receive buffer and the task queue. \<open>Loop_Progress\<close>: flushing, and that epoll
    watches an open connection for writing as long as something is queued.
    \<open>Loop_Properties\<close>: what a loop promises and where it does not keep it.
  \<^item> \<open>Epoll_Context\<close>: \<^verbatim>\<open>EpollContextImpl\<close> with its four loops and the operations that
    route to them. \<open>Context_Properties\<close>: order and routing of the calls.
  \<^item> \<open>Redis_Client\<close>: \<^verbatim>\<open>SimpleRedisClient.cpp\<close> on the loop. \<open>Redis_Properties\<close>: replies
    reach the promises of their commands; what a close loses. \<open>Redis_Batch\<close>: \<^verbatim>\<open>execute1\<close>,
    the batching variant. \<open>Redis_Session\<close>: a whole session on one of the four connections, from
    the commands the callers hand over to the values their futures get. \<open>Redis_Liveness\<close>: from
    every state it reaches, a session can be completed. \<open>Redis_Cli\<close>: the program
    \<^verbatim>\<open>redis_cli.cpp\<close> with what it prints.
  \<^item> \<open>Simulation\<close>: the two interfaces the concurrent theories share: the locale
    \<open>simulation\<close> (every step of a transition system is one of an abstract system, or none) and the
    locale \<open>progress\<close> (below its goal, a system always has a step that lowers a measure).
  \<^item> \<open>Mpsc_Concurrent\<close>, \<open>Spsc_Concurrent\<close>, \<open>Mpmc_Concurrent\<close>: the rings under any
    interleaving, one access to a shared variable per step. \<open>Wakeup\<close>: the flag \<^verbatim>\<open>awake\<close> and
    the wake-up descriptor between posting threads and the loop. \<open>Wakeup_Queue\<close>:
    \<^verbatim>\<open>postTask\<close> and the loop, composed of the ring and of the flag; the composition
    simulates the flag's protocol and a list of tasks. \<open>Posting_Progress\<close>, \<open>Posting_Properties\<close>:
    posted tasks run, and a posting thread can finish. \<open>Loop_Life\<close>,
    \<open>Life_Properties\<close>: starting, stopping and joining a loop thread, from any threads.
    \<open>Spin_Lock\<close>: \<^verbatim>\<open>SpinLock\<close>.
    \<open>Blocking_Queues\<close>: the operations of \<^verbatim>\<open>BlockQueue.h\<close>, and the locale
    \<open>closable_queue\<close> the pool relies on. \<open>Locked_Queue\<close>: the same members statement by
    statement, for any number of threads, under a lock (locale \<open>mutual_exclusion\<close>, for the spin lock and
    for \<^verbatim>\<open>std::mutex\<close>); the locale \<open>locked_sections\<close> makes its runs runs of whole
    operations. \<open>Locked_Progress\<close>: the calls return and no notification is lost (locale
    \<open>live_sections\<close>). \<open>Locked_Properties\<close>: what both queues promise. \<open>Thread_Pool\<close>:
    \<^verbatim>\<open>thread_pool\<close>. \<open>Pool_Progress\<close>: joining a pool can finish.
    \<open>Concurrency_Properties\<close>: what they promise.
  \<^item> \<open>Linux_Socket\<close>, \<open>Windows_Socket\<close>: the two implementations of
    \<^verbatim>\<open>socket.h\<close>, and \<^verbatim>\<open>SocketManager\<close> that hands them out. \<open>Descriptors\<close>:
    who owns the epoll, event and timer descriptors and when they are closed, with the locales
    \<open>handle_owner\<close> and \<open>movable_owner\<close> for the classes that own one. \<open>Logger\<close>: the
    logger.

  \<^bold>\<open>How state and effects are modelled.\<close> Objects are records with the members of the source; a shared
  pointer to a socket is its descriptor; callbacks are functions on a state of the application that the
  loop carries, so that a theorem holds for all of them. Exceptions are constructors of a result type. The
  answers of the operating system are a parameter: \<open>kernel\<close> holds what \<^verbatim>\<open>read\<close>,
  \<^verbatim>\<open>writev\<close> and \<^verbatim>\<open>accept\<close> return, and \<open>kernel_ok\<close> is the documented
  contract (no more bytes than asked for, and a positive count is not zero). \<^verbatim>\<open>std::hash\<close> is a
  parameter. Protobuf, Nacos, the clock and the file system are parameters too. \<open>wire\<close> records the
  bytes a descriptor has taken.

  \<^bold>\<open>Fuel.\<close> The RESP parser carries fuel, one unit per call or element; one more than the bytes of the
  buffer is enough when no bulk header is below -1 (\<open>resp_parse_total\<close>), and no amount is enough for the
  reply of \<open>resp_parse_diverges\<close>. \<open>parse_run\<close> is the same parser without fuel (\<open>parse_run_iff\<close>), and
  the read loop of the client calls it: \<open>None\<close> is a read that does not return, and
  \<open>reads_resolve_in_order\<close> says when that is. Draining a task queue needs more than its length, which is
  below 512. The RPC parser and its read loop are total, by the rank of the parser's states and the bytes
  left. A call that spins for ever, as a push to a full task queue, is \<open>None\<close>.

  \<^bold>\<open>Interleavings.\<close> The loop's theorems are about any sequence of tasks and events, also events that epoll
  would not report. What is said to come to an end does so by fewer steps: \<open>redis_own_step\<close> and
  \<open>rpc_own_step\<close> write and read only when epoll watches for it, \<open>ending_step\<close> ends a loop
  thread without another event than that of its wake-up descriptor, and the calls of a blocking
  queue end without a thread that wakes for no reason (\<open>finishing\<close>, \<open>cond_own_step\<close>). The concurrent
  theories have one step per access to a shared variable, on sequentially consistent memory, except that
  \<open>Wakeup\<close> also has the reading with a store buffer, which the memory orders in the code allow. The
  posting theories compose the ring and the flag; their steps take the steps of the ring as a parameter,
  either all accesses (\<open>mpsc_step\<close>) or those in which no producer is overtaken by a lap of the ring
  (\<open>lap_step\<close>), and each theorem names the one it is about. The operations of the blocking queues are one step in \<open>Thread_Pool\<close>;
  \<open>spin_queue_atomic\<close> says why they may be. A condition variable follows its documentation: waiting
  unlocks and sleeps at once, a thread may wake for no reason, and it then locks and tests again.

  \<^bold>\<open>What is assumed.\<close> Tasks given to the pool raise at most exceptions derived from
  \<^verbatim>\<open>std::exception\<close>, as any other ends the program. Where the parser does not return, what the
  read callback of the client yields has no meaning. A loop is started again only after its thread has
  been joined: starting a joinable one ends the program. \<open>mpsc_fifo\<close> excludes that a producer is overtaken
  by a whole lap of the ring between its check and its exchange; \<open>mpsc_lap_loses\<close> shows why, for every
  size. Strings of the parser are characters and buffers of the loop bytes, with a bijection between them.

  \<^bold>\<open>Not modelled.\<close> What the system calls that create descriptors return is a parameter; waiting on
  \<^verbatim>\<open>epoll_wait\<close> is a step that is not enabled, and its errors other than
  \<^verbatim>\<open>EINTR\<close>, which no valid descriptor gives; a batch of writes with an empty completion function
  (\<open>doAsyncWriteBatch\<close> has a callback for each); weak memory beyond the wake-up flag; a positive
  theorem for \<^verbatim>\<open>MPMCQueue\<close> under interleaving; the code protoc generates; tests and benchmarks.
\<close>

end
